(* ===== verification/Prelude.thy ===== *)
theory Prelude
  imports Main "HOL-Library.Word" "HOL-Library.Monad_Syntax"
begin

text \<open>
  Shared vocabulary of the development: the machine integers of the i386 target, the
  collections of rewrite rules the component theories extend, page arithmetic, and the
  page-stepping loop \<open>for (a = lo; a < hi; a += 0x1000)\<close> that occurs in six source
  files.  A computation that can fail to return (a page fault taken in the kernel, whose
  handler calls \<open>abort\<close>, or a loop that never ends) is an \<open>option\<close>; \<open>None\<close> is "does not
  come back".
\<close>

unbundle bit_operations_syntax

type_synonym u8 = "8 word"
type_synonym u16 = "16 word"
type_synonym u32 = "32 word"
type_synonym u64 = "64 word"

named_theorems frame_simps "bitmap reads after bitmap writes"
named_theorems mem_simps "reads after writes of the byte memory"
named_theorems step_simps "fields an operation leaves alone"

subsection \<open>Counting up in 32 bits\<close>

lemma unat_inc_less: "(i::u32) < n \<Longrightarrow> unat (i + 1) = Suc (unat i)"
  by unat_arith

lemma inc_le_iff: "(i::u32) < n \<Longrightarrow> i + 1 \<le> j \<longleftrightarrow> i < j"
  by (auto simp: word_le_nat_alt word_less_nat_alt unat_inc_less)

lemma unat_less_2p32: "unat (x::u32) < 4294967296"
  using unsigned_less [of x] by simp

subsection \<open>Masks and page arithmetic\<close>

lemma mask12: "(0xFFF::u32) = mask 12"
  by (simp add: mask_eq_exp_minus_1)

lemma mask10: "(0x3FF::u32) = mask 10"
  by (simp add: mask_eq_exp_minus_1)

lemma and_0xFFF: "(x::u32) AND 0xFFF = take_bit 12 x"
  by (simp add: mask12 take_bit_eq_mask)

lemma and_0x3FF: "(x::u32) AND 0x3FF = take_bit 10 x"
  by (simp add: mask10 take_bit_eq_mask)

lemma bit_0xFF: "bit (push_bit n (0xFF::u32)) m \<longleftrightarrow> n \<le> m \<and> m < n + 8 \<and> m < 32"
proof -
  have ff: "(0xFF::u32) = mask 8" by (simp add: mask_eq_exp_minus_1)
  show ?thesis unfolding ff by (auto simp only: bit_push_bit_iff bit_mask_iff) auto
qed

lemma and_NOT_7_div: "(a::u32) AND NOT 7 = a div 8 * 8"
proof -
  have seven: "(7::u32) = mask 3" by (simp add: mask_eq_exp_minus_1)
  show ?thesis
    by (rule bit_word_eqI)
      (auto simp: seven bit_simps push_bit_eq_mult [of 3, simplified, symmetric]
        drop_bit_eq_div [of 3, simplified, symmetric])
qed

lemma and_NOT_7: "unat ((a::u32) AND NOT 7) = unat a div 8 * 8"
  using unat_less_2p32 [of a] unfolding and_NOT_7_div by (simp add: unat_word_ariths unat_div_distrib)

definition page_down :: "u32 \<Rightarrow> u32" where
  "page_down a = a AND NOT 0xFFF"

definition page_up :: "u32 \<Rightarrow> u32" where
  "page_up a = (a + 0xFFF) AND NOT 0xFFF"

lemma page_down_div: "page_down a = a div 4096 * 4096"
  by (rule bit_word_eqI)
    (auto simp: page_down_def mask12 bit_simps push_bit_eq_mult [of 12, simplified, symmetric]
      drop_bit_eq_div [of 12, simplified, symmetric])

lemma unat_page_down: "unat (page_down a) = unat a div 4096 * 4096"
  using unat_less_2p32 [of a]
  by (simp add: page_down_div unat_word_ariths unat_div_distrib)

lemma page_down_le: "page_down a \<le> a"
  by (simp add: word_le_nat_alt unat_page_down)

lemma page_down_idem [simp]: "page_down (page_down a) = page_down a"
  by (rule word_unat_eq_iff [THEN iffD2]) (simp add: unat_page_down)

lemma unat_and_0xFFF: "unat ((a::u32) AND 0xFFF) = unat a mod 4096"
  by (simp add: and_0xFFF unsigned_take_bit_eq) (simp add: take_bit_eq_mod)

lemma page_down_aligned: "page_down a AND 0xFFF = 0"
  by (rule word_unat_eq_iff [THEN iffD2]) (simp add: unat_and_0xFFF unat_page_down)

lemma unat_page_up:
  assumes "unat a + 4095 < 2 ^ 32"
  shows "unat (page_up a) = (unat a + 4095) div 4096 * 4096"
proof -
  have "page_up a = page_down (a + 0xFFF)" by (simp add: page_up_def page_down_def)
  then show ?thesis using assms by (simp add: unat_page_down unat_word_ariths)
qed

subsection \<open>The page-stepping loop\<close>

text \<open>
  The addresses visited by \<open>for (uint32_t a = lo; a < hi; a += 0x1000)\<close>, in order.  When
  \<open>a += 0x1000\<close> wraps around while \<open>a < hi\<close> the C loop starts over and never ends.
\<close>

partial_function (option) page_addrs :: "u32 \<Rightarrow> u32 \<Rightarrow> u32 list option" where
  "page_addrs a hi =
     (if a < hi then Option.bind (page_addrs (a + 0x1000) hi) (\<lambda>r. Some (a # r))
      else Some [])"

lemma page_addrs_done: "\<not> a < hi \<Longrightarrow> page_addrs a hi = Some []"
  by (simp add: page_addrs.simps)

lemma page_addrs_step:
  "a < hi \<Longrightarrow> page_addrs a hi = Option.bind (page_addrs (a + 0x1000) hi) (\<lambda>r. Some (a # r))"
  by (subst page_addrs.simps) simp

lemma pages_Suc: "0 < n \<Longrightarrow> (n + 4095) div 4096 = Suc ((n - 4096 + 4095) div (4096::nat))"
proof (cases "n \<le> 4096")
  case True
  assume "0 < n"
  with True have "(n + 4095) div 4096 = 1" by (intro div_nat_eqI) auto
  with True show ?thesis by simp
next
  case False
  then obtain m where "n = m + 4096" by (metis le_add_diff_inverse2 nat_le_linear)
  then show ?thesis by simp
qed

lemma page_addrs_nat:
  assumes "unat hi \<le> 0xFFFFF000"
  shows "page_addrs a hi =
    Some (map (\<lambda>k. a + of_nat k * 0x1000) [0 ..< (unat hi - unat a + 4095) div 4096])"
  using assms
proof (induction "unat hi - unat a" arbitrary: a rule: less_induct)
  case less
  show ?case
  proof (cases "a < hi")
    case False
    then show ?thesis by (simp add: page_addrs_done word_less_nat_alt)
  next
    case True
    let ?n = "(unat hi - unat (a + 0x1000) + 4095) div 4096"
    have u: "unat (a + 0x1000) = unat a + 4096"
      using True less.prems by (simp add: unat_word_ariths word_less_nat_alt)
    have n: "(unat hi - unat a + 4095) div 4096 = Suc ?n"
      using True u pages_Suc [of "unat hi - unat a"]
      by (simp only: diff_diff_left zero_less_diff word_less_nat_alt)
    have "page_addrs (a + 0x1000) hi =
        Some (map (\<lambda>k. a + 0x1000 + of_nat k * 0x1000) [0 ..< ?n])"
      by (rule less.hyps [OF _ less.prems]) (use True u in \<open>simp add: word_less_nat_alt\<close>)
    then show ?thesis
      unfolding page_addrs_step [OF True] n
      by (simp add: upt_rec [of 0 "Suc k" for k] map_Suc_upt [symmetric] o_def distrib_right
          add.assoc del: upt_Suc)
  qed
qed

lemma unat_add_page:
  "unat ((a::u32) + 0x1000) = unat a + 0x1000 \<or> unat (a + 0x1000) + 2 ^ 32 = unat a + 0x1000"
  using unat_less_2p32 [of a]
  by (cases "unat a + 0x1000 < 2 ^ 32") (auto simp: unat_word_ariths mod_if)

lemma unat_add_page_mod: "unat ((a::u32) + 0x1000) mod 4096 = unat a mod 4096"
  by (simp add: unat_word_ariths mod_mod_cancel [of 4096 4294967296])

lemma aligned_bound:
  assumes "unat (x::u32) mod 4096 = 0"
  shows "unat x \<le> 0xFFFFF000"
proof -
  obtain k where "unat x = 4096 * k" using assms by (auto simp: mod_eq_0_iff_dvd dvd_def)
  with unat_less_2p32 [of x] show ?thesis by simp
qed

lemma page_addrs_last:
  assumes "page_addrs a hi = Some r"
  shows "a < hi \<longrightarrow> (\<exists>b. unat b mod 4096 = unat a mod 4096 \<and> b < hi \<and> \<not> b + 0x1000 < hi)"
    (is "?P a hi r")
proof (rule page_addrs.raw_induct [where P = ?P, OF _ assms])
  fix f and a hi :: u32 and r
  assume IH: "\<And>a hi r. f a hi = Some r \<Longrightarrow> ?P a hi r"
    and eq: "(if a < hi then Option.bind (f (a + 0x1000) hi) (\<lambda>r. Some (a # r)) else Some []) = Some r"
  show "?P a hi r"
  proof
    assume l: "a < hi"
    with eq obtain r' where "f (a + 0x1000) hi = Some r'"
      by (auto simp: bind_eq_Some_conv)
    from IH [OF this] l show "\<exists>b. unat b mod 4096 = unat a mod 4096 \<and> b < hi \<and> \<not> b + 0x1000 < hi"
      by (auto simp: unat_add_page_mod)
  qed
qed

text \<open>The loop never ends when it is entered page-aligned with a bound inside the last page.\<close>

lemma page_addrs_diverges:
  assumes "0xFFFFF000 < hi" and "a < hi" and "unat a mod 4096 = 0"
  shows "page_addrs a hi = None"
proof (rule ccontr)
  assume "page_addrs a hi \<noteq> None"
  then obtain r where "page_addrs a hi = Some r" by blast
  from page_addrs_last [OF this] assms(2,3) obtain b where
    b: "unat b mod 4096 = 0" "b < hi" "\<not> b + 0x1000 < hi" by metis
  have "unat b \<le> 0xFFFFF000" "unat (b + 0x1000) \<le> 0xFFFFF000"
    using b(1) by (simp_all add: aligned_bound unat_add_page_mod)
  with b assms(1) unat_add_page [of b] unat_less_2p32 [of hi] show False
    by (simp add: word_less_nat_alt)
qed

text \<open>Machine words converted to \<open>int\<close>.\<close>

lemma uint_nonneg: "0 \<le> sint (w::u32) \<Longrightarrow> uint w = sint w"
  using sint_lt [of w] uint_sint [of w] by (simp add: take_bit_eq_mod)

lemma sint_sign: "sint (w::u32) = (if uint w < 2147483648 then uint w else uint w - 4294967296)"
proof (cases "0 \<le> sint w")
  case True
  then show ?thesis using uint_nonneg [of w] sint_lt [of w] by simp
next
  case False
  have "uint w = (sint w + 4294967296) mod 4294967296" using uint_sint [of w] by (simp add: take_bit_eq_mod)
  also have "\<dots> = sint w + 4294967296" using False sint_ge [of w] by (intro mod_pos_pos_trivial) simp_all
  finally show ?thesis using False sint_ge [of w] by simp
qed

text \<open>A byte zero-extended to an \<open>int\<close> is never \<open>EOF\<close>.\<close>

lemma byte_not_eof: "(ucast (c::u8) :: u32) \<noteq> - 1"
proof
  assume "(ucast c :: u32) = - 1"
  then have "unat (ucast c :: u32) = unat (- 1 :: u32)" by simp
  moreover have "unat c < 256" using unsigned_less [of c, where 'a = nat] by simp
  ultimately show False by (simp add: unsigned_ucast_eq unsigned_minus_1_eq_mask mask_eq_exp_minus_1 take_bit_eq_mod)
qed

lemma find_SomeD: "find P xs = Some x \<Longrightarrow> x \<in> set xs \<and> P x"
  by (auto simp: find_Some_iff)

text \<open>Rounding up to a multiple does not pass a bound that is one.\<close>

lemma round_up_le:
  assumes "0 < c" "x \<le> c * q"
  shows "(x + (c - 1)) div c * c \<le> c * (q::nat)"
proof -
  have "x + (c - 1) < Suc q * c" using assms by (simp add: mult.commute)
  then have "(x + (c - 1)) div c < Suc q" using assms(1) by (simp add: less_mult_imp_div_less)
  then have "(x + (c - 1)) div c \<le> q" by simp
  from mult_le_mono2 [OF this, of c] show ?thesis by (simp only: mult.commute)
qed

lemma round_up_page: "x \<le> 4096 * q \<Longrightarrow> (x + 4095) div 4096 * 4096 \<le> 4096 * (q::nat)"
  using round_up_le [of 4096 x q] by simp

end
