(* ===== verification/Pmm.thy ===== *)
theory Pmm
  imports Prelude
begin

text \<open>
  The physical frame allocator, \<open>kernel/arch/i386/pmm.c\<close>, and the boot information it reads,
  \<open>kernel/include/kernel/multiboot.h\<close>.  A frame number is a \<open>u32\<close>; the bitmap is the array
  of 32-bit words at the linker symbol \<open>kernel_end\<close>, one bit per frame, set for "in use".
\<close>

subsection \<open>State and boot information\<close>

record pmm_state =
  frame_bitmap :: "u32 \<Rightarrow> u32"
  total_frames :: u32
  last_alloc :: u32

record multiboot_info =
  mbi_flags :: u32
  mem_lower :: u32
  mem_upper :: u32
  boot_device :: u32
  cmdline :: u32
  mods_count :: u32
  mods_addr :: u32
  syms :: "u32 list"
  mmap_length :: u32
  mmap_addr :: u32

record multiboot_mmap_entry =
  me_size :: u32
  me_addr :: u64
  me_len :: u64
  me_type :: u32

record multiboot_module =
  mod_start :: u32
  mod_end :: u32
  mod_string :: u32
  mod_reserved :: u32

text \<open>
  What the boot loader and the linker left in memory: the structures the code reads through
  the addresses in \<open>multiboot_info\<close>, and the addresses of the two linker symbols.
\<close>

record boot_env =
  mmap_at :: "u32 \<Rightarrow> multiboot_mmap_entry"
  mod_at :: "u32 \<Rightarrow> multiboot_module"
  kernel_start :: u32
  kernel_end :: u32

abbreviation (input) MULTIBOOT_MEMORY_AVAILABLE :: u32 where
  "MULTIBOOT_MEMORY_AVAILABLE \<equiv> 1"

abbreviation (input) MULTIBOOT_INFO_MODS :: u32 where
  "MULTIBOOT_INFO_MODS \<equiv> 8"

subsection \<open>Bitmap helpers\<close>

definition frame_set :: "u32 \<Rightarrow> pmm_state \<Rightarrow> pmm_state" where
  "frame_set frame s = s\<lparr>frame_bitmap := (frame_bitmap s)
     (frame div 32 := frame_bitmap s (frame div 32) OR push_bit (unat (frame mod 32)) 1)\<rparr>"

definition frame_clear :: "u32 \<Rightarrow> pmm_state \<Rightarrow> pmm_state" where
  "frame_clear frame s = s\<lparr>frame_bitmap := (frame_bitmap s)
     (frame div 32 := frame_bitmap s (frame div 32) AND NOT (push_bit (unat (frame mod 32)) 1))\<rparr>"

definition frame_test :: "u32 \<Rightarrow> pmm_state \<Rightarrow> bool" where
  "frame_test frame s \<longleftrightarrow>
     frame_bitmap s (frame div 32) AND push_bit (unat (frame mod 32)) 1 \<noteq> 0"

subsection \<open>Initialisation\<close>

text \<open>The walk over the memory map: each entry's \<open>size\<close> field leads to the next entry.\<close>

partial_function (option) mmap_walk ::
    "(u32 \<Rightarrow> multiboot_mmap_entry) \<Rightarrow> u32 \<Rightarrow> u32 \<Rightarrow> multiboot_mmap_entry list option" where
  "mmap_walk m e mmap_end =
     (if e < mmap_end
      then Option.bind (mmap_walk m (e + me_size (m e) + 4) mmap_end) (\<lambda>r. Some (m e # r))
      else Some [])"

text \<open>Pass 1: the top of usable RAM, computed in 64 bits and cut to 32.\<close>

definition entry_top :: "multiboot_mmap_entry \<Rightarrow> u32" where
  "entry_top e = ucast (me_addr e + me_len e)"

definition find_highest :: "multiboot_mmap_entry list \<Rightarrow> u32" where
  "find_highest es = fold (\<lambda>e highest.
     if me_type e = MULTIBOOT_MEMORY_AVAILABLE
     then if entry_top e > highest then entry_top e else highest
     else highest) es 0"

text \<open>\<open>memset(frame_bitmap, 0xFF, n)\<close> on the word array: only the first \<open>n\<close> bytes change.\<close>

definition ff_byte :: "u32 \<Rightarrow> u32 \<Rightarrow> nat \<Rightarrow> u32" where
  "ff_byte n i k = (if 4 * unat i + k < unat n then push_bit (8 * k) 0xFF else 0)"

definition bitmap_fill :: "u32 \<Rightarrow> pmm_state \<Rightarrow> pmm_state" where
  "bitmap_fill n s = s\<lparr>frame_bitmap := (\<lambda>i. frame_bitmap s i OR ff_byte n i 0 OR ff_byte n i 1
     OR ff_byte n i 2 OR ff_byte n i 3)\<rparr>"

text \<open>Pass 2: free the available regions, a page at a time.\<close>

fun free_available :: "multiboot_mmap_entry list \<Rightarrow> pmm_state \<Rightarrow> pmm_state option" where
  "free_available [] s = Some s"
| "free_available (e # es) s =
     (if me_type e = MULTIBOOT_MEMORY_AVAILABLE then
        let base = ucast (me_addr e); len = ucast (me_len e) in do {
          as \<leftarrow> page_addrs base (base + len);
          free_available es (fold (\<lambda>a. frame_clear (a div 4096)) as s)
        }
      else free_available es s)"

text \<open>\<open>for (f = first; f <= last; f++) frame_set(f)\<close>, with \<open>last\<close> a page number.\<close>

definition reserve_range :: "u32 \<Rightarrow> u32 \<Rightarrow> pmm_state \<Rightarrow> pmm_state" where
  "reserve_range lo hi s = fold frame_set (map of_nat [unat lo ..< Suc (unat hi)]) s"

definition module_at :: "boot_env \<Rightarrow> multiboot_info \<Rightarrow> nat \<Rightarrow> multiboot_module" where
  "module_at b mbi i = mod_at b (mods_addr mbi + 16 * of_nat i)"

definition reserve_modules :: "boot_env \<Rightarrow> multiboot_info \<Rightarrow> pmm_state \<Rightarrow> pmm_state" where
  "reserve_modules b mbi s =
     (if mbi_flags mbi AND MULTIBOOT_INFO_MODS \<noteq> 0 then
        let s = fold (\<lambda>i. reserve_range (mod_start (module_at b mbi i) div 4096)
                                        ((mod_end (module_at b mbi i) - 1) div 4096))
                     [0 ..< unat (mods_count mbi)] s;
            arr_end = mods_addr mbi + mods_count mbi * 16
        in reserve_range (mods_addr mbi div 4096) ((arr_end - 1) div 4096) s
      else s)"

definition pmm_initialize :: "boot_env \<Rightarrow> multiboot_info \<Rightarrow> pmm_state \<Rightarrow> pmm_state option" where
  "pmm_initialize b mbi s = do {
     let mmap_end = mmap_addr mbi + mmap_length mbi;
     es \<leftarrow> mmap_walk (mmap_at b) (mmap_addr mbi) mmap_end;
     let total = find_highest es div 4096;
     let bitmap_bytes = (total + 7) div 8;
     let s = bitmap_fill bitmap_bytes (s\<lparr>total_frames := total\<rparr>);
     s \<leftarrow> free_available es s;
     let kstart = kernel_start b;
     let bmp_end = kernel_end b + bitmap_bytes;
     low \<leftarrow> page_addrs 0 0x100000;
     let s = fold (\<lambda>a. frame_set (a div 4096)) low s;
     let s = reserve_range (kstart div 4096) ((bmp_end - 1) div 4096) s;
     Some (reserve_modules b mbi s)
   }"

subsection \<open>Allocation\<close>

text \<open>The search loop \<open>for (i = lo; i < hi; i++) if (!frame_test(i))\<close>.\<close>

function alloc_scan :: "pmm_state \<Rightarrow> u32 \<Rightarrow> u32 \<Rightarrow> u32 option" where
  "alloc_scan s i hi =
     (if i < hi then if \<not> frame_test i s then Some i else alloc_scan s (i + 1) hi else None)"
  by pat_completeness auto
termination
  by (relation "measure (\<lambda>(s, i, hi). unat hi - unat i)")
    (auto simp: unat_inc_less word_less_nat_alt)

declare alloc_scan.simps [simp del]

definition take_frame :: "u32 \<Rightarrow> pmm_state \<Rightarrow> u32 \<times> pmm_state" where
  "take_frame i s = (i * 4096, (frame_set i s)\<lparr>last_alloc := i\<rparr>)"

definition pmm_alloc_frame :: "pmm_state \<Rightarrow> u32 \<times> pmm_state" where
  "pmm_alloc_frame s =
     (case alloc_scan s (last_alloc s) (total_frames s) of
        Some i \<Rightarrow> take_frame i s
      | None \<Rightarrow>
          (case alloc_scan s 0 (last_alloc s) of
             Some i \<Rightarrow> take_frame i s
           | None \<Rightarrow> (0, s)))"

definition pmm_free_frame :: "u32 \<Rightarrow> pmm_state \<Rightarrow> pmm_state" where
  "pmm_free_frame addr s =
     (let frame = addr div 4096; s = frame_clear frame s
      in if frame < last_alloc s then s\<lparr>last_alloc := frame\<rparr> else s)"

function count_free :: "pmm_state \<Rightarrow> u32 \<Rightarrow> u32 \<Rightarrow> u32" where
  "count_free s i count =
     (if i < total_frames s
      then count_free s (i + 1) (if \<not> frame_test i s then count + 1 else count)
      else count)"
  by pat_completeness auto
termination
  by (relation "measure (\<lambda>(s, i, c). unat (total_frames s) - unat i)")
    (auto simp: unat_inc_less word_less_nat_alt)

declare count_free.simps [simp del]

definition pmm_free_frame_count :: "pmm_state \<Rightarrow> u32" where
  "pmm_free_frame_count s = count_free s 0 0"

subsection \<open>The bitmap as a set of frames\<close>

text \<open>What a set of flags promises its clients.\<close>

locale bitset =
  fixes bset :: "'k \<Rightarrow> 's \<Rightarrow> 's"
    and bclear :: "'k \<Rightarrow> 's \<Rightarrow> 's"
    and btest :: "'k \<Rightarrow> 's \<Rightarrow> bool"
  assumes test_set: "btest g (bset f s) \<longleftrightarrow> g = f \<or> btest g s"
    and test_clear: "btest g (bclear f s) \<longleftrightarrow> g \<noteq> f \<and> btest g s"
begin

lemma test_fold_set: "btest g (fold bset fs s) \<longleftrightarrow> g \<in> set fs \<or> btest g s"
  by (induction fs arbitrary: s) (auto simp: test_set)

lemma test_fold_clear: "btest g (fold bclear fs s) \<longleftrightarrow> g \<notin> set fs \<and> btest g s"
  by (induction fs arbitrary: s) (auto simp: test_clear)

end

lemma frame_test_bit: "frame_test f s \<longleftrightarrow> bit (frame_bitmap s (f div 32)) (unat (f mod 32))"
  by (simp add: frame_test_def bit_iff_and_push_bit_not_eq_0)

lemma frame_eq_iff: "(f::u32) = g \<longleftrightarrow> f div 32 = g div 32 \<and> unat (f mod 32) = unat (g mod 32)"
  by (metis word_unat_eq_iff div_mult_mod_eq)

lemma frame_test_set: "frame_test g (frame_set f s) \<longleftrightarrow> g = f \<or> frame_test g s"
proof -
  have "unat (g mod 32) < 32" by (simp add: unat_mod_distrib)
  then show ?thesis
    by (auto simp: frame_test_bit frame_set_def bit_simps frame_eq_iff [of g f])
qed

lemma frame_test_clear: "frame_test g (frame_clear f s) \<longleftrightarrow> g \<noteq> f \<and> frame_test g s"
proof -
  have "unat (g mod 32) < 32" by (simp add: unat_mod_distrib)
  then show ?thesis
    by (auto simp: frame_test_bit frame_clear_def bit_simps frame_eq_iff [of g f])
qed

interpretation bm: bitset frame_set frame_clear frame_test
  by unfold_locales (simp_all add: frame_test_set frame_test_clear)

lemma frame_test_last_alloc [simp]: "frame_test f (s\<lparr>last_alloc := l\<rparr>) = frame_test f s"
  by (simp add: frame_test_def)

lemma frame_test_total [simp]: "frame_test f (s\<lparr>total_frames := t\<rparr>) = frame_test f s"
  by (simp add: frame_test_def)

lemma frame_ops_fields [simp]:
  "total_frames (frame_set f s) = total_frames s" "last_alloc (frame_set f s) = last_alloc s"
  "total_frames (frame_clear f s) = total_frames s" "last_alloc (frame_clear f s) = last_alloc s"
  by (simp_all add: frame_set_def frame_clear_def)

subsection \<open>The allocator\<close>

definition free_set :: "pmm_state \<Rightarrow> u32 set" where
  "free_set s = {f. f < total_frames s \<and> \<not> frame_test f s}"

definition avail :: "pmm_state \<Rightarrow> u32 set" where
  "avail s = (\<lambda>f. f * 4096) ` free_set s"

text \<open>The allocator's invariant; frame 0 stays reserved because address 0 means "no memory".\<close>

definition pmm_inv :: "pmm_state \<Rightarrow> bool" where
  "pmm_inv s \<longleftrightarrow> total_frames s \<le> 0x100000 \<and> last_alloc s \<le> total_frames s \<and> frame_test 0 s"

lemma alloc_scan_Some:
  "alloc_scan s i hi = Some k \<Longrightarrow>
     i \<le> k \<and> k < hi \<and> \<not> frame_test k s \<and> (\<forall>j. i \<le> j \<and> j < k \<longrightarrow> frame_test j s)"
proof (induction s i hi rule: alloc_scan.induct)
  case (1 s i hi)
  show ?case
  proof (cases "i < hi \<and> frame_test i s")
    case True
    with "1.prems" have "alloc_scan s (i + 1) hi = Some k"
      by (simp add: alloc_scan.simps [of s i hi])
    from "1.IH" [OF _ _ this] True show ?thesis
      by (auto simp: inc_le_iff [of i hi] order.order_iff_strict [of i])
  next
    case False
    with "1.prems" show ?thesis
      by (auto simp: alloc_scan.simps [of s i hi] split: if_splits)
  qed
qed

lemma alloc_scan_None:
  "alloc_scan s i hi = None \<longleftrightarrow> (\<forall>j. i \<le> j \<and> j < hi \<longrightarrow> frame_test j s)"
proof (induction s i hi rule: alloc_scan.induct)
  case (1 s i hi)
  show ?case
  proof (cases "i < hi \<and> frame_test i s")
    case True
    with "1.IH" show ?thesis
      by (auto simp: alloc_scan.simps [of s i hi] inc_le_iff [of i hi] order.order_iff_strict [of i])
  next
    case False
    then show ?thesis
      by (auto simp: alloc_scan.simps [of s i hi])
  qed
qed

text \<open>The two scans cover every frame: the wrap-around misses nothing.\<close>

lemma pmm_alloc_cases:
  assumes inv: "pmm_inv s" and alloc: "pmm_alloc_frame s = (a, s')"
  obtains (ok) f where "f < total_frames s" "\<not> frame_test f s" "a = f * 4096"
      "s' = (frame_set f s)\<lparr>last_alloc := f\<rparr>"
    | (oom) "a = 0" "s' = s" "free_set s = {}"
proof (cases "alloc_scan s (last_alloc s) (total_frames s)")
  case (Some k)
  with alloc show ?thesis
    using alloc_scan_Some [OF Some] by (auto simp: pmm_alloc_frame_def take_frame_def intro: ok)
next
  case hi: None
  show ?thesis
  proof (cases "alloc_scan s 0 (last_alloc s)")
    case (Some k)
    with alloc hi inv show ?thesis
      using alloc_scan_Some [OF Some]
      by (auto simp: pmm_alloc_frame_def take_frame_def pmm_inv_def intro!: ok)
  next
    case None
    with hi have "free_set s = {}"
      by (auto simp: free_set_def alloc_scan_None not_less [symmetric])
    with alloc hi None show ?thesis by (auto simp: pmm_alloc_frame_def intro: oom)
  qed
qed

text \<open>The interface the rest of the kernel relies on: a pool of frame addresses.\<close>

locale frame_allocator =
  fixes alloc :: "'s \<Rightarrow> u32 \<times> 's"
    and release :: "u32 \<Rightarrow> 's \<Rightarrow> 's"
    and pool :: "'s \<Rightarrow> u32 set"
    and managed :: "'s \<Rightarrow> u32 set"
    and inv :: "'s \<Rightarrow> bool"
  assumes alloc_ok: "inv s \<Longrightarrow> alloc s = (a, s') \<Longrightarrow> a \<noteq> 0 \<Longrightarrow>
      a \<in> pool s \<and> pool s' = pool s - {a} \<and> managed s' = managed s \<and> inv s'"
    and alloc_oom: "inv s \<Longrightarrow> alloc s = (0, s') \<Longrightarrow> pool s = {} \<and> s' = s"
    and release_ok: "inv s \<Longrightarrow> a \<in> managed s \<Longrightarrow>
      pool (release a s) = insert a (pool s) \<and> managed (release a s) = managed s \<and> inv (release a s)"
    and pool_managed: "inv s \<Longrightarrow> pool s \<subseteq> managed s"
    and zero_unmanaged: "0 \<notin> managed s"
begin

lemma alloc_succeeds: "inv s \<Longrightarrow> pool s \<noteq> {} \<Longrightarrow> fst (alloc s) \<noteq> 0"
  using alloc_oom by (metis prod.collapse)

lemma alloc_fails_iff: "inv s \<Longrightarrow> fst (alloc s) = 0 \<longleftrightarrow> pool s = {}"
  using alloc_ok alloc_oom by (metis empty_iff prod.collapse)

lemma alloc_release: "inv s \<Longrightarrow> alloc s = (a, s') \<Longrightarrow> a \<noteq> 0 \<Longrightarrow> pool (release a s') = pool s"
  using alloc_ok [of s a s'] release_ok [of s' a] pool_managed [of s] by auto

lemma alloc_inv: "inv s \<Longrightarrow> alloc s = (a, s') \<Longrightarrow> inv s'"
  using alloc_ok alloc_oom by metis

lemma alloc_distinct:
  "inv s \<Longrightarrow> alloc s = (a, s1) \<Longrightarrow> alloc s1 = (b, s2) \<Longrightarrow> a \<noteq> 0 \<Longrightarrow> b \<noteq> 0 \<Longrightarrow> a \<noteq> b"
  using alloc_ok [of s a s1] alloc_ok [of s1 b s2] by auto

end

definition managed :: "pmm_state \<Rightarrow> u32 set" where
  "managed s = (\<lambda>f. f * 4096) ` {f. f < total_frames s \<and> f < 0x100000 \<and> f \<noteq> 0}"

lemma unat_frame_addr: "f < 0x100000 \<Longrightarrow> unat ((f::u32) * 4096) = unat f * 4096"
  by (simp add: unat_word_ariths word_less_nat_alt)

lemma frame_addr_div: "f < 0x100000 \<Longrightarrow> (f::u32) * 4096 div 4096 = f"
  by (rule word_unat_eq_iff [THEN iffD2]) (simp add: unat_frame_addr unat_div_distrib)

lemma frame_addr_eq0: "f < 0x100000 \<Longrightarrow> (f::u32) * 4096 = 0 \<longleftrightarrow> f = 0"
  by (metis frame_addr_div div_0 mult_zero_left)

lemma frame_addr_inj: "f < 0x100000 \<Longrightarrow> g < 0x100000 \<Longrightarrow> (f::u32) * 4096 = g * 4096 \<longleftrightarrow> f = g"
  by (metis frame_addr_div)

lemma free_set_bounds:
  assumes "pmm_inv s" "f \<in> free_set s"
  shows "f < 0x100000" "f \<noteq> 0" "f < total_frames s"
  using assms by (auto simp: pmm_inv_def free_set_def)

lemma avail_image_remove:
  assumes "pmm_inv s" "f \<in> free_set s"
  shows "(\<lambda>f. f * 4096) ` (free_set s - {f}) = avail s - {f * 4096}"
  using assms free_set_bounds(1) [OF assms(1)] frame_addr_inj
  by (fastforce simp: avail_def)

lemma pmm_alloc_ok:
  assumes "pmm_inv s" "pmm_alloc_frame s = (a, s')" "a \<noteq> 0"
  shows "a \<in> avail s \<and> avail s' = avail s - {a} \<and> managed s' = managed s \<and> pmm_inv s'"
  using assms(1,2)
proof (cases rule: pmm_alloc_cases)
  case (ok f)
  have fs: "f \<in> free_set s" using ok by (simp add: free_set_def)
  have "free_set s' = free_set s - {f}"
    using ok by (auto simp: free_set_def frame_test_set)
  with avail_image_remove [OF assms(1) fs] have "avail s' = avail s - {a}"
    by (simp add: avail_def ok(3))
  moreover have "pmm_inv s'"
    using ok assms(1) by (auto simp: pmm_inv_def frame_test_set)
  ultimately show ?thesis
    using fs ok by (auto simp: avail_def managed_def)
qed (use assms in auto)

lemma pmm_alloc_oom: "pmm_inv s \<Longrightarrow> pmm_alloc_frame s = (0, s') \<Longrightarrow> avail s = {} \<and> s' = s"
proof -
  assume *: "pmm_inv s" "pmm_alloc_frame s = (0, s')"
  then show ?thesis
  proof (cases rule: pmm_alloc_cases)
    case (ok f)
    then have "f \<in> free_set s" by (simp add: free_set_def)
    with ok(3) *(1) show ?thesis
      using free_set_bounds [of s f] frame_addr_eq0 [of f] by auto
  qed (auto simp: avail_def)
qed

lemma pmm_free_ok:
  assumes "pmm_inv s" "a \<in> managed s"
  shows "avail (pmm_free_frame a s) = insert a (avail s) \<and>
    managed (pmm_free_frame a s) = managed s \<and> pmm_inv (pmm_free_frame a s)"
proof -
  from assms(2) obtain f where f: "a = f * 4096" "f < total_frames s" "f < 0x100000" "f \<noteq> 0"
    by (auto simp: managed_def)
  have d: "a div 4096 = f" by (simp add: f frame_addr_div)
  have "free_set (pmm_free_frame a s) = insert f (free_set s)"
    using f d by (auto simp: free_set_def pmm_free_frame_def Let_def frame_test_clear)
  then have "avail (pmm_free_frame a s) = insert a (avail s)"
    by (simp add: avail_def f(1))
  moreover have "managed (pmm_free_frame a s) = managed s"
    by (simp add: managed_def pmm_free_frame_def Let_def)
  moreover have "pmm_inv (pmm_free_frame a s)"
    using assms(1) f d by (auto simp: pmm_inv_def pmm_free_frame_def Let_def frame_test_clear)
  ultimately show ?thesis by simp
qed

lemma avail_managed: "pmm_inv s \<Longrightarrow> avail s \<subseteq> managed s"
  using free_set_bounds [of s] by (auto simp: avail_def managed_def)

lemma zero_not_managed: "0 \<notin> managed s"
  using frame_addr_eq0 by (auto simp: managed_def)

interpretation fa: frame_allocator pmm_alloc_frame pmm_free_frame avail managed pmm_inv
  by unfold_locales
    (fact pmm_alloc_ok pmm_alloc_oom pmm_free_ok avail_managed zero_not_managed)+

text \<open>The counting loop computes the size of the pool.\<close>

lemma count_free_card:
  "count_free s i c = c + of_nat (card {f. i \<le> f \<and> f < total_frames s \<and> \<not> frame_test f s})"
proof (induction s i c rule: count_free.induct)
  case (1 s i c)
  let ?S = "\<lambda>i. {f. i \<le> f \<and> f < total_frames s \<and> \<not> frame_test f s}"
  show ?case
  proof (cases "i < total_frames s")
    case True
    have "?S i = (if frame_test i s then ?S (i + 1) else insert i (?S (i + 1)))"
      using True by (auto simp: inc_le_iff [OF True] order.order_iff_strict [of i])
    moreover have "i \<notin> ?S (i + 1)" using inc_le_iff [OF True, of i] by simp
    ultimately have "card (?S i) = (if frame_test i s then card (?S (i + 1)) else Suc (card (?S (i + 1))))"
      by (simp del: mem_Collect_eq)
    with "1.IH" True show ?thesis
      by (simp add: count_free.simps [of s i c])
  next
    case False
    then have "?S i = {}" by auto
    with False show ?thesis by (simp add: count_free.simps [of s i c] del: Collect_empty_eq)
  qed
qed

lemma card_free_set: "card (free_set s) < 2 ^ 32"
proof -
  have "card (free_set s) \<le> card {..<total_frames s}"
    by (rule card_mono) (auto simp: free_set_def)
  also have "{..<total_frames s} = of_nat ` {..<unat (total_frames s)}"
    by (force simp: word_less_nat_alt image_iff unat_of_nat
        intro!: bexI [of _ "unat x" for x] word_unat_eq_iff [THEN iffD2])
  also have "card \<dots> \<le> unat (total_frames s)"
    using card_image_le [of "{..<unat (total_frames s)}" of_nat] by simp
  finally show ?thesis using unat_less_2p32 [of "total_frames s"] by simp
qed

lemma free_count_card: "unat (pmm_free_frame_count s) = card (free_set s)"
proof -
  have "{f. 0 \<le> f \<and> f < total_frames s \<and> \<not> frame_test f s} = free_set s"
    by (simp add: free_set_def)
  with card_free_set [of s] show ?thesis
    by (simp add: pmm_free_frame_count_def count_free_card unat_of_nat del: Collect_empty_eq)
qed

subsection \<open>What initialisation establishes\<close>

lemma unat_numeral_32: "unat (32::u32) = 32"
  by simp

lemma ff_byte_bit:
  "bit (ff_byte n i k) j \<longleftrightarrow> 4 * unat i + k < unat n \<and> 8 * k \<le> j \<and> j < 8 * k + 8 \<and> j < 32"
  by (auto simp: ff_byte_def bit_0xFF)

lemma bitmap_fill_word:
  "frame_bitmap (bitmap_fill n s) i = frame_bitmap s i OR ff_byte n i 0 OR ff_byte n i 1
     OR ff_byte n i 2 OR ff_byte n i 3"
  by (simp add: bitmap_fill_def)

lemma bitmap_fill_test:
  assumes "f < t" "t \<le> 0xFFFFF"
  shows "frame_test f (bitmap_fill ((t + 7) div 8) s)"
proof -
  let ?j = "unat f mod 32"
  have n: "unat ((t + 7) div 8) = (unat t + 7) div 8"
    using assms(2) by (simp add: unat_div_distrib unat_word_ariths word_le_nat_alt)
  have lt: "4 * (unat f div 32) + ?j div 8 < (unat t + 7) div 8"
  proof -
    have "unat f mod (8 * 4) = 8 * (unat f div 8 mod 4) + unat f mod 8"
      by (rule mod_mult2_eq)
    then have "?j div 8 = unat f div 8 mod 4" by simp
    moreover have "unat f div 32 = unat f div 8 div 4" by (simp flip: div_mult2_eq)
    ultimately have "4 * (unat f div 32) + ?j div 8 = unat f div 8" by simp
    also have "unat f div 8 < (unat t + 7) div 8"
      using div_le_mono [of "unat f + 8" "unat t + 7" 8] assms(1)
      by (simp add: word_less_nat_alt)
    finally show ?thesis .
  qed
  have j: "?j < 32" by simp
  then have "?j div 8 < 4" by (rule less_mult_imp_div_less [of _ 4 8, simplified])
  then have "?j div 8 \<in> {0, 1, 2, 3}" by auto
  moreover have "8 * (?j div 8) \<le> ?j" "?j < 8 * (?j div 8) + 8" by linarith+
  ultimately have k: "?j div 8 \<in> {0, 1, 2, 3}" "8 * (?j div 8) \<le> ?j" "?j < 8 * (?j div 8) + 8"
    by blast+
  have "bit (ff_byte ((t + 7) div 8) (f div 32) (?j div 8)) ?j"
    unfolding ff_byte_bit n using lt j k(2,3) by (simp add: unat_div_distrib)
  then have "bit (frame_bitmap (bitmap_fill ((t + 7) div 8) s) (f div 32)) ?j"
    using k(1) unfolding bitmap_fill_word bit_or_iff by auto
  then show ?thesis
    by (simp only: frame_test_bit unat_mod_distrib unat_numeral_32)
qed

lemma fold_page_frames:
  "fold (\<lambda>a. g (a div 4096)) as s = fold g (map (\<lambda>a. a div (4096::u32)) as) s"
  by (simp add: fold_map o_def)

definition region_frames :: "multiboot_mmap_entry \<Rightarrow> u32 set" where
  "region_frames e = (case page_addrs (ucast (me_addr e)) (ucast (me_addr e) + ucast (me_len e)) of
     None \<Rightarrow> {} | Some as \<Rightarrow> (\<lambda>a. a div 4096) ` set as)"

lemma free_available_test:
  "free_available es s = Some s' \<Longrightarrow>
     (frame_test f s' \<longleftrightarrow> frame_test f s \<and>
        (\<forall>e \<in> set es. me_type e = MULTIBOOT_MEMORY_AVAILABLE \<longrightarrow> f \<notin> region_frames e))
     \<and> total_frames s' = total_frames s \<and> last_alloc s' = last_alloc s"
proof (induction es s rule: free_available.induct)
  case (1 s)
  then show ?case by simp
next
  case (2 e es s)
  show ?case
  proof (cases "me_type e = MULTIBOOT_MEMORY_AVAILABLE")
    case True
    with "2.prems" obtain as where
      as: "page_addrs (ucast (me_addr e)) (ucast (me_addr e) + ucast (me_len e)) = Some as" and
      rest: "free_available es (fold (\<lambda>a. frame_clear (a div 4096)) as s) = Some s'"
      by (auto simp: bind_eq_Some_conv Let_def)
    have fields: "total_frames (fold frame_clear xs s) = total_frames s"
      "last_alloc (fold frame_clear xs s) = last_alloc s" for xs s
      by (induction xs arbitrary: s) auto
    from "2.IH"(1) [OF True refl refl as rest] True as show ?thesis
      by (auto simp: fold_page_frames bm.test_fold_clear fields region_frames_def)
  next
    case False
    with "2.prems" "2.IH"(2) [OF False] show ?thesis by simp
  qed
qed

lemma of_nat_upt_range:
  "(f::u32) \<in> set (map of_nat [unat lo ..< Suc (unat hi)]) \<longleftrightarrow> lo \<le> f \<and> f \<le> hi"
proof
  assume "f \<in> set (map of_nat [unat lo ..< Suc (unat hi)])"
  then obtain k where "f = of_nat k" "unat lo \<le> k" "k \<le> unat hi" by auto
  then show "lo \<le> f \<and> f \<le> hi"
    using unat_less_2p32 [of hi] by (simp add: word_le_nat_alt unat_of_nat)
next
  assume "lo \<le> f \<and> f \<le> hi"
  then have "f = of_nat (unat f) \<and> unat f \<in> set [unat lo ..< Suc (unat hi)]"
    by (auto simp: word_le_nat_alt)
  then show "f \<in> set (map of_nat [unat lo ..< Suc (unat hi)])" by (metis imageI set_map)
qed

lemma reserve_range_test:
  "frame_test f (reserve_range lo hi s) \<longleftrightarrow> lo \<le> f \<and> f \<le> hi \<or> frame_test f s"
  by (simp only: reserve_range_def bm.test_fold_set of_nat_upt_range conj_assoc)

lemma fold_set_fields [simp]:
  "total_frames (fold frame_set xs s) = total_frames s"
  "last_alloc (fold frame_set xs s) = last_alloc s"
  by (induction xs arbitrary: s) auto

lemma reserve_range_fields [simp]:
  "total_frames (reserve_range lo hi s) = total_frames s"
  "last_alloc (reserve_range lo hi s) = last_alloc s"
  by (simp_all add: reserve_range_def)

lemma fold_reserve_fields [simp]:
  "total_frames (fold (\<lambda>i. reserve_range (g i) (h i)) xs s) = total_frames s"
  "last_alloc (fold (\<lambda>i. reserve_range (g i) (h i)) xs s) = last_alloc s"
  by (induction xs arbitrary: s) auto

lemma fold_reserve_test:
  "frame_test f (fold (\<lambda>i. reserve_range (g i) (h i)) xs s) \<longleftrightarrow>
     (\<exists>i \<in> set xs. g i \<le> f \<and> f \<le> h i) \<or> frame_test f s"
  by (induction xs arbitrary: s) (auto simp: reserve_range_test)

definition module_frame :: "boot_env \<Rightarrow> multiboot_info \<Rightarrow> u32 \<Rightarrow> bool" where
  "module_frame b mbi f \<longleftrightarrow> mbi_flags mbi AND MULTIBOOT_INFO_MODS \<noteq> 0 \<and>
     ((\<exists>i < unat (mods_count mbi). mod_start (module_at b mbi i) div 4096 \<le> f \<and>
         f \<le> (mod_end (module_at b mbi i) - 1) div 4096)
      \<or> mods_addr mbi div 4096 \<le> f \<and> f \<le> (mods_addr mbi + mods_count mbi * 16 - 1) div 4096)"

lemma reserve_modules_test:
  "frame_test f (reserve_modules b mbi s) \<longleftrightarrow> module_frame b mbi f \<or> frame_test f s"
  by (auto simp: reserve_modules_def module_frame_def Let_def reserve_range_test fold_reserve_test)

lemma reserve_modules_fields [simp]:
  "total_frames (reserve_modules b mbi s) = total_frames s"
  "last_alloc (reserve_modules b mbi s) = last_alloc s"
  by (simp_all add: reserve_modules_def Let_def)

lemma region_frames_word:
  assumes al: "unat (me_addr e) mod 4096 = 0" and len: "unat (me_len e) mod 4096 = 0"
    and top: "unat (me_addr e) + unat (me_len e) \<le> 0xFFFFF000"
  shows "f \<in> region_frames e \<longleftrightarrow>
    unat (me_addr e) \<le> unat f * 4096 \<and> unat f * 4096 < unat (me_addr e) + unat (me_len e)"
    (is "_ \<longleftrightarrow> ?R")
proof -
  let ?b = "ucast (me_addr e) :: u32" and ?l = "ucast (me_len e) :: u32"
  let ?a = "unat (me_addr e)" and ?m = "unat (me_len e)"
  have ub: "unat ?b = ?a" and ul: "unat ?l = ?m"
    using top by (simp_all add: unsigned_ucast_eq take_bit_nat_eq_self)
  have sum: "unat (?b + ?l) = ?a + ?m"
    using top by (simp add: unat_word_ariths ub ul)
  obtain p where p: "?a = 4096 * p" using al by (auto simp: mod_eq_0_iff_dvd dvd_def)
  obtain q where q: "?m = 4096 * q" using len by (auto simp: mod_eq_0_iff_dvd dvd_def)
  have cnt: "(unat (?b + ?l) - unat ?b + 4095) div 4096 = q"
    unfolding sum ub q by (simp add: div_mult_self3 [of 4096 4095 q, simplified])
  have addrs: "page_addrs ?b (?b + ?l) = Some (map (\<lambda>k. ?b + of_nat k * 0x1000) [0 ..< q])"
    unfolding page_addrs_nat [OF top [folded sum]] by (simp only: cnt)
  have nth: "unat ((?b + of_nat k * 0x1000) div 4096) = p + k" if "k < q" for k
  proof -
    have "4096 * p + k * 4096 < 2 ^ 32" using that top p q by simp
    then have "unat (?b + of_nat k * 0x1000) = 4096 * p + k * 4096"
      using that top p q by (simp add: unat_word_ariths ub unat_of_nat)
    then show ?thesis by (simp add: unat_div_distrib)
  qed
  have "f \<in> region_frames e \<longleftrightarrow> (\<exists>k < q. f = (?b + of_nat k * 0x1000) div 4096)"
    by (auto simp: region_frames_def addrs)
  also have "\<dots> \<longleftrightarrow> (\<exists>k < q. unat f = p + k)"
    by (metis nth word_unat_eq_iff)
  also have "\<dots> \<longleftrightarrow> p \<le> unat f \<and> unat f < p + q"
    by (metis add_less_cancel_left le_add1 le_iff_add)
  also have "\<dots> \<longleftrightarrow> ?R" by (auto simp: p q)
  finally show ?thesis .
qed

lemma low_pages: "page_addrs 0 0x100000 = Some (map (\<lambda>k. of_nat k * 0x1000) [0 ..< 256])"
  by (simp add: page_addrs_nat del: upt_rec_numeral)

lemma low_frames:
  "f \<in> set (map (\<lambda>a. a div (4096::u32)) (map (\<lambda>k. of_nat k * 0x1000) [0 ..< 256])) \<longleftrightarrow> f < 256"
proof -
  have d: "(of_nat k * 0x1000) div (4096::u32) = of_nat k" if "k < 256" for k
    using frame_addr_div [of "of_nat k"] that by (simp add: word_less_nat_alt unat_of_nat)
  have "f \<in> set (map (\<lambda>a. a div (4096::u32)) (map (\<lambda>k. of_nat k * 0x1000) [0 ..< 256])) \<longleftrightarrow>
      (\<exists>k < 256. f = of_nat k)"
    by (auto simp: d image_iff intro: bexI [rotated])
  also have "\<dots> \<longleftrightarrow> f < 256"
  proof
    assume "f < 256"
    then show "\<exists>k < 256. f = of_nat k"
      by (intro exI [of _ "unat f"]) (simp add: word_less_nat_alt)
  qed (auto simp: word_less_nat_alt unat_of_nat)
  finally show ?thesis .
qed

text \<open>The bitmap after initialisation, bit by bit.\<close>

lemma pmm_init_bits:
  assumes init: "pmm_initialize b mbi s = Some s'"
    and walk: "mmap_walk (mmap_at b) (mmap_addr mbi) (mmap_addr mbi + mmap_length mbi) = Some es"
  defines "t \<equiv> find_highest es div 4096"
  shows "total_frames s' = t" "last_alloc s' = last_alloc s"
    and "f < t \<Longrightarrow> frame_test f s' \<longleftrightarrow>
      (\<forall>e \<in> set es. me_type e = MULTIBOOT_MEMORY_AVAILABLE \<longrightarrow> f \<notin> region_frames e) \<or> f < 256 \<or>
      kernel_start b div 4096 \<le> f \<and> f \<le> (kernel_end b + (t + 7) div 8 - 1) div 4096 \<or>
      module_frame b mbi f"
    and "f < 256 \<Longrightarrow> frame_test f s'"
proof -
  let ?s1 = "bitmap_fill ((t + 7) div 8) (s\<lparr>total_frames := t\<rparr>)"
  have t: "t \<le> 0xFFFFF"
    using unat_less_2p32 [of "find_highest es"]
    by (simp add: t_def word_le_nat_alt unat_div_distrib)
  from init walk obtain s2 where s2: "free_available es ?s1 = Some s2" and
    s': "s' = reserve_modules b mbi (reserve_range (kernel_start b div 4096)
        ((kernel_end b + (t + 7) div 8 - 1) div 4096)
        (fold frame_set (map (\<lambda>a. a div 4096) (map (\<lambda>k. of_nat k * 0x1000) [0 ..< 256])) s2))"
    by (auto simp: pmm_initialize_def bind_eq_Some_conv Let_def low_pages t_def fold_page_frames
        simp del: upt_rec_numeral map_map)
  note fr = free_available_test [OF s2]
  have s1: "total_frames ?s1 = t" "last_alloc ?s1 = last_alloc s"
    by (simp_all add: bitmap_fill_def)
  show "total_frames s' = t" "last_alloc s' = last_alloc s"
    using fr s1 by (simp_all add: s' del: upt_rec_numeral map_map)
  show "f < t \<Longrightarrow> frame_test f s' \<longleftrightarrow>
      (\<forall>e \<in> set es. me_type e = MULTIBOOT_MEMORY_AVAILABLE \<longrightarrow> f \<notin> region_frames e) \<or> f < 256 \<or>
      kernel_start b div 4096 \<le> f \<and> f \<le> (kernel_end b + (t + 7) div 8 - 1) div 4096 \<or>
      module_frame b mbi f"
    unfolding s' reserve_modules_test reserve_range_test bm.test_fold_set low_frames
    using fr bitmap_fill_test [of f t "s\<lparr>total_frames := t\<rparr>"] t by auto
  show "f < 256 \<Longrightarrow> frame_test f s'"
    unfolding s' reserve_modules_test reserve_range_test bm.test_fold_set low_frames by simp
qed

lemma pmm_init_inv:
  assumes "pmm_initialize b mbi s = Some s'" "last_alloc s = 0"
  shows "pmm_inv s'"
proof -
  from assms(1) obtain es where
    es: "mmap_walk (mmap_at b) (mmap_addr mbi) (mmap_addr mbi + mmap_length mbi) = Some es"
    by (auto simp: pmm_initialize_def bind_eq_Some_conv Let_def)
  have "find_highest es div 4096 \<le> 0x100000"
    using unat_less_2p32 [of "find_highest es"] by (simp add: word_le_nat_alt unat_div_distrib)
  then show ?thesis
    using pmm_init_bits(1,2,4) [OF assms(1) es] assms(2) by (simp add: pmm_inv_def)
qed

text \<open>A page inside \<open>[lo, hi)\<close> has its frame number in the reserved range.\<close>

lemma page_in_range:
  assumes "lo \<le> x" "x < (hi::u32)"
  shows "lo div 4096 \<le> x div 4096 \<and> x div 4096 \<le> (hi - 1) div 4096"
proof -
  have "unat (hi - 1) = unat hi - 1"
    using assms(2) by (intro unat_minus_one) auto
  then show ?thesis
    using assms by (auto simp: word_le_nat_alt word_less_nat_alt unat_div_distrib intro!: div_le_mono)
qed

text \<open>GRUB lays the map out as an array of 24-byte entries; on it the walk comes back.\<close>

lemma mmap_walk_linear:
  assumes "\<forall>k < n. me_size (m (a + 24 * of_nat k)) = 20" and "unat a + 24 * n < 2 ^ 32"
  shows "mmap_walk m a (a + 24 * of_nat n) = Some (map (\<lambda>k. m (a + 24 * of_nat k)) [0 ..< n])"
  using assms
proof (induction n arbitrary: a)
  case 0
  then show ?case by (simp add: mmap_walk.simps)
next
  case (Suc n)
  have "unat (a + 24 * of_nat (Suc n)) = unat a + 24 * Suc n"
    using Suc.prems(2) by (simp add: unat_word_ariths unat_of_nat)
  then have lt: "a < a + 24 * of_nat (Suc n)"
    by (simp add: word_less_nat_alt)
  have sz: "me_size (m a) = 20" using Suc.prems(1)[rule_format, of 0] by simp
  have nx: "a + me_size (m a) + 4 = a + 24" by (simp add: sz)
  have "unat (a + 24) = unat a + 24"
    using Suc.prems(2) by (simp add: unat_word_ariths)
  then have IH: "mmap_walk m (a + 24) (a + 24 + 24 * of_nat n) =
      Some (map (\<lambda>k. m (a + 24 + 24 * of_nat k)) [0 ..< n])"
    using Suc.prems Suc.prems(1)[rule_format, of "Suc _"]
    by (intro Suc.IH) (auto simp: algebra_simps)
  have hi: "a + 24 * of_nat (Suc n) = a + 24 + 24 * of_nat n" by (simp add: algebra_simps)
  have "mmap_walk m a (a + 24 * of_nat (Suc n)) =
      Some (m a # map (\<lambda>k. m (a + 24 + 24 * of_nat k)) [0 ..< n])"
    by (subst mmap_walk.simps) (simp only: lt [unfolded hi] nx if_True hi IH Option.bind.simps)
  then show ?case
    by (simp add: upt_conv_Cons map_Suc_upt [symmetric] o_def add.assoc distrib_left del: upt_Suc)
qed

lemma free_available_returns:
  assumes "\<forall>e \<in> set es. me_type e = 1 \<longrightarrow> unat (me_addr e) + unat (me_len e) \<le> 0xFFFFF000"
  shows "\<exists>s'. free_available es s = Some s'"
  using assms
proof (induction es s rule: free_available.induct)
  case (2 e es s)
  show ?case
  proof (cases "me_type e = MULTIBOOT_MEMORY_AVAILABLE")
    case True
    with "2.prems" have top: "unat (me_addr e) + unat (me_len e) \<le> 0xFFFFF000" by simp
    then have "unat (ucast (me_addr e) + ucast (me_len e) :: u32) \<le> 0xFFFFF000"
      by (simp add: unat_word_ariths unsigned_ucast_eq take_bit_nat_eq_self)
    from page_addrs_nat [OF this] obtain as where
      "page_addrs (ucast (me_addr e)) (ucast (me_addr e) + ucast (me_len e)) = Some as" by blast
    with "2.IH"(1) [OF True refl refl, of as] "2.prems" True show ?thesis by simp
  next
    case False
    with "2.IH"(2) [OF False] "2.prems" show ?thesis by simp
  qed
qed simp

subsection \<open>Properties of the allocator\<close>

text \<open>
  C1. Allocation either finds the pool empty, returns 0 and changes nothing, or takes one
  page-aligned, nonzero frame address out of the pool; it never fails while a frame is free
  and never hands out a frame that is in use.
\<close>

theorem pmm_alloc_correct:
  assumes "pmm_inv s" and "pmm_alloc_frame s = (a, s')"
  shows "if avail s = {} then a = 0 \<and> s' = s
    else a \<noteq> 0 \<and> a \<in> avail s \<and> a AND 0xFFF = 0 \<and> avail s' = avail s - {a} \<and> pmm_inv s'"
proof (cases "a = 0")
  case True
  then show ?thesis using fa.alloc_oom [of s s'] assms by simp
next
  case False
  note ok = fa.alloc_ok [OF assms False]
  then obtain f where "a = f * 4096" "f < 0x100000"
    using free_set_bounds [OF assms(1)] by (auto simp: avail_def)
  then have "a AND 0xFFF = 0"
    by (intro word_unat_eq_iff [THEN iffD2]) (simp add: unat_and_0xFFF unat_frame_addr)
  with ok False show ?thesis by auto
qed

definition pmm_sample :: pmm_state where
  "pmm_sample = \<lparr>frame_bitmap = (\<lambda>i. if i < 8 then 0xFFFFFFFF else 0), total_frames = 300,
     last_alloc = 256\<rparr>"

lemma pmm_sample_inv: "pmm_inv pmm_sample"
  by (simp add: pmm_inv_def pmm_sample_def frame_test_def)

lemma pmm_sample_alloc: "fst (pmm_alloc_frame pmm_sample) = 0x100000"
  by (simp add: pmm_alloc_frame_def pmm_sample_def alloc_scan.simps frame_test_def take_frame_def)

theorem pmm_alloc_correct_witness:
  "fst (pmm_alloc_frame pmm_sample) \<in> avail pmm_sample \<and>
   pmm_inv (snd (pmm_alloc_frame pmm_sample))"
  using pmm_alloc_correct [OF pmm_sample_inv prod.collapse [symmetric]] pmm_sample_alloc
  by (auto split: if_splits)

text \<open>
  C16. Freeing a frame that was allocated makes exactly that frame available again and the
  free-frame count, which always equals the size of the pool, goes up by one.
\<close>

theorem pmm_free_counts:
  assumes "pmm_inv s" and "a \<in> managed s" and "a \<notin> avail s"
  shows "avail (pmm_free_frame a s) = insert a (avail s) \<and> pmm_inv (pmm_free_frame a s) \<and>
    unat (pmm_free_frame_count (pmm_free_frame a s)) = Suc (unat (pmm_free_frame_count s)) \<and>
    unat (pmm_free_frame_count s) = card (avail s)"
proof -
  have card: "pmm_inv s \<Longrightarrow> card (avail s) = card (free_set s)" for s
    unfolding avail_def
    by (rule card_image, rule inj_onI) (metis free_set_bounds(1) frame_addr_inj)
  from fa.release_ok [OF assms(1,2)] have ok: "avail (pmm_free_frame a s) = insert a (avail s)"
    "pmm_inv (pmm_free_frame a s)" by auto
  with assms(3) have "card (avail (pmm_free_frame a s)) = Suc (card (avail s))" by simp
  with ok card [OF ok(2)] card [OF assms(1)] show ?thesis
    by (simp add: free_count_card)
qed

theorem pmm_free_counts_witness:
  "unat (pmm_free_frame_count (pmm_free_frame 0x1000 pmm_sample)) =
   Suc (unat (pmm_free_frame_count pmm_sample))"
proof -
  have "0x1000 \<in> managed pmm_sample"
    unfolding managed_def pmm_sample_def by (rule image_eqI [of _ _ 1]) simp_all
  moreover have "0x1000 \<notin> avail pmm_sample"
  proof
    assume "0x1000 \<in> avail pmm_sample"
    then obtain f where f: "(1::u32) * 4096 = f * 4096" "f \<in> free_set pmm_sample"
      by (auto simp: avail_def)
    then have "1 = f"
      using free_set_bounds(1) [OF pmm_sample_inv f(2)] frame_addr_inj [of 1 f] by simp
    with f(2) show False by (simp add: free_set_def pmm_sample_def frame_test_def)
  qed
  ultimately show ?thesis using pmm_free_counts [OF pmm_sample_inv] by blast
qed

definition aligned_region :: "multiboot_mmap_entry \<Rightarrow> bool" where
  "aligned_region e \<longleftrightarrow> unat (me_addr e) mod 4096 = 0 \<and> unat (me_len e) mod 4096 = 0 \<and>
     unat (me_addr e) + unat (me_len e) \<le> 0xFFFFF000"

text \<open>What a frame that is left free is known not to hold.\<close>

definition usable_frame :: "boot_env \<Rightarrow> multiboot_info \<Rightarrow> multiboot_mmap_entry list \<Rightarrow> u32 \<Rightarrow> u32 \<Rightarrow> bool" where
  "usable_frame b mbi es frames f \<longleftrightarrow>
     0x100000 \<le> unat f * 4096 \<and>
     (\<exists>e \<in> set es. me_type e = 1 \<and> unat (me_addr e) \<le> unat f * 4096 \<and>
        unat f * 4096 + 4096 \<le> unat (me_addr e) + unat (me_len e)) \<and>
     (\<forall>x. x div 4096 = f \<longrightarrow>
        \<not> (kernel_start b \<le> x \<and> x < kernel_end b + (frames + 7) div 8) \<and>
        (mbi_flags mbi AND 8 \<noteq> 0 \<longrightarrow>
           (\<forall>i < unat (mods_count mbi).
              \<not> (mod_start (module_at b mbi i) \<le> x \<and> x < mod_end (module_at b mbi i))) \<and>
           \<not> (mods_addr mbi \<le> x \<and> x < mods_addr mbi + mods_count mbi * 16)))"

lemma pmm_initialize_usable:
  assumes init: "pmm_initialize b mbi s = Some s'"
    and walk: "mmap_walk (mmap_at b) (mmap_addr mbi) (mmap_addr mbi + mmap_length mbi) = Some es"
    and al: "\<forall>e \<in> set es. me_type e = 1 \<longrightarrow> aligned_region e"
    and free: "f \<in> free_set s'"
  shows "usable_frame b mbi es (total_frames s') f"
proof -
  note bits = pmm_init_bits [OF init walk]
  from free bits(1,3) have nf: "\<not> f < 256" "\<not> module_frame b mbi f"
    "\<not> (kernel_start b div 4096 \<le> f \<and> f \<le> (kernel_end b + (total_frames s' + 7) div 8 - 1) div 4096)"
    and "\<exists>e \<in> set es. me_type e = 1 \<and> f \<in> region_frames e"
    by (auto simp: free_set_def)
  then obtain e where e: "e \<in> set es" "me_type e = 1" "f \<in> region_frames e" by blast
  with al have ale: "aligned_region e" by blast
  obtain p where p: "unat (me_addr e) + unat (me_len e) = 4096 * p"
    using ale unfolding aligned_region_def by (metis dvd_add dvd_def mod_eq_0_iff_dvd)
  have "unat (me_addr e) \<le> unat f * 4096 \<and> unat f * 4096 + 4096 \<le> unat (me_addr e) + unat (me_len e)"
    using ale e(3) p region_frames_word [of e f] by (auto simp: aligned_region_def)
  moreover have "0x100000 \<le> unat f * 4096"
    using nf(1) by (simp add: word_less_nat_alt)
  ultimately show ?thesis
    using e nf(2,3) page_in_range by (auto simp: usable_frame_def module_frame_def)
qed

lemma pmm_initialize_returns:
  assumes walk: "mmap_walk (mmap_at b) (mmap_addr mbi) (mmap_addr mbi + mmap_length mbi) = Some es"
    and al: "\<forall>e \<in> set es. me_type e = 1 \<longrightarrow> aligned_region e"
  shows "\<exists>s'. pmm_initialize b mbi s = Some s'"
proof -
  obtain s1 where "free_available es (bitmap_fill ((find_highest es div 4096 + 7) div 8)
      (s\<lparr>total_frames := find_highest es div 4096\<rparr>)) = Some s1"
    using al free_available_returns [of es] by (auto simp: aligned_region_def)
  then show ?thesis
    by (simp add: pmm_initialize_def walk low_pages Let_def del: upt_rec_numeral)
qed


text \<open>A boot environment as QEMU's: low memory, 3 MiB of extended memory, one module.\<close>

definition boot_entry :: "u64 \<Rightarrow> u64 \<Rightarrow> u32 \<Rightarrow> multiboot_mmap_entry" where
  "boot_entry a l t = \<lparr>me_size = 20, me_addr = a, me_len = l, me_type = t\<rparr>"

definition boot_sample :: "multiboot_mmap_entry list \<Rightarrow> boot_env" where
  "boot_sample es = \<lparr>
     mmap_at = (\<lambda>a. es ! (unat (a - 0x9000) div 24)),
     mod_at = (\<lambda>_. \<lparr>mod_start = 0x155000, mod_end = 0x169000, mod_string = 0, mod_reserved = 0\<rparr>),
     kernel_start = 0x100000, kernel_end = 0x150000\<rparr>"

definition mbi_sample :: "multiboot_info" where
  "mbi_sample = \<lparr>mbi_flags = 0x4F, mem_lower = 639, mem_upper = 3072, boot_device = 0, cmdline = 0,
     mods_count = 1, mods_addr = 0x151000, syms = [], mmap_length = 72, mmap_addr = 0x9000\<rparr>"

definition pmm_reset :: pmm_state where
  "pmm_reset = \<lparr>frame_bitmap = (\<lambda>_. 0), total_frames = 0, last_alloc = 0\<rparr>"

lemma boot_sample_walk:
  assumes "es = [x, y, z]" "me_size x = 20" "me_size y = 20" "me_size z = 20"
  shows "mmap_walk (mmap_at (boot_sample es)) (mmap_addr mbi_sample)
    (mmap_addr mbi_sample + mmap_length mbi_sample) = Some es"
  by (simp add: assms boot_sample_def mbi_sample_def mmap_walk.simps)

lemma boot_sample_returns:
  assumes "es = [x, y, z]" "me_size x = 20" "me_size y = 20" "me_size z = 20"
    and "\<exists>s'. free_available es (bitmap_fill ((find_highest es div 4096 + 7) div 8)
      (pmm_reset\<lparr>total_frames := find_highest es div 4096\<rparr>)) = Some s'"
  shows "\<exists>s'. pmm_initialize (boot_sample es) mbi_sample pmm_reset = Some s'"
  using assms(5) boot_sample_walk [OF assms(1-4)]
  by (auto simp: pmm_initialize_def Let_def low_pages simp del: upt_rec_numeral)

abbreviation qemu_map :: "multiboot_mmap_entry list" where
  "qemu_map \<equiv> [boot_entry 0 0x9F000 1, boot_entry 0x9F000 0x61000 2, boot_entry 0x100000 0x300000 1]"


abbreviation high_map :: "multiboot_mmap_entry list" where
  "high_map \<equiv> [boot_entry 0x100000 0x200000 1, boot_entry 0x300000 0x100000 2,
                boot_entry 0x100300000 0x1000 1]"

text \<open>
  The memory map is read through 32-bit casts: a region that lies above 4 GiB is freed at
  its address modulo \<open>2 ^ 32\<close>.  Here frame \<open>0x300\<close> is reserved by the map (type 2), and the
  available region at \<open>0x100300000\<close> makes it allocatable all the same.
\<close>

theorem pmm_high_memory_aliases:
  "\<exists>s'. pmm_initialize (boot_sample high_map) mbi_sample pmm_reset = Some s' \<and>
     0x300 \<in> free_set s'"
proof -
  have walk: "mmap_walk (mmap_at (boot_sample high_map)) (mmap_addr mbi_sample)
      (mmap_addr mbi_sample + mmap_length mbi_sample) = Some high_map"
    by (rule boot_sample_walk [OF refl]) (simp_all add: boot_entry_def)
  have pages: "page_addrs 0x100000 0x300000 = Some (map (\<lambda>k. 0x100000 + of_nat k * 0x1000) [0..<0x200])"
    "page_addrs 0x300000 0x301000 = Some [0x300000]"
    by (simp_all add: page_addrs_nat del: upt_rec_numeral)
  have cut: "(0x100300000 :: u32) = 0x300000" "(0x100301000 :: u32) = 0x301000" by simp_all
  have "\<exists>s'. pmm_initialize (boot_sample high_map) mbi_sample pmm_reset = Some s'"
    by (rule boot_sample_returns [OF refl])
      (simp_all add: boot_entry_def pages cut Let_def del: upt_rec_numeral)
  then obtain s' where init: "pmm_initialize (boot_sample high_map) mbi_sample pmm_reset = Some s'"
    by blast
  have hi: "find_highest high_map div 4096 = 0x301"
    by (simp add: find_highest_def entry_top_def boot_entry_def)
  note bits = pmm_init_bits [OF init walk, unfolded hi]
  have "0x300 \<in> region_frames (boot_entry 0x100300000 0x1000 1)"
    by (simp add: region_frames_def boot_entry_def pages cut del: upt_rec_numeral)
  then have "0x300 \<in> free_set s'"
    using bits(1) bits(3) [of "0x300"]
    by (simp add: free_set_def module_frame_def boot_sample_def mbi_sample_def module_at_def
        boot_entry_def)
  with init show ?thesis by blast
qed

end
