(* ===== verification/Machine.thy ===== *)
theory Machine
  imports Pmm
begin

text \<open>
  The machine under the kernel's memory code: byte-addressed physical memory, the register
  \<open>cr3\<close>, and the i386 two-level page walk.  The kernel runs in ring 0 with \<open>CR0.WP\<close> clear, so
  the walk only looks at the present bits, and with 4 KiB pages only (\<open>CR4.PSE\<close> is never set).
  Every change of a live entry in \<open>paging.c\<close> is followed by \<open>invlpg\<close> or a load of \<open>cr3\<close>,
  so the walk is read without a TLB.  A failed walk is a page fault; the kernel's handler
  (\<open>isr_handler\<close>, vector 14) ends in \<open>abort\<close>, so an access that faults is \<open>None\<close>.
\<close>

record mm_state =
  pmm :: pmm_state
  pmem :: "u32 \<Rightarrow> u8"
  cr3 :: u32

subsection \<open>Little-endian words\<close>

definition read32 :: "(u32 \<Rightarrow> u8) \<Rightarrow> u32 \<Rightarrow> u32" where
  "read32 m a = ucast (m a) OR push_bit 8 (ucast (m (a + 1))) OR
     push_bit 16 (ucast (m (a + 2))) OR push_bit 24 (ucast (m (a + 3)))"

definition write32 :: "(u32 \<Rightarrow> u8) \<Rightarrow> u32 \<Rightarrow> u32 \<Rightarrow> (u32 \<Rightarrow> u8)" where
  "write32 m a v = m(a := ucast v, a + 1 := ucast (drop_bit 8 v),
     a + 2 := ucast (drop_bit 16 v), a + 3 := ucast (drop_bit 24 v))"

lemma bytes_of_word:
  "ucast (ucast v :: u8) OR push_bit 8 (ucast (ucast (drop_bit 8 v) :: u8)) OR
   push_bit 16 (ucast (ucast (drop_bit 16 v) :: u8)) OR
   push_bit 24 (ucast (ucast (drop_bit 24 v) :: u8)) = (v::u32)" (is "?l = v")
proof (rule bit_word_eqI)
  fix n assume "n < LENGTH(32)"
  then have "n < 8 \<or> 8 \<le> n \<and> n < 16 \<or> 16 \<le> n \<and> n < 24 \<or> 24 \<le> n \<and> n < 32"
    by (simp, linarith)
  then show "bit ?l n = bit v n"
    by (auto simp: bit_simps)
qed

lemma read32_write32_same: "read32 (write32 m a v) a = v"
  by (simp add: read32_def write32_def bytes_of_word)

definition aligned4 :: "u32 \<Rightarrow> bool" where
  "aligned4 a \<longleftrightarrow> unat a mod 4 = 0"

lemma unat_aligned4_add: "aligned4 a \<Longrightarrow> k < 4 \<Longrightarrow> unat (a + of_nat k) = unat a + k"
proof -
  assume a: "aligned4 a" and k: "k < 4"
  from a obtain q where q: "unat a = 4 * q" by (auto simp: aligned4_def mod_eq_0_iff_dvd dvd_def)
  with unat_less_2p32 [of a] k have "unat a + k < 2 ^ 32" by simp
  with k show ?thesis by (simp add: unat_word_ariths unat_of_nat)
qed

lemma aligned4_disjoint:
  assumes "aligned4 a" "aligned4 b" "a \<noteq> b" "i < 4" "j < 4"
  shows "a + of_nat i \<noteq> b + of_nat j"
proof
  assume "a + of_nat i = b + of_nat j"
  then have eq: "unat a + i = unat b + j"
    using unat_aligned4_add [OF assms(1,4)] unat_aligned4_add [OF assms(2,5)] by simp
  obtain p where p: "unat a = 4 * p" using assms(1) by (auto simp: aligned4_def mod_eq_0_iff_dvd dvd_def)
  obtain q where q: "unat b = 4 * q" using assms(2) by (auto simp: aligned4_def mod_eq_0_iff_dvd dvd_def)
  from eq p q assms(4,5) have "p = q" by linarith
  with p q have "unat a = unat b" by simp
  with assms(3) show False by (simp add: word_unat_eq_iff)
qed

text \<open>A write touches only its own four bytes.\<close>

lemma write32_other:
  assumes "\<forall>k < 4. x \<noteq> a + of_nat k"
  shows "write32 m a v x = m x"
proof -
  have "x \<noteq> a" "x \<noteq> a + 1" "x \<noteq> a + 2" "x \<noteq> a + 3"
    using assms[rule_format, of 0] assms[rule_format, of 1] assms[rule_format, of 2]
      assms[rule_format, of 3] by simp_all
  then show ?thesis by (simp add: write32_def)
qed

lemma read32_cong:
  assumes "\<forall>k < 4. m (a + of_nat k) = m' (a + of_nat k)"
  shows "read32 m a = read32 m' a"
  using assms[rule_format, of 0] assms[rule_format, of 1] assms[rule_format, of 2]
      assms[rule_format, of 3] by (simp add: read32_def)

lemma read32_write32_other:
  assumes "aligned4 a" "aligned4 b" "a \<noteq> b"
  shows "read32 (write32 m a v) b = read32 m b"
  using aligned4_disjoint [OF assms(2,1)] assms(3)
  by (intro read32_cong allI impI write32_other) auto

text \<open>The word interface page tables are read and written through.\<close>

locale word_memory =
  fixes rd :: "'m \<Rightarrow> 'a \<Rightarrow> 'v" and wr :: "'m \<Rightarrow> 'a \<Rightarrow> 'v \<Rightarrow> 'm" and ok :: "'a \<Rightarrow> bool"
  assumes rd_wr_same: "rd (wr m a v) a = v"
    and rd_wr_other: "ok a \<Longrightarrow> ok b \<Longrightarrow> a \<noteq> b \<Longrightarrow> rd (wr m a v) b = rd m b"
begin

lemma rd_wr: "ok a \<Longrightarrow> ok b \<Longrightarrow> rd (wr m a v) b = (if b = a then v else rd m b)"
  using rd_wr_same rd_wr_other by auto

lemma rd_writes_other:
  "ok b \<Longrightarrow> \<forall>(a, v) \<in> set ws. ok a \<and> a \<noteq> b \<Longrightarrow> rd (fold (\<lambda>(a, v) m. wr m a v) ws m) b = rd m b"
  by (induction ws arbitrary: m) (auto simp: rd_wr)

lemma rd_writes:
  "distinct (map fst ws) \<Longrightarrow> \<forall>(a, v) \<in> set ws. ok a \<Longrightarrow> (b, v) \<in> set ws \<Longrightarrow>
     rd (fold (\<lambda>(a, v) m. wr m a v) ws m) b = v"
proof (induction ws arbitrary: m)
  case (Cons w ws)
  obtain a u where w: "w = (a, u)" by (cases w)
  show ?case
  proof (cases "b \<in> fst ` set ws")
    case True
    with Cons w show ?thesis by (auto simp: image_iff)
  next
    case False
    with Cons.prems w have bu: "b = a" "v = u" by (auto simp: image_iff)
    have "rd (fold (\<lambda>(a, v) m. wr m a v) ws (wr m a u)) a = rd (wr m a u) a"
      using Cons.prems w False bu by (intro rd_writes_other) (auto simp: image_iff)
    with bu w show ?thesis by (simp add: rd_wr_same)
  qed
qed simp

end

interpretation wm: word_memory read32 write32 aligned4
  by unfold_locales (fact read32_write32_same, fact read32_write32_other)

subsection \<open>Pages\<close>

lemma page_down_offset:
  assumes "page_down P = P" "unat x < 4096"
  shows "page_down (P + x) = P" "unat (P + x) = unat P + unat x"
proof -
  have al: "unat P mod 4096 = 0"
    using unat_page_down [of P] assms(1) by (metis mod_mult_self2_is_0)
  have le: "unat P \<le> 0xFFFFF000" by (rule aligned_bound [OF al])
  show u: "unat (P + x) = unat P + unat x"
    using le assms(2) by (simp add: unat_word_ariths)
  obtain p where "unat P = 4096 * p" using al by (auto simp: mod_eq_0_iff_dvd dvd_def)
  then show "page_down (P + x) = P"
    using assms(2) by (intro word_unat_eq_iff [THEN iffD2]) (simp add: unat_page_down u)
qed

lemma page_or_offset:
  assumes "page_down P = P"
  shows "P OR (x AND 0xFFF) = P + (x AND 0xFFF)"
proof -
  have "P = P AND NOT 0xFFF" using assms by (simp add: page_down_def)
  then have "P AND (x AND 0xFFF) = (P AND NOT 0xFFF) AND (x AND 0xFFF)" by simp
  also have "\<dots> = 0" by (rule bit_word_eqI) (auto simp: mask12 bit_simps)
  finally show ?thesis by (simp add: disjunctive_add_eq_or)
qed

lemma unat_offset: "unat ((x::u32) AND 0xFFF) < 4096"
  by (simp add: unat_and_0xFFF)

lemma aligned4_entry:
  assumes "page_down P = P" "i < 1024"
  shows "aligned4 (P + 4 * i)" "page_down (P + 4 * i) = P" "unat (P + 4 * i) = unat P + 4 * unat i"
proof -
  have i: "unat i < 1024" "unat (4 * i) = 4 * unat i"
    using assms(2) by (simp_all add: word_less_nat_alt unat_word_ariths)
  then have lt: "unat (4 * i) < 4096" by simp
  show "page_down (P + 4 * i) = P" by (rule page_down_offset [OF assms(1) lt])
  show u: "unat (P + 4 * i) = unat P + 4 * unat i"
    using page_down_offset(2) [OF assms(1) lt] i by simp
  obtain p where "unat P = 4096 * p"
    using unat_page_down [of P] assms(1) by (metis mult.commute)
  then have "unat (P + 4 * i) = 4 * (1024 * p + unat i)" by (simp add: u)
  then show "aligned4 (P + 4 * i)" by (simp only: aligned4_def mod_mult_self1_is_0)
qed

lemma entry_inj:
  assumes "page_down P = P" "page_down Q = Q" "i < 1024" "j < 1024"
  shows "P + 4 * i = Q + 4 * j \<longleftrightarrow> P = Q \<and> i = j"
proof
  assume eq: "P + 4 * i = Q + 4 * j"
  then have "P = Q" using aligned4_entry(2) [OF assms(1,3)] aligned4_entry(2) [OF assms(2,4)] by simp
  moreover have "unat i = unat j"
    using eq aligned4_entry(3) [OF assms(1,3)] aligned4_entry(3) [OF assms(2,4)] \<open>P = Q\<close> by simp
  ultimately show "P = Q \<and> i = j" by (simp add: word_unat_eq_iff)
qed simp

lemma entry_offset_inj [simp]: "i < 1024 \<Longrightarrow> j < 1024 \<Longrightarrow> 4 * i = 4 * (j::u32) \<longleftrightarrow> i = j"
  using entry_inj [of 0 0 i j] by (simp add: page_down_def)

subsection \<open>The page walk\<close>

definition present :: "u32 \<Rightarrow> bool" where
  "present e \<longleftrightarrow> e AND 1 \<noteq> 0"

definition dir_index :: "u32 \<Rightarrow> u32" where
  "dir_index va = drop_bit 22 va"

definition table_index :: "u32 \<Rightarrow> u32" where
  "table_index va = drop_bit 12 va AND 0x3FF"

definition pdir :: "mm_state \<Rightarrow> u32" where
  "pdir s = page_down (cr3 s)"

definition pde :: "mm_state \<Rightarrow> u32 \<Rightarrow> u32" where
  "pde s d = read32 (pmem s) (pdir s + 4 * d)"

definition pte :: "mm_state \<Rightarrow> u32 \<Rightarrow> u32 \<Rightarrow> u32" where
  "pte s d t = read32 (pmem s) (page_down (pde s d) + 4 * t)"

definition xlate :: "mm_state \<Rightarrow> u32 \<Rightarrow> u32 option" where
  "xlate s va =
     (let d = dir_index va; t = table_index va in
      if \<not> present (pde s d) then None
      else if \<not> present (pte s d t) then None
      else Some (page_down (pte s d t) OR (va AND 0xFFF)))"

definition vread8 :: "mm_state \<Rightarrow> u32 \<Rightarrow> u8 option" where
  "vread8 s va = map_option (pmem s) (xlate s va)"

definition vwrite8 :: "mm_state \<Rightarrow> u32 \<Rightarrow> u8 \<Rightarrow> mm_state option" where
  "vwrite8 s va v = map_option (\<lambda>pa. s\<lparr>pmem := (pmem s)(pa := v)\<rparr>) (xlate s va)"

text \<open>A 32-bit access inside one page is one walk; across a page boundary, byte by byte.\<close>

definition vread32 :: "mm_state \<Rightarrow> u32 \<Rightarrow> u32 option" where
  "vread32 s va =
     (if va AND 0xFFF \<le> 0xFFC then map_option (read32 (pmem s)) (xlate s va)
      else do {
        b0 \<leftarrow> vread8 s va; b1 \<leftarrow> vread8 s (va + 1); b2 \<leftarrow> vread8 s (va + 2);
        b3 \<leftarrow> vread8 s (va + 3);
        Some (ucast b0 OR push_bit 8 (ucast b1) OR push_bit 16 (ucast b2) OR push_bit 24 (ucast b3))
      })"

definition vwrite32 :: "mm_state \<Rightarrow> u32 \<Rightarrow> u32 \<Rightarrow> mm_state option" where
  "vwrite32 s va v =
     (if va AND 0xFFF \<le> 0xFFC
      then map_option (\<lambda>pa. s\<lparr>pmem := write32 (pmem s) pa v\<rparr>) (xlate s va)
      else do {
        s \<leftarrow> vwrite8 s va (ucast v); s \<leftarrow> vwrite8 s (va + 1) (ucast (drop_bit 8 v));
        s \<leftarrow> vwrite8 s (va + 2) (ucast (drop_bit 16 v));
        vwrite8 s (va + 3) (ucast (drop_bit 24 v))
      })"

subsection \<open>Addresses and their indices\<close>

lemma unat_dir_index: "unat (dir_index va) = unat va div 2 ^ 22"
  by (simp add: dir_index_def unat_drop_bit_eq) (simp add: drop_bit_eq_div)

lemma unat_table_index: "unat (table_index va) = unat va div 4096 mod 1024"
  by (simp add: table_index_def and_0x3FF unsigned_take_bit_eq unat_drop_bit_eq)
    (simp add: take_bit_eq_mod drop_bit_eq_div)

lemma dir_index_less: "dir_index va < 1024"
  using unat_less_2p32 [of va] by (simp add: word_less_nat_alt unat_dir_index)

lemma table_index_less: "table_index va < 1024"
  by (simp add: word_less_nat_alt unat_table_index)

text \<open>An address is its two indices and its offset; a page is its two indices.\<close>

lemma page_eq_iff:
  "page_down a = page_down b \<longleftrightarrow> dir_index a = dir_index b \<and> table_index a = table_index b"
proof -
  have div: "n div 4194304 = n div 4096 div 1024" for n :: nat by (simp flip: div_mult2_eq)
  have "page_down a = page_down b \<longleftrightarrow> unat a div 4096 = unat b div 4096"
    by (simp add: word_unat_eq_iff unat_page_down)
  also have "\<dots> \<longleftrightarrow> unat a div 4096 div 1024 = unat b div 4096 div 1024 \<and>
      unat a div 4096 mod 1024 = unat b div 4096 mod 1024"
    by (metis div_mult_mod_eq)
  finally show ?thesis
    by (simp only: word_unat_eq_iff [of "dir_index a"] word_unat_eq_iff [of "table_index a"]
        unat_dir_index unat_table_index div power_numeral Num.pow.simps Num.sqr.simps)
      (simp add: div)
qed

subsection \<open>Entry bits\<close>

lemma page_down_neg: "(a::u32) AND - 4096 = page_down a" "(a::u32) AND NOT 4095 = page_down a"
  by (simp_all add: page_down_def)

lemma present_bit: "present e \<longleftrightarrow> bit e 0"
  by (simp add: present_def bit_iff_and_push_bit_not_eq_0 [of e 0])

lemma present_or [simp]: "present (a OR b) \<longleftrightarrow> present a \<or> present b"
  by (simp add: present_bit bit_or_iff)

lemma present_numeral [simp]: "present 1" "present 3" "\<not> present 0" "\<not> present 2" "\<not> present 4"
  by (simp_all add: present_def)

lemma page_down_or [simp]: "page_down (a OR b) = page_down a OR page_down b"
  by (simp add: page_down_def bit.conj_disj_distrib2)

lemma page_down_flags: "f AND NOT 0xFFF = 0 \<Longrightarrow> page_down f = 0"
  by (simp add: page_down_def)

lemma page_down_and_small: "page_down (a AND 4) = 0" "page_down (a AND 0xFFF) = 0"
  by (simp_all add: page_down_def and.assoc)

lemma page_down_numeral [simp]: "page_down 0 = 0" "page_down 1 = 0" "page_down 2 = 0" "page_down 3 = 0"
    "page_down 4 = 0" "page_down 6 = 0"
  by (simp_all add: page_down_def)

subsection \<open>What a walk depends on\<close>

lemma entry_byte_page:
  assumes "page_down P = P" "i < 1024" "k < 4"
  shows "page_down (P + 4 * i + of_nat k) = P"
proof -
  have i: "unat i < 1024" "unat (4 * i) = 4 * unat i"
    using assms(2) by (simp_all add: word_less_nat_alt unat_word_ariths)
  with assms(3) have "unat (4 * i + of_nat k) = 4 * unat i + k"
    by (simp add: unat_word_ariths unat_of_nat)
  with i assms(3) have "unat (4 * i + of_nat k) < 4096" by simp
  from page_down_offset(1) [OF assms(1) this] show ?thesis by (simp add: add.assoc)
qed

lemma write32_page:
  assumes "page_down P = P" "i < 1024" "page_down x \<noteq> P"
  shows "write32 m (P + 4 * i) v x = m x"
  using entry_byte_page [OF assms(1,2)] assms(3) by (intro write32_other) auto

lemma read32_page_cong:
  assumes "page_down P = P" "i < 1024" "\<And>x. page_down x = P \<Longrightarrow> m x = m' x"
  shows "read32 m (P + 4 * i) = read32 m' (P + 4 * i)"
  using assms entry_byte_page by (intro read32_cong) auto

lemma pdir_page [simp]: "page_down (pdir s) = pdir s"
  by (simp add: pdir_def)

lemma pde_cong:
  assumes "cr3 s' = cr3 s" "\<And>x. page_down x = pdir s \<Longrightarrow> pmem s' x = pmem s x" "d < 1024"
  shows "pde s' d = pde s d"
proof -
  have "pdir s' = pdir s" by (simp add: pdir_def assms(1))
  then show ?thesis using assms(2,3) by (auto simp: pde_def intro!: read32_page_cong)
qed

lemma pte_cong:
  assumes "pde s' d = pde s d" "\<And>x. page_down x = page_down (pde s d) \<Longrightarrow> pmem s' x = pmem s x" "t < 1024"
  shows "pte s' d t = pte s d t"
  unfolding pte_def assms(1) using assms(2,3) by (auto intro!: read32_page_cong)

lemma xlate_entries:
  assumes "pde s' (dir_index va) = pde s (dir_index va)"
    "pte s' (dir_index va) (table_index va) = pte s (dir_index va) (table_index va)"
  shows "xlate s' va = xlate s va"
  by (simp add: xlate_def Let_def assms)

lemma xlate_page_offset:
  assumes "xlate s va = Some pa"
  shows "pa = page_down pa + (va AND 0xFFF)"
    "page_down pa = page_down (pte s (dir_index va) (table_index va))"
proof -
  from assms have pa: "pa = page_down (pte s (dir_index va) (table_index va)) + (va AND 0xFFF)"
    by (auto simp: xlate_def Let_def page_or_offset split: if_splits)
  then show p: "page_down pa = page_down (pte s (dir_index va) (table_index va))"
    by (simp add: page_down_offset(1) unat_offset)
  show "pa = page_down pa + (va AND 0xFFF)" by (simp only: p) (rule pa)
qed

text \<open>Two addresses of one page translate to one frame.\<close>

lemma xlate_same_page:
  assumes "xlate s va = Some pa" "page_down va = page_down vb"
  shows "xlate s vb = Some (page_down pa + (vb AND 0xFFF))"
  using assms xlate_page_offset(2) [OF assms(1)]
  by (auto simp: xlate_def Let_def page_eq_iff page_or_offset split: if_splits)

end
