(* ===== verification/Paging.thy ===== *)
theory Paging
  imports Machine
begin

text \<open>
  Virtual memory, \<open>kernel/arch/i386/paging.c\<close> and \<open>kernel/include/kernel/paging.h\<close>.  The code
  never touches a page table by its physical address: it goes through the recursive entry
  1023 of the page directory, so every read and write below is an access at a virtual address
  that the page walk of theory \<open>Machine\<close> translates.
\<close>

abbreviation (input) PAGE_PRESENT :: u32 where "PAGE_PRESENT \<equiv> 1"
abbreviation (input) PAGE_WRITE :: u32 where "PAGE_WRITE \<equiv> 2"
abbreviation (input) PAGE_USER :: u32 where "PAGE_USER \<equiv> 4"
abbreviation (input) TMP_VIRT :: u32 where "TMP_VIRT \<equiv> 0xFFBFF000"
abbreviation (input) TMP2_VIRT :: u32 where "TMP2_VIRT \<equiv> 0xFFBFE000"
abbreviation (input) KERNEL_DIR_START :: u32 where "KERNEL_DIR_START \<equiv> 768"
abbreviation (input) UNMAPPED :: u32 where "UNMAPPED \<equiv> 0xFFFFFFFF"

definition PD_VIRT :: "u32 \<Rightarrow> u32" where
  "PD_VIRT d = 0xFFFFF000 + 4 * d"

definition PT_VIRT :: "u32 \<Rightarrow> u32" where
  "PT_VIRT i = 0xFFC00000 + push_bit 12 i"

subsection \<open>Byte loops through the MMU\<close>

text \<open>\<open>memset\<close> and \<open>memcpy\<close> on virtual addresses: the byte loops of \<open>libc/string\<close>.\<close>

fun vmemset :: "mm_state \<Rightarrow> u32 \<Rightarrow> u8 \<Rightarrow> nat \<Rightarrow> mm_state option" where
  "vmemset s buf v 0 = Some s"
| "vmemset s buf v (Suc n) = do {
     s \<leftarrow> vwrite8 s buf v;
     vmemset s (buf + 1) v n
   }"

fun vmemcpy :: "mm_state \<Rightarrow> u32 \<Rightarrow> u32 \<Rightarrow> nat \<Rightarrow> mm_state option" where
  "vmemcpy s dst src 0 = Some s"
| "vmemcpy s dst src (Suc n) = do {
     b \<leftarrow> vread8 s src;
     s \<leftarrow> vwrite8 s dst b;
     vmemcpy s (dst + 1) (src + 1) n
   }"

subsection \<open>Operations\<close>

text \<open>
  \<open>page_directory\<close> and \<open>first_table\<close> are static arrays; their addresses are arguments.  Paging
  is off until \<open>paging_load\<close>, so these writes are physical.
\<close>

definition paging_initialize :: "u32 \<Rightarrow> u32 \<Rightarrow> mm_state \<Rightarrow> mm_state" where
  "paging_initialize page_directory first_table s =
     (let idx = map of_nat [0 ..< 1024];
          m = fold (\<lambda>(a, v) m. write32 m a v)
                (map (\<lambda>i. (page_directory + 4 * i, PAGE_WRITE)) idx) (pmem s);
          m = fold (\<lambda>(a, v) m. write32 m a v)
                (map (\<lambda>i. (first_table + 4 * i, (i * 0x1000) OR PAGE_PRESENT OR PAGE_WRITE)) idx) m;
          m = write32 m (page_directory + 4 * 0) (first_table OR PAGE_PRESENT OR PAGE_WRITE);
          m = write32 m (page_directory + 4 * 1023) (page_directory OR PAGE_PRESENT OR PAGE_WRITE)
      in s\<lparr>pmem := m, cr3 := page_directory\<rparr>)"

definition mm_alloc :: "mm_state \<Rightarrow> u32 \<times> mm_state" where
  "mm_alloc s = (let (a, p) = pmm_alloc_frame (pmm s) in (a, s\<lparr>pmm := p\<rparr>))"

definition mm_free :: "u32 \<Rightarrow> mm_state \<Rightarrow> mm_state" where
  "mm_free a s = s\<lparr>pmm := pmm_free_frame a (pmm s)\<rparr>"

text \<open>The first half of \<open>paging_map\<close>: make sure directory entry \<open>d\<close> has a page table.\<close>

definition ensure_table :: "u32 \<Rightarrow> mm_state \<Rightarrow> mm_state option" where
  "ensure_table d s = do {
     e \<leftarrow> vread32 s (PD_VIRT d);
     if e AND PAGE_PRESENT = 0 then do {
       let (frame, s) = mm_alloc s;
       s \<leftarrow> vwrite32 s (PD_VIRT d) (frame OR PAGE_PRESENT OR PAGE_WRITE);
       vmemset s (PT_VIRT d) 0 4096
     } else Some s
   }"

definition paging_map :: "u32 \<Rightarrow> u32 \<Rightarrow> u32 \<Rightarrow> mm_state \<Rightarrow> mm_state option" where
  "paging_map virt phys flags s = do {
     let d = drop_bit 22 virt;
     let t = drop_bit 12 virt AND 0x3FF;
     s \<leftarrow> ensure_table d s;
     e \<leftarrow> vread32 s (PD_VIRT d);
     s \<leftarrow> vwrite32 s (PD_VIRT d) (e OR (flags AND PAGE_USER));
     vwrite32 s (PT_VIRT d + 4 * t) ((phys AND NOT 0xFFF) OR flags OR PAGE_PRESENT)
   }"

definition paging_unmap :: "u32 \<Rightarrow> mm_state \<Rightarrow> mm_state option" where
  "paging_unmap virt s = do {
     let d = drop_bit 22 virt;
     e \<leftarrow> vread32 s (PD_VIRT d);
     if e AND PAGE_PRESENT = 0 then Some s
     else vwrite32 s (PT_VIRT d + 4 * (drop_bit 12 virt AND 0x3FF)) 0
   }"

definition paging_virt_to_phys :: "u32 \<Rightarrow> mm_state \<Rightarrow> u32 option" where
  "paging_virt_to_phys virt s = do {
     let d = drop_bit 22 virt;
     let t = drop_bit 12 virt AND 0x3FF;
     e \<leftarrow> vread32 s (PD_VIRT d);
     if e AND PAGE_PRESENT = 0 then Some UNMAPPED
     else do {
       p \<leftarrow> vread32 s (PT_VIRT d + 4 * t);
       if p AND PAGE_PRESENT = 0 then Some UNMAPPED
       else Some ((p AND NOT 0xFFF) OR (virt AND 0xFFF))
     }
   }"

definition paging_is_user :: "u32 \<Rightarrow> mm_state \<Rightarrow> bool option" where
  "paging_is_user virt s = do {
     let d = drop_bit 22 virt;
     let t = drop_bit 12 virt AND 0x3FF;
     let need = PAGE_PRESENT OR PAGE_USER;
     e \<leftarrow> vread32 s (PD_VIRT d);
     if e AND need \<noteq> need then Some False
     else do {
       p \<leftarrow> vread32 s (PT_VIRT d + 4 * t);
       Some (p AND need = need)
     }
   }"

definition paging_tmp_map :: "u32 \<Rightarrow> mm_state \<Rightarrow> mm_state option" where
  "paging_tmp_map phys s = paging_map TMP_VIRT phys PAGE_WRITE s"

definition paging_tmp2_map :: "u32 \<Rightarrow> mm_state \<Rightarrow> mm_state option" where
  "paging_tmp2_map phys s = paging_map TMP2_VIRT phys PAGE_WRITE s"

text \<open>One assignment \<open>nd[i] = PD_VIRT[i]\<close> of \<open>paging_new_directory\<close>.\<close>

definition share_entry :: "u32 \<Rightarrow> mm_state \<Rightarrow> mm_state option" where
  "share_entry i s = do {
     e \<leftarrow> vread32 s (PD_VIRT i);
     vwrite32 s (TMP_VIRT + 4 * i) e
   }"

fun for_each :: "('a \<Rightarrow> 's \<Rightarrow> 's option) \<Rightarrow> 'a list \<Rightarrow> 's \<Rightarrow> 's option" where
  "for_each f [] s = Some s"
| "for_each f (x # xs) s = do { s \<leftarrow> f x s; for_each f xs s }"

definition paging_new_directory :: "mm_state \<Rightarrow> (u32 \<times> mm_state) option" where
  "paging_new_directory s = do {
     let (frame, s) = mm_alloc s;
     s \<leftarrow> paging_tmp_map frame s;
     s \<leftarrow> vmemset s TMP_VIRT 0 4096;
     s \<leftarrow> share_entry 0 s;
     s \<leftarrow> for_each share_entry (map of_nat [768 ..< 1023]) s;
     s \<leftarrow> vwrite32 s (TMP_VIRT + 4 * 1023) (frame OR PAGE_PRESENT OR PAGE_WRITE);
     Some (frame, s)
   }"

definition paging_current_directory :: "mm_state \<Rightarrow> u32" where
  "paging_current_directory s = cr3 s AND NOT 0xFFF"

definition paging_switch_directory :: "u32 \<Rightarrow> mm_state \<Rightarrow> mm_state" where
  "paging_switch_directory phys s = s\<lparr>cr3 := phys\<rparr>"

text \<open>The inner loop of \<open>paging_free_directory\<close>: the pages of one table, seen at \<open>TMP2_VIRT\<close>.\<close>

definition free_page_at :: "u32 \<Rightarrow> mm_state \<Rightarrow> mm_state option" where
  "free_page_at t s = do {
     e \<leftarrow> vread32 s (TMP2_VIRT + 4 * t);
     if e AND PAGE_PRESENT \<noteq> 0 then do {
       e \<leftarrow> vread32 s (TMP2_VIRT + 4 * t);
       Some (mm_free (e AND NOT 0xFFF) s)
     } else Some s
   }"

definition free_table_at :: "u32 \<Rightarrow> mm_state \<Rightarrow> mm_state option" where
  "free_table_at d s = do {
     e \<leftarrow> vread32 s (TMP_VIRT + 4 * d);
     if e AND PAGE_PRESENT = 0 then Some s
     else do {
       e \<leftarrow> vread32 s (TMP_VIRT + 4 * d);
       let table_frame = e AND NOT 0xFFF;
       s \<leftarrow> paging_tmp2_map table_frame s;
       s \<leftarrow> for_each free_page_at (map of_nat [0 ..< 1024]) s;
       Some (mm_free table_frame s)
     }
   }"

definition paging_free_directory :: "u32 \<Rightarrow> mm_state \<Rightarrow> mm_state option" where
  "paging_free_directory phys s = do {
     s \<leftarrow> paging_tmp_map phys s;
     s \<leftarrow> for_each free_table_at (map of_nat [1 ..< 768]) s;
     let s = mm_free phys s;
     s \<leftarrow> paging_unmap TMP_VIRT s;
     paging_unmap TMP2_VIRT s
   }"

subsection \<open>Well-formed address spaces\<close>

text \<open>
  The current directory maps itself at entry 1023, the page tables of the other entries are
  pairwise different frames, different from the directory, and none of these frames is in the
  allocator's pool.
\<close>

definition recursive :: "mm_state \<Rightarrow> bool" where
  "recursive s \<longleftrightarrow> present (pde s 1023) \<and> page_down (pde s 1023) = pdir s"

definition table_of :: "mm_state \<Rightarrow> u32 \<Rightarrow> u32" where
  "table_of s d = page_down (pde s d)"

definition tables_ok :: "mm_state \<Rightarrow> bool" where
  "tables_ok s \<longleftrightarrow>
     (\<forall>d < 1023. present (pde s d) \<longrightarrow> table_of s d \<noteq> pdir s \<and> table_of s d \<notin> avail (pmm s)) \<and>
     (\<forall>d < 1023. \<forall>d' < 1023. present (pde s d) \<longrightarrow> present (pde s d') \<longrightarrow>
        table_of s d = table_of s d' \<longrightarrow> d = d')"

definition as_wf :: "mm_state \<Rightarrow> bool" where
  "as_wf s \<longleftrightarrow> pmm_inv (pmm s) \<and> recursive s \<and> pdir s \<notin> avail (pmm s) \<and> tables_ok s"

lemma table_of_page [simp]: "page_down (table_of s d) = table_of s d"
  by (simp add: table_of_def)

lemma pte_table: "pte s d t = read32 (pmem s) (table_of s d + 4 * t)"
  by (simp add: pte_def table_of_def)

subsection \<open>The recursive window\<close>

lemma push_bit_12: "push_bit 12 (d::u32) = d * 4096"
  by (simp add: push_bit_eq_mult)

lemma entry_offset:
  assumes "i < 1024"
  shows "unat (4 * i :: u32) = 4 * unat i" "4 * i AND 0xFFF = (4 * i :: u32)"
proof -
  show u: "unat (4 * i :: u32) = 4 * unat i"
    using assms by (simp add: word_less_nat_alt unat_word_ariths)
  show "4 * i AND 0xFFF = (4 * i :: u32)"
    using assms by (intro word_unat_eq_iff [THEN iffD2]) (simp add: unat_and_0xFFF u word_less_nat_alt)
qed

lemma unat_PD_VIRT: "d < 1024 \<Longrightarrow> unat (PD_VIRT d) = 0xFFFFF000 + 4 * unat d"
  by (simp add: PD_VIRT_def unat_word_ariths entry_offset word_less_nat_alt)

lemma unat_PT_VIRT:
  "d < 1024 \<Longrightarrow> t < 1024 \<Longrightarrow> unat (PT_VIRT d + 4 * t) = 0xFFC00000 + 4096 * unat d + 4 * unat t"
  by (simp add: PT_VIRT_def push_bit_12 unat_word_ariths entry_offset word_less_nat_alt)

lemma PD_VIRT_indices:
  assumes "d < 1024"
  shows "dir_index (PD_VIRT d) = 1023" "table_index (PD_VIRT d) = 1023"
    "PD_VIRT d AND 0xFFF = 4 * d"
proof -
  have d: "unat d < 1024" using assms by (simp add: word_less_nat_alt)
  have page: "(4294963200 + 4 * unat d) div 4096 = 1048575"
    using d by (intro div_nat_eqI) auto
  have dir: "(4294963200 + 4 * unat d) div 4194304 = 1023"
    using d by (intro div_nat_eqI) auto
  have off: "(4294963200 + 4 * unat d) mod 4096 = 4 * unat d"
    using d by (simp add: mod_add_eq [of 4294963200 4096 "4 * unat d", symmetric])
  show "dir_index (PD_VIRT d) = 1023" "table_index (PD_VIRT d) = 1023" "PD_VIRT d AND 0xFFF = 4 * d"
    using assms page dir off
    by (simp_all add: word_unat_eq_iff unat_dir_index unat_table_index unat_and_0xFFF
        unat_PD_VIRT entry_offset)
qed

lemma PT_VIRT_indices:
  assumes "d < 1024" "t < 1024"
  shows "dir_index (PT_VIRT d + 4 * t) = 1023" "table_index (PT_VIRT d + 4 * t) = d"
    "(PT_VIRT d + 4 * t) AND 0xFFF = 4 * t"
proof -
  have d: "unat d < 1024" "unat t < 1024" using assms by (simp_all add: word_less_nat_alt)
  let ?n = "4290772992 + 4096 * unat d + 4 * unat t"
  have page: "?n div 4096 = 1047552 + unat d"
    using d by (intro div_nat_eqI) auto
  have dir: "?n div 4194304 = 1023"
    using d by (intro div_nat_eqI) auto
  have off: "?n mod 4096 = 4 * unat t"
  proof -
    have "?n = 4 * unat t + 4096 * (1047552 + unat d)" by simp
    then show ?thesis using d by (simp only: mod_mult_self2) simp
  qed
  have tab: "(1047552 + unat d) mod 1024 = unat d"
  proof -
    have "1047552 + unat d = unat d + 1024 * 1023" by simp
    then show ?thesis using d by (simp only: mod_mult_self2) simp
  qed
  show "dir_index (PT_VIRT d + 4 * t) = 1023" "table_index (PT_VIRT d + 4 * t) = d"
    "(PT_VIRT d + 4 * t) AND 0xFFF = 4 * t"
    using assms page dir off tab
    by (simp_all add: word_unat_eq_iff unat_dir_index unat_table_index unat_and_0xFFF
        unat_PT_VIRT entry_offset)
qed

text \<open>Through entry 1023 the walk reaches the directory itself and every page table.\<close>

lemma pte_recursive: "recursive s \<Longrightarrow> pte s 1023 d = pde s d"
  by (simp add: pte_def pde_def recursive_def)

lemma xlate_PD_VIRT:
  assumes "recursive s" "d < 1024"
  shows "xlate s (PD_VIRT d) = Some (pdir s + 4 * d)"
  using assms page_or_offset [of "pdir s" "4 * d"]
  by (simp add: xlate_def PD_VIRT_indices pte_recursive recursive_def entry_offset)

lemma xlate_PT_VIRT:
  assumes "recursive s" "d < 1024" "t < 1024" "present (pde s d)"
  shows "xlate s (PT_VIRT d + 4 * t) = Some (table_of s d + 4 * t)"
  using assms page_or_offset [of "page_down (pde s d)" "4 * t"]
  by (simp add: xlate_def PT_VIRT_indices pte_recursive recursive_def table_of_def entry_offset)

lemma offset_le_0xFFC: "i < 1024 \<Longrightarrow> (4 * i :: u32) \<le> 0xFFC"
  by (simp add: word_le_nat_alt entry_offset word_less_nat_alt)

lemma vread32_PD:
  assumes "recursive s" "d < 1024"
  shows "vread32 s (PD_VIRT d) = Some (pde s d)"
  using assms by (simp add: vread32_def xlate_PD_VIRT PD_VIRT_indices pde_def offset_le_0xFFC)

lemma vwrite32_PD:
  assumes "recursive s" "d < 1024"
  shows "vwrite32 s (PD_VIRT d) v = Some (s\<lparr>pmem := write32 (pmem s) (pdir s + 4 * d) v\<rparr>)"
  using assms by (simp add: vwrite32_def xlate_PD_VIRT PD_VIRT_indices offset_le_0xFFC)

lemma vread32_PT:
  assumes "recursive s" "d < 1024" "t < 1024" "present (pde s d)"
  shows "vread32 s (PT_VIRT d + 4 * t) = Some (pte s d t)"
  using assms by (simp add: vread32_def xlate_PT_VIRT PT_VIRT_indices pte_table offset_le_0xFFC)

lemma vwrite32_PT:
  assumes "recursive s" "d < 1024" "t < 1024" "present (pde s d)"
  shows "vwrite32 s (PT_VIRT d + 4 * t) v =
    Some (s\<lparr>pmem := write32 (pmem s) (table_of s d + 4 * t) v\<rparr>)"
  using assms by (simp add: vwrite32_def xlate_PT_VIRT PT_VIRT_indices offset_le_0xFFC)

subsection \<open>Filling a page through the MMU\<close>

lemma page_offset_nat:
  assumes "page_down va = va" "k < 4096"
  shows "page_down (va + of_nat k) = va" "(va + of_nat k) AND 0xFFF = of_nat k"
    "unat (va + of_nat k) = unat va + k"
proof -
  have k: "unat (of_nat k :: u32) = k" using assms(2) by (simp add: unat_of_nat)
  then have lt: "unat (of_nat k :: u32) < 4096" using assms(2) by simp
  show "page_down (va + of_nat k) = va" by (rule page_down_offset(1) [OF assms(1) lt])
  show u: "unat (va + of_nat k) = unat va + k" using page_down_offset(2) [OF assms(1) lt] k by simp
  have "unat va mod 4096 = 0" using unat_page_down [of va] assms(1) by (metis mod_mult_self2_is_0)
  then have "(unat va + k) mod 4096 = k" using assms(2) by (simp flip: mod_add_left_eq)
  then show "(va + of_nat k) AND 0xFFF = of_nat k"
    by (simp add: word_unat_eq_iff unat_and_0xFFF u k)
qed

lemma page_split:
  "x = page_down x + of_nat (unat x mod 4096)" "unat x mod 4096 < 4096"
proof -
  have "unat (page_down x + of_nat (unat x mod 4096)) = unat (page_down x) + unat x mod 4096"
    by (rule page_offset_nat(3)) simp_all
  then show "x = page_down x + of_nat (unat x mod 4096)"
    by (simp add: word_unat_eq_iff unat_page_down)
qed simp

text \<open>Memory that changes only in frame \<open>P\<close> leaves the walks that do not read \<open>P\<close> alone.\<close>

lemma xlate_frame:
  assumes "cr3 s' = cr3 s" "\<And>x. page_down x \<noteq> P \<Longrightarrow> pmem s' x = pmem s x"
    and "P \<noteq> pdir s" "present (pde s (dir_index va)) \<Longrightarrow> P \<noteq> table_of s (dir_index va)"
  shows "xlate s' va = xlate s va"
proof -
  have e: "pde s' (dir_index va) = pde s (dir_index va)"
    using assms by (intro pde_cong) (auto simp: dir_index_less)
  show ?thesis
  proof (cases "present (pde s (dir_index va))")
    case True
    have "pte s' (dir_index va) (table_index va) = pte s (dir_index va) (table_index va)"
      using assms(2) assms(4) [OF True]
      by (intro pte_cong) (auto simp: table_index_less e table_of_def)
    with e show ?thesis by (rule xlate_entries)
  next
    case False
    with e show ?thesis by (simp add: xlate_def Let_def)
  qed
qed

lemma vmemset_in_page:
  assumes "page_down va = va" "xlate s va = Some P" "P \<noteq> pdir s" "P \<noteq> table_of s (dir_index va)"
    and "k + n \<le> 4096"
  shows "vmemset s (va + of_nat k) v n = Some (s\<lparr>pmem := (\<lambda>x.
     if page_down x = P \<and> k \<le> unat x mod 4096 \<and> unat x mod 4096 < k + n then v else pmem s x)\<rparr>)"
  using assms
proof (induction n arbitrary: s k)
  case 0
  then show ?case by (simp add: not_le [symmetric] cong: if_cong)
next
  case (Suc n)
  have k: "k < 4096" using Suc.prems(5) by simp
  note off = page_offset_nat [OF Suc.prems(1) k]
  have va0: "va AND 0xFFF = 0" using page_down_aligned [of va] Suc.prems(1) by simp
  then have P: "page_down P = P"
    using xlate_page_offset(1) [OF Suc.prems(2)] by simp
  note Poff = page_offset_nat [OF P(1) k]
  have x: "xlate s (va + of_nat k) = Some (P + of_nat k)"
    using xlate_same_page [OF Suc.prems(2), of "va + of_nat k"] off P Suc.prems(1) by simp
  let ?s = "s\<lparr>pmem := (pmem s)(P + of_nat k := v)\<rparr>"
  have same: "xlate ?s va = xlate s va"
    using Suc.prems(3,4) Poff(1) by (intro xlate_frame [where P = P]) auto
  have pd: "pdir ?s = pdir s" by (simp add: pdir_def)
  have pe: "pde ?s (dir_index va) = pde s (dir_index va)"
    using Suc.prems(3) Poff(1) by (intro pde_cong) (auto simp: dir_index_less)
  then have tab: "table_of ?s (dir_index va) = table_of s (dir_index va)" by (simp add: table_of_def)
  have "vmemset ?s (va + of_nat (Suc k)) v n = Some (?s\<lparr>pmem := (\<lambda>x.
     if page_down x = P \<and> Suc k \<le> unat x mod 4096 \<and> unat x mod 4096 < Suc k + n then v else pmem ?s x)\<rparr>)"
    using Suc.prems same pd tab by (intro Suc.IH) auto
  moreover have "(x = P + of_nat k) \<longleftrightarrow> page_down x = P \<and> unat x mod 4096 = k" for x
  proof
    assume "x = P + of_nat k"
    moreover have "unat (P + of_nat k) mod 4096 = k"
      using arg_cong [OF Poff(2), of unat] k by (simp add: unat_and_0xFFF unat_of_nat)
    ultimately show "page_down x = P \<and> unat x mod 4096 = k" using Poff(1) by simp
  qed (use page_split(1) [of x] in auto)
  ultimately show ?case
    by (auto simp: vwrite8_def x algebra_simps intro!: ext arg_cong [where f = "\<lambda>m. s\<lparr>pmem := m\<rparr>"])
qed

lemma vmemset_page:
  assumes "page_down va = va" "xlate s va = Some P" "P \<noteq> pdir s" "P \<noteq> table_of s (dir_index va)"
  shows "vmemset s va v 4096 = Some (s\<lparr>pmem := (\<lambda>x. if page_down x = P then v else pmem s x)\<rparr>)"
proof -
  have "page_down x = P \<and> 0 \<le> unat x mod 4096 \<and> unat x mod 4096 < 0 + 4096 \<longleftrightarrow> page_down x = P" for x
    using page_split(2) [of x] by simp
  then show ?thesis
    using vmemset_in_page [OF assms, of 0 4096 v] by (simp only: of_nat_0 add_0_right) simp
qed

subsection \<open>Writing entries\<close>

definition set_pde :: "mm_state \<Rightarrow> u32 \<Rightarrow> u32 \<Rightarrow> mm_state" where
  "set_pde s d v = s\<lparr>pmem := write32 (pmem s) (pdir s + 4 * d) v\<rparr>"

definition set_pte :: "mm_state \<Rightarrow> u32 \<Rightarrow> u32 \<Rightarrow> u32 \<Rightarrow> mm_state" where
  "set_pte s d t v = s\<lparr>pmem := write32 (pmem s) (table_of s d + 4 * t) v\<rparr>"

definition zero_table :: "mm_state \<Rightarrow> u32 \<Rightarrow> mm_state" where
  "zero_table s d = s\<lparr>pmem := (\<lambda>x. if page_down x = table_of s d then 0 else pmem s x)\<rparr>"

lemma entry_write_fields [simp]:
  "pdir (set_pde s d v) = pdir s" "pmm (set_pde s d v) = pmm s" "cr3 (set_pde s d v) = cr3 s"
  "pdir (set_pte s d t v) = pdir s" "pmm (set_pte s d t v) = pmm s" "cr3 (set_pte s d t v) = cr3 s"
  "pdir (zero_table s d) = pdir s" "pmm (zero_table s d) = pmm s" "cr3 (zero_table s d) = cr3 s"
  by (simp_all add: set_pde_def set_pte_def zero_table_def pdir_def)

lemma pde_set_pde [frame_simps]:
  "d < 1024 \<Longrightarrow> d' < 1024 \<Longrightarrow> pde (set_pde s d v) d' = (if d' = d then v else pde s d')"
  by (simp add: pde_def wm.rd_wr aligned4_entry entry_inj) (simp add: set_pde_def wm.rd_wr
      aligned4_entry entry_inj)

lemma pte_set_pde [frame_simps]:
  assumes "d < 1024" "d' < 1024" "t < 1024" "table_of (set_pde s d v) d' = table_of s d'"
    "table_of s d' \<noteq> pdir s"
  shows "pte (set_pde s d v) d' t = pte s d' t"
  using assms by (simp add: pte_table) (simp add: set_pde_def wm.rd_wr aligned4_entry entry_inj)

lemma pde_set_pte [frame_simps]:
  assumes "d' < 1024" "t < 1024" "table_of s d \<noteq> pdir s"
  shows "pde (set_pte s d t v) d' = pde s d'"
  using assms by (simp add: pde_def) (simp add: set_pte_def wm.rd_wr aligned4_entry entry_inj)

lemma pte_set_pte [frame_simps]:
  assumes "d' < 1024" "t < 1024" "t' < 1024" "table_of s d \<noteq> pdir s"
  shows "pte (set_pte s d t v) d' t' =
    (if table_of s d' = table_of s d \<and> t' = t then v else pte s d' t')"
proof -
  have "table_of (set_pte s d t v) d' = table_of s d'"
    using assms by (simp add: table_of_def pde_set_pte)
  then show ?thesis
    using assms by (simp add: pte_table) (auto simp: set_pte_def wm.rd_wr aligned4_entry entry_inj)
qed

lemma read32_zero_page:
  assumes "page_down P = P" "page_down Q = Q" "i < 1024"
  shows "read32 (\<lambda>x. if page_down x = P then 0 else m x) (Q + 4 * i) =
    (if Q = P then 0 else read32 m (Q + 4 * i))"
proof (cases "Q = P")
  case True
  have "read32 (\<lambda>x. if page_down x = P then 0 else m x) (Q + 4 * i) = read32 (\<lambda>_. 0) (Q + 4 * i)"
    using assms True by (intro read32_page_cong) auto
  also have "\<dots> = 0" by (simp add: read32_def)
  finally show ?thesis using True by simp
next
  case False
  then show ?thesis using assms by (auto intro!: read32_page_cong)
qed

lemma pde_zero_table [frame_simps]:
  "d' < 1024 \<Longrightarrow> table_of s d \<noteq> pdir s \<Longrightarrow> pde (zero_table s d) d' = pde s d'"
  by (simp add: pde_def) (simp add: zero_table_def read32_zero_page)

lemma pte_zero_table [frame_simps]:
  assumes "d' < 1024" "t < 1024" "table_of s d \<noteq> pdir s"
  shows "pte (zero_table s d) d' t = (if table_of s d' = table_of s d then 0 else pte s d' t)"
proof -
  have "table_of (zero_table s d) d' = table_of s d'"
    using assms by (simp add: table_of_def pde_zero_table)
  then show ?thesis
    using assms by (simp add: pte_table) (simp add: zero_table_def read32_zero_page)
qed

text \<open>The same three writes, as the code makes them through the recursive window.\<close>

lemma vwrite_pde: "recursive s \<Longrightarrow> d < 1024 \<Longrightarrow> vwrite32 s (PD_VIRT d) v = Some (set_pde s d v)"
  by (simp add: vwrite32_PD set_pde_def)

lemma vwrite_pte:
  "recursive s \<Longrightarrow> d < 1024 \<Longrightarrow> t < 1024 \<Longrightarrow> present (pde s d) \<Longrightarrow>
     vwrite32 s (PT_VIRT d + 4 * t) v = Some (set_pte s d t v)"
  by (simp add: vwrite32_PT set_pte_def)

lemma vmemset_table:
  assumes "recursive s" "d < 1024" "present (pde s d)" "table_of s d \<noteq> pdir s"
  shows "vmemset s (PT_VIRT d) 0 4096 = Some (zero_table s d)"
proof -
  have x: "xlate s (PT_VIRT d) = Some (table_of s d)"
    using xlate_PT_VIRT [OF assms(1,2) _ assms(3), of 0] by simp
  have pg: "page_down (PT_VIRT d) = PT_VIRT d"
    using unat_PT_VIRT [OF assms(2), of 0]
    by (simp add: word_unat_eq_iff unat_page_down)
  have "table_of s (dir_index (PT_VIRT d)) = pdir s"
    using PT_VIRT_indices(1) [OF assms(2), of 0] assms(1) by (simp add: table_of_def recursive_def)
  with vmemset_page [OF pg x] assms(4) show ?thesis by (simp add: zero_table_def)
qed

subsection \<open>Mapping a page\<close>

lemma less_1024 [simp]: "d < 1023 \<Longrightarrow> d < (1024::u32)"
  by (erule less_trans) simp

lemma present_e: "e AND 1 = 0 \<longleftrightarrow> \<not> present e"
  by (simp add: present_def)

lemma as_wfD:
  assumes "as_wf s"
  shows "recursive s" "pmm_inv (pmm s)" "pdir s \<notin> avail (pmm s)"
    "\<And>d. d < 1023 \<Longrightarrow> present (pde s d) \<Longrightarrow> table_of s d \<noteq> pdir s"
    "\<And>d. d < 1023 \<Longrightarrow> present (pde s d) \<Longrightarrow> table_of s d \<notin> avail (pmm s)"
    "\<And>d d'. d < 1023 \<Longrightarrow> d' < 1023 \<Longrightarrow> present (pde s d) \<Longrightarrow> present (pde s d') \<Longrightarrow>
       table_of s d = table_of s d' \<Longrightarrow> d = d'"
  using assms by (auto simp: as_wf_def tables_ok_def)

lemma avail_page: "pmm_inv p \<Longrightarrow> a \<in> avail p \<Longrightarrow> page_down a = a"
proof -
  assume *: "pmm_inv p" "a \<in> avail p"
  then obtain f where f: "a = f * 4096" "f < 0x100000"
    using free_set_bounds [OF *(1)] by (auto simp: avail_def)
  then show ?thesis
    by (simp add: word_unat_eq_iff unat_page_down unat_frame_addr)
qed

lemma ensure_table_present:
  "recursive s \<Longrightarrow> d < 1024 \<Longrightarrow> present (pde s d) \<Longrightarrow> ensure_table d s = Some s"
  by (simp add: ensure_table_def vread32_PD present_e)

text \<open>The new table, in a frame that is not yet the directory or anybody's table.\<close>

lemma ensure_table_frame:
  assumes wf: "as_wf s" and d: "d < 1023" and np: "\<not> present (pde s d)"
    and al: "mm_alloc s = (frame, sa)" and inv: "pmm_inv (pmm sa)"
    and pg: "page_down frame = frame" and pool: "frame \<notin> avail (pmm sa)" "avail (pmm sa) \<subseteq> avail (pmm s)"
    and fresh: "frame \<noteq> pdir s" "\<And>d'. d' < 1023 \<Longrightarrow> present (pde s d') \<Longrightarrow> table_of s d' \<noteq> frame"
  defines "s1 \<equiv> zero_table (set_pde sa d (frame OR 1 OR 2)) d"
  shows "ensure_table d s = Some s1" "as_wf s1" "pde s1 d = frame OR 3" "table_of s1 d = frame"
    "cr3 s1 = cr3 s" "pmm s1 = pmm sa"
    "\<And>d'. d' < 1024 \<Longrightarrow> d' \<noteq> d \<Longrightarrow> pde s1 d' = pde s d'"
    "\<And>t. t < 1024 \<Longrightarrow> pte s1 d t = 0"
    "\<And>d' t. d' < 1023 \<Longrightarrow> t < 1024 \<Longrightarrow> d' \<noteq> d \<Longrightarrow> present (pde s d') \<Longrightarrow> pte s1 d' t = pte s d' t"
    "\<And>x. page_down x \<noteq> pdir s \<Longrightarrow> page_down x \<noteq> frame \<Longrightarrow> pmem s1 x = pmem s x"
proof -
  note wf' = as_wfD [OF wf]
  have d24: "d < 1024" using d by simp
  from al obtain p where p: "pmm_alloc_frame (pmm s) = (frame, p)" "sa = s\<lparr>pmm := p\<rparr>"
    by (auto simp: mm_alloc_def split: prod.splits)
  have sa: "pdir sa = pdir s" "pde sa = pde s" "pte sa = pte s" "table_of sa = table_of s"
    "pmem sa = pmem s"
    by (auto simp: p(2) pdir_def pde_def pte_def table_of_def fun_eq_iff)
  let ?s2 = "set_pde sa d (frame OR 1 OR 2)"
  have e2: "pde ?s2 d' = (if d' = d then frame OR 3 else pde s d')" if "d' < 1024" for d'
    using that d24 by (simp add: pde_set_pde sa or.assoc)
  then have t2: "table_of ?s2 d' = (if d' = d then frame else table_of s d')" if "d' < 1024" for d'
    using that by (simp add: table_of_def pg)
  have rec2: "recursive ?s2"
    using wf'(1) d e2 [of 1023] by (auto simp: recursive_def sa)
  have tn: "table_of ?s2 d \<noteq> pdir ?s2" using t2 [OF d24] fresh(1) sa(1) by simp
  show "ensure_table d s = Some s1"
    using wf'(1) d24 np al vmemset_table [OF rec2 d24 _ tn] e2 [OF d24]
    by (simp add: ensure_table_def vread32_PD present_e vwrite_pde s1_def recursive_def sa
        or.assoc)
  have e1: "pde s1 d' = pde ?s2 d'" if "d' < 1024" for d'
    using that tn by (simp add: s1_def pde_zero_table)
  then have t1: "table_of s1 d' = table_of ?s2 d'" if "d' < 1024" for d'
    using that by (simp add: table_of_def)
  show "pde s1 d = frame OR 3" using e1 e2 d24 by simp
  show tab: "table_of s1 d = frame" using t1 t2 d24 by simp
  show c: "cr3 s1 = cr3 s" by (simp add: s1_def p(2))
  show av: "pmm s1 = pmm sa" by (simp add: s1_def)
  show e: "\<And>d'. d' < 1024 \<Longrightarrow> d' \<noteq> d \<Longrightarrow> pde s1 d' = pde s d'" using e1 e2 by simp
  show "\<And>t. t < 1024 \<Longrightarrow> pte s1 d t = 0"
    using tn d24 by (simp add: s1_def pte_zero_table)
  show "pte s1 d' t = pte s d' t"
    if "d' < 1023" "t < 1024" "d' \<noteq> d" "present (pde s d')" for d' t
  proof -
    have "table_of ?s2 d' \<noteq> table_of ?s2 d" using that fresh(2) t2 d24 by simp
    then have "pte s1 d' t = pte ?s2 d' t" using that tn by (simp add: s1_def pte_zero_table)
    also have "\<dots> = pte s d' t"
      using that d24 wf'(4) t2 [of d'] sa by (subst pte_set_pde) auto
    finally show ?thesis .
  qed
  show "pmem s1 x = pmem s x" if "page_down x \<noteq> pdir s" "page_down x \<noteq> frame" for x
    using that t2 [OF d24] d24 sa
    by (simp add: s1_def zero_table_def set_pde_def write32_page table_of_def)
  have pd: "pdir s1 = pdir s" by (simp add: pdir_def c)
  have T: "table_of s1 d' = (if d' = d then frame else table_of s d')" if "d' < 1023" for d'
    using that t1 t2 by simp
  have E: "d' = d \<or> present (pde s d')" if "d' < 1023" "present (pde s1 d')" for d'
    using that e [of d'] by (cases "d' = d") auto
  have "tables_ok s1"
    unfolding tables_ok_def pd av
  proof (intro conjI allI impI)
    fix d' assume h: "d' < 1023" "present (pde s1 d')"
    show "table_of s1 d' \<noteq> pdir s" "table_of s1 d' \<notin> avail (pmm sa)"
      using E [OF h] T [OF h(1)] fresh(1) wf'(4,5) h(1) pool by (auto split: if_splits)
  next
    fix d1 d2 assume h: "d1 < 1023" "d2 < 1023" "present (pde s1 d1)" "present (pde s1 d2)"
      "table_of s1 d1 = table_of s1 d2"
    show "d1 = d2"
      using E [OF h(1,3)] E [OF h(2,4)] T [OF h(1)] T [OF h(2)] h(1,2,5) fresh(2) [of d1]
        fresh(2) [of d2] wf'(6) [OF h(1,2)] by (metis (full_types))
  qed
  moreover have "recursive s1"
    using wf'(1) e [of 1023] d pd by (auto simp: recursive_def)
  ultimately show "as_wf s1"
    using wf'(3) av pd inv pool(2) by (auto simp: as_wf_def)
qed

text \<open>A frame that comes from the pool is such a frame.\<close>

lemma ensure_table_new:
  assumes wf: "as_wf s" and d: "d < 1023" and np: "\<not> present (pde s d)"
    and al: "mm_alloc s = (frame, sa)" and nz: "frame \<noteq> 0"
  defines "s1 \<equiv> zero_table (set_pde sa d (frame OR 1 OR 2)) d"
  shows "ensure_table d s = Some s1" "as_wf s1" "pde s1 d = frame OR 3" "table_of s1 d = frame"
    "cr3 s1 = cr3 s" "avail (pmm s1) = avail (pmm s) - {frame}" "frame \<in> avail (pmm s)"
    "\<And>d'. d' < 1024 \<Longrightarrow> d' \<noteq> d \<Longrightarrow> pde s1 d' = pde s d'"
    "\<And>t. t < 1024 \<Longrightarrow> pte s1 d t = 0"
    "\<And>d' t. d' < 1023 \<Longrightarrow> t < 1024 \<Longrightarrow> d' \<noteq> d \<Longrightarrow> present (pde s d') \<Longrightarrow> pte s1 d' t = pte s d' t"
    "\<And>x. page_down x \<noteq> pdir s \<Longrightarrow> page_down x \<noteq> frame \<Longrightarrow> pmem s1 x = pmem s x"
    "managed (pmm s1) = managed (pmm s)"
proof -
  note wf' = as_wfD [OF wf]
  from al obtain p where p: "pmm_alloc_frame (pmm s) = (frame, p)" "sa = s\<lparr>pmm := p\<rparr>"
    by (auto simp: mm_alloc_def split: prod.splits)
  from fa.alloc_ok [OF wf'(2) p(1) nz] have
    fr: "frame \<in> avail (pmm s)" "avail (pmm sa) = avail (pmm s) - {frame}" "pmm_inv (pmm sa)"
      "managed (pmm sa) = managed (pmm s)"
    by (auto simp: p(2))
  have "frame \<notin> avail (pmm sa)" "avail (pmm sa) \<subseteq> avail (pmm s)" using fr(2) by auto
  note F = ensure_table_frame [OF wf d np al fr(3) avail_page [OF wf'(2) fr(1)] this, folded s1_def]
  have fresh: "frame \<noteq> pdir s" "\<And>d'. d' < 1023 \<Longrightarrow> present (pde s d') \<Longrightarrow> table_of s d' \<noteq> frame"
    using fr(1) wf'(3,5) by auto
  note F = F [OF fresh]
  show "ensure_table d s = Some s1" "as_wf s1" "pde s1 d = frame OR 3" "table_of s1 d = frame" "cr3 s1 = cr3 s"
    "\<And>d'. d' < 1024 \<Longrightarrow> d' \<noteq> d \<Longrightarrow> pde s1 d' = pde s d'" "\<And>t. t < 1024 \<Longrightarrow> pte s1 d t = 0"
    "\<And>d' t. d' < 1023 \<Longrightarrow> t < 1024 \<Longrightarrow> d' \<noteq> d \<Longrightarrow> present (pde s d') \<Longrightarrow> pte s1 d' t = pte s d' t"
    "\<And>x. page_down x \<noteq> pdir s \<Longrightarrow> page_down x \<noteq> frame \<Longrightarrow> pmem s1 x = pmem s x"
    using F by blast+
  show "avail (pmm s1) = avail (pmm s) - {frame}" "frame \<in> avail (pmm s)"
    "managed (pmm s1) = managed (pmm s)" using F(6) fr by simp_all
qed

lemma as_wf_cong:
  assumes "avail (pmm s') = avail (pmm s)" "pmm_inv (pmm s') = pmm_inv (pmm s)" "cr3 s' = cr3 s"
    "\<And>d. d < 1024 \<Longrightarrow> table_of s' d = table_of s d"
    "\<And>d. d < 1024 \<Longrightarrow> present (pde s' d) = present (pde s d)"
  shows "as_wf s' = as_wf s"
proof -
  have "pdir s' = pdir s" by (simp add: pdir_def assms(3))
  moreover have "recursive s' = recursive s"
    using assms(4) [of 1023] assms(5) [of 1023] calculation
    by (simp add: recursive_def table_of_def)
  moreover have "tables_ok s' = tables_ok s"
    unfolding tables_ok_def using assms calculation(1) by auto
  ultimately show ?thesis by (simp add: as_wf_def assms)
qed

text \<open>The second half of \<open>paging_map\<close>, once the table is there.\<close>

definition install :: "mm_state \<Rightarrow> u32 \<Rightarrow> u32 \<Rightarrow> u32 \<Rightarrow> u32 \<Rightarrow> mm_state" where
  "install s d t phys flags =
     set_pte (set_pde s d (pde s d OR (flags AND 4))) d t (page_down phys OR flags OR 1)"

lemma install_effects:
  assumes wf: "as_wf s" and d: "d < 1023" and t: "t < 1024" and pr: "present (pde s d)"
  shows "cr3 (install s d t phys flags) = cr3 s" "pmm (install s d t phys flags) = pmm s"
    "\<And>d'. d' < 1024 \<Longrightarrow> pde (install s d t phys flags) d' =
       (if d' = d then pde s d OR (flags AND 4) else pde s d')"
    "\<And>d' t'. d' < 1023 \<Longrightarrow> t' < 1024 \<Longrightarrow> present (pde s d') \<Longrightarrow> pte (install s d t phys flags) d' t' =
       (if d' = d \<and> t' = t then page_down phys OR flags OR 1 else pte s d' t')"
    "\<And>x. page_down x \<noteq> pdir s \<Longrightarrow> page_down x \<noteq> table_of s d \<Longrightarrow>
       pmem (install s d t phys flags) x = pmem s x"
    "as_wf (install s d t phys flags)"
    "vwrite32 s (PD_VIRT d) (pde s d OR (flags AND 4)) = Some (set_pde s d (pde s d OR (flags AND 4)))"
    "vwrite32 (set_pde s d (pde s d OR (flags AND 4))) (PT_VIRT d + 4 * t) (page_down phys OR flags OR 1) =
       Some (install s d t phys flags)"
proof -
  let ?s1 = "set_pde s d (pde s d OR (flags AND 4))" and ?s2 = "install s d t phys flags"
  note wf' = as_wfD [OF wf]
  have e1: "pde ?s1 d' = (if d' = d then pde s d OR (flags AND 4) else pde s d')" if "d' < 1024" for d'
    using that d by (simp add: pde_set_pde)
  then have t1: "table_of ?s1 d' = table_of s d'" if "d' < 1024" for d'
    using that by (simp add: table_of_def page_down_and_small)
  have rec1: "recursive ?s1" using wf'(1) d e1 [of 1023] by (auto simp: recursive_def)
  have nd: "table_of ?s1 d \<noteq> pdir ?s1" using wf'(4) [OF d pr] t1 d by simp
  show "cr3 ?s2 = cr3 s" "pmm ?s2 = pmm s" by (simp_all add: install_def)
  show e2: "pde ?s2 d' = (if d' = d then pde s d OR (flags AND 4) else pde s d')" if "d' < 1024" for d'
    using that e1 nd t by (simp add: install_def pde_set_pte)
  show "pte ?s2 d' t' = (if d' = d \<and> t' = t then page_down phys OR flags OR 1 else pte s d' t')"
    if h: "d' < 1023" "t' < 1024" "present (pde s d')" for d' t'
  proof -
    have "pte ?s2 d' t' = (if table_of ?s1 d' = table_of ?s1 d \<and> t' = t
        then page_down phys OR flags OR 1 else pte ?s1 d' t')"
      using h t nd by (simp add: install_def pte_set_pte)
    moreover have "table_of ?s1 d' = table_of ?s1 d \<longleftrightarrow> d' = d"
      using t1 h d wf'(6) [OF h(1) d h(3) pr] by auto
    moreover have "pte ?s1 d' t' = pte s d' t'"
      using h d t1 wf'(4) [OF h(1,3)] by (intro pte_set_pde) auto
    ultimately show ?thesis by simp
  qed
  show "pmem ?s2 x = pmem s x" if "page_down x \<noteq> pdir s" "page_down x \<noteq> table_of s d" for x
    using that d t t1 [of d] by (simp add: install_def set_pte_def write32_page)
      (simp add: set_pde_def write32_page)
  have t2: "table_of ?s2 d' = table_of s d'" if "d' < 1024" for d'
    using that e2 by (simp add: table_of_def page_down_and_small)
  show "as_wf ?s2"
    using wf by (subst as_wf_cong [where s = s]) (auto simp: install_def t2 [unfolded install_def]
        e2 [unfolded install_def] pr)
  show "vwrite32 s (PD_VIRT d) (pde s d OR (flags AND 4)) = Some ?s1"
    using wf'(1) d by (simp add: vwrite_pde)
  show "vwrite32 ?s1 (PT_VIRT d + 4 * t) (page_down phys OR flags OR 1) = Some ?s2"
    using rec1 d t pr e1 [of d] by (simp add: vwrite_pte install_def)
qed

lemma paging_map_steps:
  assumes "as_wf s" "dir_index virt < 1023" "ensure_table (dir_index virt) s = Some s1"
    "as_wf s1" "present (pde s1 (dir_index virt))"
  shows "paging_map virt phys flags s = Some (install s1 (dir_index virt) (table_index virt) phys flags)"
  using assms(2,3) install_effects(7,8) [OF assms(4,2) table_index_less [of virt] assms(5)]
    as_wfD(1) [OF assms(4)]
  by (simp add: paging_map_def Let_def vread32_PD page_down_neg flip: dir_index_def table_index_def)

text \<open>The permission the MMU would check for a ring-3 access: user bit at both levels.\<close>

definition user_accessible :: "mm_state \<Rightarrow> u32 \<Rightarrow> bool" where
  "user_accessible s va \<longleftrightarrow>
     (let e = pde s (dir_index va); p = pte s (dir_index va) (table_index va)
      in present e \<and> bit e 2 \<and> present p \<and> bit p 2)"

text \<open>
  Everything a caller of \<open>paging_map\<close> may rely on: the page is mapped to the frame, no other
  address below the recursive window changes its translation, and memory outside the two
  tables that are written is untouched.
\<close>

lemma bit_4: "bit (4 :: u32) n \<longleftrightarrow> n = 2"
proof -
  have four: "(4::u32) = push_bit 2 1" by simp
  show ?thesis unfolding four by (auto simp only: bit_push_bit_iff bit_1_iff) auto
qed

definition map_post :: "u32 \<Rightarrow> u32 \<Rightarrow> u32 \<Rightarrow> mm_state \<Rightarrow> mm_state \<Rightarrow> bool" where
  "map_post virt phys flags s s' \<longleftrightarrow>
     as_wf s' \<and> cr3 s' = cr3 s \<and>
     xlate s' virt = Some (page_down phys OR (virt AND 0xFFF)) \<and>
     pte s' (dir_index virt) (table_index virt) = page_down phys OR flags OR 1 \<and>
     present (pde s' (dir_index virt)) \<and> (bit flags 2 \<longrightarrow> bit (pde s' (dir_index virt)) 2) \<and>
     (\<forall>d < 1024. d \<noteq> dir_index virt \<longrightarrow> pde s' d = pde s d) \<and> managed (pmm s') = managed (pmm s) \<and>
     (\<forall>va. dir_index va < 1023 \<longrightarrow> page_down va \<noteq> page_down virt \<longrightarrow> xlate s' va = xlate s va) \<and>
     (\<forall>va. dir_index va < 1023 \<longrightarrow> page_down va \<noteq> page_down virt \<longrightarrow> user_accessible s va \<longrightarrow>
        user_accessible s' va) \<and>
     (\<forall>x. page_down x \<noteq> pdir s \<longrightarrow> page_down x \<noteq> table_of s' (dir_index virt) \<longrightarrow> pmem s' x = pmem s x) \<and>
     (if present (pde s (dir_index virt)) then pmm s' = pmm s \<and> table_of s' (dir_index virt) = table_of s (dir_index virt)
      else table_of s' (dir_index virt) \<in> avail (pmm s) \<and>
        avail (pmm s') = avail (pmm s) - {table_of s' (dir_index virt)})"

lemma paging_map_post:
  assumes wf: "as_wf s" and d: "dir_index virt < 1023" and fl: "flags AND NOT 0xFFF = 0"
    and mem: "present (pde s (dir_index virt)) \<or> avail (pmm s) \<noteq> {}"
  shows "\<exists>s'. paging_map virt phys flags s = Some s' \<and> map_post virt phys flags s s'"
proof -
  let ?d = "dir_index virt" and ?t = "table_index virt"
  obtain s1 where s1: "ensure_table ?d s = Some s1" "as_wf s1" "present (pde s1 ?d)" "cr3 s1 = cr3 s"
      "managed (pmm s1) = managed (pmm s)"
    and eq: "\<And>d'. d' < 1024 \<Longrightarrow> d' \<noteq> ?d \<Longrightarrow> pde s1 d' = pde s d'"
    and pt: "\<And>d' t. d' < 1023 \<Longrightarrow> t < 1024 \<Longrightarrow> present (pde s d') \<Longrightarrow> pte s1 d' t = pte s d' t"
    and new: "if present (pde s ?d) then s1 = s
      else table_of s1 ?d \<in> avail (pmm s) \<and> avail (pmm s1) = avail (pmm s) - {table_of s1 ?d} \<and>
        (\<forall>t < 1024. pte s1 ?d t = 0)"
    and mm: "\<And>x. page_down x \<noteq> pdir s \<Longrightarrow> page_down x \<noteq> table_of s1 ?d \<Longrightarrow> pmem s1 x = pmem s x"
  proof (cases "present (pde s ?d)")
    case True
    then show ?thesis
      using that [of s] ensure_table_present [OF as_wfD(1) [OF wf]] d wf by auto
  next
    case False
    obtain frame sa where al: "mm_alloc s = (frame, sa)" by (cases "mm_alloc s")
    have "frame \<noteq> 0"
      using fa.alloc_succeeds [OF as_wfD(2) [OF wf]] mem False al
      by (auto simp: mm_alloc_def split: prod.splits)
    note N = ensure_table_new [OF wf d False al this]
    show ?thesis
    proof (rule that)
      fix d' t :: u32 assume "d' < 1023" "t < 1024" "present (pde s d')"
      with N(10) [of d' t] False show "pte (zero_table (set_pde sa ?d (frame OR 1 OR 2)) ?d) d' t = pte s d' t"
        by metis
    qed (use N False in \<open>auto simp: N(3,4,9) split del: if_split\<close>)
  qed
  let ?s' = "install s1 ?d ?t phys flags"
  note eff = install_effects [OF s1(2) d table_index_less [of virt] s1(3)]
  have run: "paging_map virt phys flags s = Some ?s'"
    by (rule paging_map_steps [OF wf d s1(1-3)])
  have pdir: "pdir s1 = pdir s" by (simp add: pdir_def s1(4))
  have tab: "table_of ?s' ?d = table_of s1 ?d"
    using eff(3) [of ?d] d by (simp add: table_of_def page_down_and_small)
  have pv: "pte ?s' ?d ?t = page_down phys OR flags OR 1"
    using eff(4) [OF d table_index_less s1(3)] by simp
  have xv: "xlate ?s' virt = Some (page_down phys OR (virt AND 0xFFF))"
    using pv eff(3) [of ?d] d s1(3) fl by (simp add: xlate_def page_down_flags)
  have other: "xlate ?s' va = xlate s va" if h: "dir_index va < 1023" "page_down va \<noteq> page_down virt" for va
  proof (cases "present (pde s (dir_index va))")
    case True
    have p1: "present (pde s1 (dir_index va))"
      using True eq [of "dir_index va"] s1(3) h(1) by (cases "dir_index va = ?d") auto
    have "pte ?s' (dir_index va) (table_index va) = pte s1 (dir_index va) (table_index va)"
      using eff(4) [OF h(1) table_index_less p1] h(2) by (auto simp: page_eq_iff)
    also have "\<dots> = pte s (dir_index va) (table_index va)"
      using pt [OF h(1) table_index_less True] .
    finally have "pte ?s' (dir_index va) (table_index va) = pte s (dir_index va) (table_index va)" .
    moreover have "present (pde ?s' (dir_index va))"
      using eff(3) [of "dir_index va"] h(1) p1 s1(3) by auto
    ultimately show ?thesis using True by (simp add: xlate_def Let_def)
  next
    case False
    show ?thesis
    proof (cases "dir_index va = ?d")
      case same: True
      have "pte ?s' ?d (table_index va) = pte s1 ?d (table_index va)"
        using eff(4) [OF d table_index_less s1(3)] h(2) same by (auto simp: page_eq_iff)
      also have "\<dots> = 0" using new False same table_index_less [of va] by simp
      finally show ?thesis using same False by (simp add: xlate_def Let_def)
    next
      case diff: False
      then have "pde ?s' (dir_index va) = pde s (dir_index va)"
        using eff(3) [of "dir_index va"] eq [of "dir_index va"] h(1) by simp
      with False show ?thesis by (simp add: xlate_def Let_def)
    qed
  qed
  have ua: "user_accessible ?s' va"
    if h: "dir_index va < 1023" "page_down va \<noteq> page_down virt" "user_accessible s va" for va
  proof -
    have pr: "present (pde s (dir_index va))" using h(3) by (simp add: user_accessible_def Let_def)
    have e1: "pde s1 (dir_index va) = pde s (dir_index va)"
      using eq [of "dir_index va"] h(1) pr new by (cases "dir_index va = ?d") auto
    then have "pte ?s' (dir_index va) (table_index va) = pte s1 (dir_index va) (table_index va)"
      using eff(4) [OF h(1) table_index_less [of va], where phys = phys and flags = flags] h(2) pr by (auto simp: page_eq_iff)
    also have "\<dots> = pte s (dir_index va) (table_index va)" using pt [OF h(1) table_index_less pr] .
    finally show ?thesis
      using eff(3) [of "dir_index va"] h(1,3) e1 by (auto simp: user_accessible_def Let_def bit_or_iff)
  qed
  have pd: "present (pde ?s' ?d)" "bit flags 2 \<longrightarrow> bit (pde ?s' ?d) 2"
    using eff(3) [of ?d] d s1(3) bit_4 [of 2] by (simp_all add: bit_or_iff bit_and_iff)
  have others: "\<forall>d' < 1024. d' \<noteq> ?d \<longrightarrow> pde ?s' d' = pde s d'"
    using eff(3) eq by simp
  have "map_post virt phys flags s ?s'"
    unfolding map_post_def tab
    using eff(1,2,5,6) s1(4,5) xv pv pd others other ua mm new pdir by auto
  with run show ?thesis by blast
qed

subsection \<open>Reading and removing mappings\<close>

lemma bit_5: "bit (5 :: u32) n \<longleftrightarrow> n = 0 \<or> n = 2"
proof -
  have five: "(5::u32) = push_bit 0 1 OR push_bit 2 1" by simp
  show ?thesis
    unfolding five by (auto simp only: bit_or_iff bit_push_bit_iff bit_1_iff) auto
qed

lemma need_bits: "e AND 5 = 5 \<longleftrightarrow> present e \<and> bit (e::u32) 2"
proof
  assume eq: "e AND 5 = 5"
  have "bit (e AND 5) 0" "bit (e AND 5) 2" unfolding eq by (simp_all add: bit_5)
  then show "present e \<and> bit e 2" by (simp add: present_bit bit_and_iff)
next
  assume "present e \<and> bit e 2"
  then show "e AND 5 = 5"
    by (intro bit_word_eqI) (auto simp only: present_bit bit_and_iff bit_5)
qed

lemma virt_to_phys_xlate:
  assumes "recursive s"
  shows "paging_virt_to_phys virt s = Some (case xlate s virt of None \<Rightarrow> UNMAPPED | Some pa \<Rightarrow> pa)"
  using assms
  by (simp add: paging_virt_to_phys_def Let_def vread32_PD vread32_PT dir_index_less table_index_less
      present_e xlate_def page_down_neg flip: dir_index_def table_index_def)

lemma is_user_accessible:
  assumes "recursive s"
  shows "paging_is_user virt s = Some (user_accessible s virt)"
  using assms
  by (auto simp: paging_is_user_def Let_def vread32_PD vread32_PT dir_index_less table_index_less
      need_bits user_accessible_def simp flip: dir_index_def table_index_def)

lemma paging_unmap_run:
  assumes "as_wf s" "dir_index virt < 1023"
  shows "paging_unmap virt s = Some (if present (pde s (dir_index virt))
    then set_pte s (dir_index virt) (table_index virt) 0 else s)"
  using assms as_wfD(1) [OF assms(1)]
  by (simp add: paging_unmap_def Let_def vread32_PD vwrite_pte table_index_less present_e
      flip: dir_index_def table_index_def)

lemma paging_unmap_post:
  assumes wf: "as_wf s" and d: "dir_index virt < 1023"
  shows "\<exists>s'. paging_unmap virt s = Some s' \<and> as_wf s' \<and> cr3 s' = cr3 s \<and> pmm s' = pmm s \<and>
    xlate s' virt = None \<and>
    (\<forall>d < 1024. pde s' d = pde s d) \<and>
    (\<forall>va. dir_index va < 1023 \<longrightarrow> page_down va \<noteq> page_down virt \<longrightarrow> xlate s' va = xlate s va) \<and>
    (\<forall>x. page_down x \<noteq> table_of s (dir_index virt) \<longrightarrow> pmem s' x = pmem s x)"
proof (cases "present (pde s (dir_index virt))")
  case False
  then show ?thesis
    using paging_unmap_run [OF wf d] wf by (auto simp: xlate_def Let_def)
next
  case True
  let ?d = "dir_index virt" and ?t = "table_index virt"
  let ?s' = "set_pte s ?d ?t 0"
  have nd: "table_of s ?d \<noteq> pdir s" using as_wfD(4) [OF wf d True] .
  have e: "pde ?s' d' = pde s d'" if "d' < 1024" for d'
    using that nd by (simp add: pde_set_pte table_index_less)
  then have "as_wf ?s'"
    using wf by (subst as_wf_cong [where s = s]) (simp_all add: table_of_def)
  moreover have "xlate ?s' virt = None"
    using e nd d by (simp add: xlate_def Let_def pte_set_pte table_index_less)
  moreover have "xlate ?s' va = xlate s va"
    if h: "dir_index va < 1023" "page_down va \<noteq> page_down virt" for va
  proof (cases "present (pde s (dir_index va))")
    case p: True
    have "pte ?s' (dir_index va) (table_index va) = pte s (dir_index va) (table_index va)"
      using h nd as_wfD(6) [OF wf h(1) d p True]
      by (auto simp: pte_set_pte table_index_less page_eq_iff)
    then show ?thesis using e h(1) by (intro xlate_entries) simp_all
  next
    case False
    then show ?thesis using e h(1) by (simp add: xlate_def Let_def)
  qed
  moreover have "pmem ?s' x = pmem s x" if "page_down x \<noteq> table_of s ?d" for x
    using that by (simp add: set_pte_def write32_page table_index_less)
  ultimately show ?thesis
    using paging_unmap_run [OF wf d] True e by auto
qed

subsection \<open>The boot address space\<close>

abbreviation (input) entry_indices :: "u32 list" where
  "entry_indices \<equiv> map of_nat [0 ..< 1024]"

lemma entry_index_iff: "i \<in> set entry_indices \<longleftrightarrow> i < 1024"
proof
  assume "i < 1024"
  then have "i = of_nat (unat i)" "unat i \<in> set [0..<1024]" by (simp_all add: word_less_nat_alt)
  then show "i \<in> set entry_indices" by (metis imageI set_map)
qed (auto simp: word_less_nat_alt unat_of_nat)

lemma distinct_entry_indices: "distinct entry_indices"
  by (auto simp: distinct_map inj_on_def word_unat_eq_iff unat_of_nat simp del: upt_rec_numeral)

lemma writes_read:
  assumes "page_down P = P" "distinct idx" "\<forall>i \<in> set idx. i < 1024" "i \<in> set idx"
  shows "read32 (fold (\<lambda>(a, v) m. write32 m a v) (map (\<lambda>i. (P + 4 * i, f i)) idx) m) (P + 4 * i) = f i"
  using assms by (intro wm.rd_writes) (auto simp: distinct_map inj_on_def aligned4_entry)

lemma writes_read_other:
  assumes "page_down P = P" "page_down Q = Q" "P \<noteq> Q \<or> i \<notin> set idx" "\<forall>i \<in> set idx. i < 1024" "i < 1024"
  shows "read32 (fold (\<lambda>(a, v) m. write32 m a v) (map (\<lambda>i. (P + 4 * i, f i)) idx) m) (Q + 4 * i) =
    read32 m (Q + 4 * i)"
  using assms by (intro wm.rd_writes_other) (auto simp: aligned4_entry entry_inj)

lemma two_writes:
  assumes "page_down P = P" "page_down Q = Q" "i < 1024" "j < 1024" "d < 1024"
  shows "read32 (write32 (write32 m (P + 4 * i) a) (P + 4 * j) b) (Q + 4 * d) =
    (if Q \<noteq> P then read32 m (Q + 4 * d) else if d = j then b else if d = i then a
     else read32 m (Q + 4 * d))"
  using assms by (auto simp: wm.rd_wr aligned4_entry entry_inj)

text \<open>The entries \<open>paging_initialize\<close> leaves behind.\<close>

lemma initialize_entries:
  fixes s :: mm_state
  assumes pg: "page_down pd = pd" "page_down ft = ft" "pd \<noteq> ft" and d: "d < 1024"
  defines "s' \<equiv> paging_initialize pd ft s"
  shows "pdir s' = pd" "pmm s' = pmm s"
    "pde s' d = (if d = 1023 then pd OR 3 else if d = 0 then ft OR 3 else 2)"
    "read32 (pmem s') (ft + 4 * d) = (d * 0x1000) OR 3"
proof -
  let ?w = "fold (\<lambda>(a, v) m. write32 m a v)"
  define m1 where "m1 = ?w (map (\<lambda>i. (pd + 4 * i, 2)) entry_indices) (pmem s)"
  define m2 where "m2 = ?w (map (\<lambda>i. (ft + 4 * i, (i * 0x1000) OR 1 OR 2)) entry_indices) m1"
  have s': "s' = s\<lparr>pmem := write32 (write32 m2 (pd + 4 * 0) (ft OR 1 OR 2)) (pd + 4 * 1023) (pd OR 1 OR 2),
      cr3 := pd\<rparr>"
    by (simp only: s'_def paging_initialize_def m1_def m2_def Let_def)
  have idx: "distinct entry_indices" "\<forall>i \<in> set entry_indices. i < 1024" "d \<in> set entry_indices"
    using distinct_entry_indices entry_index_iff d by blast+
  have r1: "read32 m1 (pd + 4 * d) = 2"
    unfolding m1_def using pg(1) idx by (rule writes_read)
  have r2: "read32 m2 (pd + 4 * d) = 2"
    unfolding m2_def r1 [symmetric] using pg idx d by (intro writes_read_other) auto
  have rt: "read32 m2 (ft + 4 * d) = (d * 0x1000) OR 3"
    unfolding m2_def using writes_read [OF pg(2) idx] by (simp add: or.assoc)
  show pdir: "pdir s' = pd" by (simp add: s' pdir_def pg)
  show "pmm s' = pmm s" by (simp add: s')
  show "pde s' d = (if d = 1023 then pd OR 3 else if d = 0 then ft OR 3 else 2)"
    unfolding pde_def pdir using two_writes [OF pg(1,1) _ _ d, of 0 1023 m2 "ft OR 1 OR 2" "pd OR 1 OR 2"] r2
    by (simp add: s' or.assoc)
  show "read32 (pmem s') (ft + 4 * d) = (d * 0x1000) OR 3"
    using two_writes [OF pg(1,2) _ _ d, of 0 1023 m2 "ft OR 1 OR 2" "pd OR 1 OR 2"] rt pg(3)
    by (simp add: s')
qed

lemma page_plus_offset: "page_down va + (va AND 0xFFF) = va"
proof -
  have "unat (page_down va + (va AND 0xFFF)) = unat (page_down va) + unat (va AND 0xFFF)"
    by (rule page_down_offset(2)) (simp_all add: unat_offset)
  then show ?thesis by (simp add: word_unat_eq_iff unat_page_down unat_and_0xFFF)
qed

lemma low_page: "dir_index va = 0 \<Longrightarrow> page_down va = table_index va * 0x1000"
proof -
  assume "dir_index va = 0"
  then have "unat va div 2 ^ 22 = 0" using unat_dir_index [of va] by simp
  then have lt: "unat va div 4096 < 1024" by (simp add: div_eq_0_iff less_mult_imp_div_less)
  then have ti: "unat (table_index va) = unat va div 4096" by (simp add: unat_table_index)
  have "unat (table_index va * 0x1000) = unat va div 4096 * 4096"
    using lt by (simp add: unat_word_ariths ti)
  then show ?thesis by (simp add: word_unat_eq_iff unat_page_down)
qed

lemma small_index_cases: "d < 1023 \<Longrightarrow> (d::u32) \<noteq> 1023"
  by auto

lemma initialize_post:
  assumes "page_down pd = pd" "page_down ft = ft" "pd \<noteq> ft" "pmm_inv (pmm s)"
    "pd \<notin> avail (pmm s)" "ft \<notin> avail (pmm s)"
  shows "as_wf (paging_initialize pd ft s) \<and>
    (\<forall>va. dir_index va = 0 \<longrightarrow> xlate (paging_initialize pd ft s) va = Some va) \<and>
    (\<forall>va. dir_index va \<noteq> 0 \<longrightarrow> dir_index va \<noteq> 1023 \<longrightarrow> xlate (paging_initialize pd ft s) va = None)"
proof -
  let ?s = "paging_initialize pd ft s"
  note ent = initialize_entries [OF assms(1-3), where s = s]
  have t0: "table_of ?s 0 = ft" using ent(3) [of 0] by (simp add: table_of_def assms(2))
  have pres: "present (pde ?s d) \<longleftrightarrow> d = 0 \<or> d = 1023" if "d < 1024" for d
    using ent(3) [OF that] by simp
  have "recursive ?s"
    using ent(1) [of 0] ent(3) [of 1023] assms(1) by (simp add: recursive_def)
  moreover have "tables_ok ?s"
    using pres t0 assms ent(1,2) [of 0] by (auto simp: tables_ok_def small_index_cases)
  ultimately have "as_wf ?s"
    using assms ent(1,2) [of 0] by (simp add: as_wf_def)
  moreover have "xlate ?s va = Some va" if "dir_index va = 0" for va
  proof -
    have "pte ?s 0 (table_index va) = page_down va OR 3"
      using ent(4) [OF table_index_less, of va] t0 low_page [OF that] by (simp add: pte_table)
    then show ?thesis
      using that pres [of 0] page_plus_offset [of va]
      by (simp add: xlate_def page_or_offset)
  qed
  moreover have "xlate ?s va = None" if "dir_index va \<noteq> 0" "dir_index va \<noteq> 1023" for va
    using that pres [OF dir_index_less] by (simp add: xlate_def Let_def)
  ultimately show ?thesis by blast
qed

text \<open>
  After boot the address space is well formed, the first 4 MiB are identity mapped, and
  nothing else below the recursive window is mapped.
\<close>

theorem paging_initialize_identity:
  assumes "page_down pd = pd" "page_down ft = ft" "pd \<noteq> ft" "pmm_inv (pmm s)"
    "pd \<notin> avail (pmm s)" "ft \<notin> avail (pmm s)"
  shows "as_wf (paging_initialize pd ft s) \<and>
    (\<forall>va. dir_index va = 0 \<longrightarrow> xlate (paging_initialize pd ft s) va = Some va) \<and>
    (\<forall>va. dir_index va \<noteq> 0 \<longrightarrow> dir_index va \<noteq> 1023 \<longrightarrow> xlate (paging_initialize pd ft s) va = None)"
  by (rule initialize_post [OF assms])

text \<open>The boot state the witnesses below start from.\<close>

definition mm_boot :: mm_state where
  "mm_boot = paging_initialize 0x80000 0x81000 \<lparr>pmm = pmm_sample, pmem = (\<lambda>_. 0), cr3 = 0\<rparr>"

lemma pmm_sample_avail: "a \<in> avail pmm_sample \<longleftrightarrow> (\<exists>f. a = f * 4096 \<and> 256 \<le> f \<and> f < 300)"
proof -
  have "f \<in> free_set pmm_sample \<longleftrightarrow> 256 \<le> f \<and> f < 300" for f
  proof -
    have "f div 32 < 8 \<longleftrightarrow> f < 256"
      by (simp add: word_less_nat_alt unat_div_distrib div_less_iff_less_mult)
    moreover have "bit (0xFFFFFFFF :: u32) (unat (f mod 32))"
    proof -
      have "(0xFFFFFFFF :: u32) = mask 32" by (simp add: mask_eq_exp_minus_1)
      then show ?thesis by (simp only: bit_mask_iff) (simp add: unat_mod_distrib)
    qed
    ultimately show ?thesis
      by (auto simp: free_set_def frame_test_bit pmm_sample_def)
  qed
  then show ?thesis by (auto simp: avail_def)
qed

lemma low_not_avail: "unat a < 0x100000 \<Longrightarrow> a \<notin> avail pmm_sample"
proof
  assume h: "unat a < 0x100000" "a \<in> avail pmm_sample"
  then obtain f where f: "a = f * 4096" "256 \<le> f" "f < 300" by (auto simp: pmm_sample_avail)
  then have "unat a = unat f * 4096"
    by (simp add: unat_frame_addr word_less_nat_alt)
  with h(1) f(2) show False by (simp add: word_le_nat_alt)
qed

theorem paging_initialize_identity_witness:
  "as_wf mm_boot \<and> xlate mm_boot 0x1234 = Some 0x1234 \<and> xlate mm_boot 0x40000000 = None"
proof -
  have "dir_index 0x1234 = 0" "dir_index 0x40000000 = 256"
    by (simp_all add: dir_index_def)
  then show ?thesis
    unfolding mm_boot_def
    using paging_initialize_identity [of "0x80000" "0x81000" "\<lparr>pmm = pmm_sample, pmem = (\<lambda>_. 0), cr3 = 0\<rparr>"]
      pmm_sample_inv low_not_avail
    by (simp add: page_down_def)
qed

text \<open>
  C2. In a well-formed address space with a frame to spare, \<open>paging_map\<close> does not fault: it maps
  the page of \<open>virt\<close> to the frame of \<open>phys\<close> with the given flags, keeps the address space well
  formed, opens it to ring 3 if \<open>PAGE_USER\<close> is among the flags, changes the translation of no
  other page below the recursive window, writes to no memory but the page directory and the one page table, and takes a frame from the allocator
  only when the page table was missing.
\<close>

theorem paging_map_correct:
  assumes "as_wf s" and "dir_index virt < 1023" and "flags AND NOT 0xFFF = 0"
    and "present (pde s (dir_index virt)) \<or> avail (pmm s) \<noteq> {}"
  shows "\<exists>s'. paging_map virt phys flags s = Some s' \<and> as_wf s' \<and> cr3 s' = cr3 s \<and>
    xlate s' virt = Some (page_down phys OR (virt AND 0xFFF)) \<and>
    (bit flags 2 \<longrightarrow> user_accessible s' virt) \<and>
    (\<forall>va. dir_index va < 1023 \<longrightarrow> page_down va \<noteq> page_down virt \<longrightarrow> xlate s' va = xlate s va \<and>
       (user_accessible s va \<longrightarrow> user_accessible s' va)) \<and>
    (\<forall>x. page_down x \<noteq> pdir s \<longrightarrow> page_down x \<noteq> table_of s' (dir_index virt) \<longrightarrow> pmem s' x = pmem s x) \<and>
    (if present (pde s (dir_index virt)) then pmm s' = pmm s
     else table_of s' (dir_index virt) \<in> avail (pmm s) \<and>
       avail (pmm s') = avail (pmm s) - {table_of s' (dir_index virt)})"
  using paging_map_post [OF assms, of phys]
  by (auto simp: map_post_def user_accessible_def bit_or_iff split: if_splits)

lemma mm_boot_facts:
  "as_wf mm_boot" "avail (pmm mm_boot) = avail pmm_sample" "0x100000 \<in> avail pmm_sample"
  "\<not> present (pde mm_boot 256)" "present (pde mm_boot 0)"
proof -
  note i = initialize_entries [of "0x80000" "0x81000" _ "\<lparr>pmm = pmm_sample, pmem = (\<lambda>_. 0), cr3 = 0\<rparr>",
      folded mm_boot_def]
  show "as_wf mm_boot"
    unfolding mm_boot_def
    by (rule conjunct1 [OF initialize_post]) (simp_all add: page_down_def pmm_sample_inv low_not_avail)
  show "avail (pmm mm_boot) = avail pmm_sample" using i(2) [of 0] by (simp add: page_down_def)
  show "0x100000 \<in> avail pmm_sample"
    unfolding pmm_sample_avail by (rule exI [of _ 256]) simp
  show "\<not> present (pde mm_boot 256)" "present (pde mm_boot 0)"
    using i(3) [of 256] i(3) [of 0] by (simp_all add: page_down_def present_def)
qed

theorem paging_map_correct_witness:
  "\<exists>s'. paging_map 0x40000123 0x110000 6 mm_boot = Some s' \<and> xlate s' 0x40000123 = Some 0x110123"
proof -
  have "dir_index 0x40000123 = 256" by (simp add: dir_index_def)
  then show ?thesis
    using paging_map_correct [of mm_boot "0x40000123" 6 "0x110000"] mm_boot_facts
    by (auto simp: page_down_def)
qed

text \<open>
  C17. \<open>paging_virt_to_phys\<close>, which reads the tables through the recursive window, is the MMU's
  own page walk: it returns the translation, or \<open>0xFFFFFFFF\<close> exactly where the walk fails to
  find a page, and it never faults itself, for any address at all.
\<close>

theorem paging_virt_to_phys_is_mmu:
  assumes "recursive s"
  shows "paging_virt_to_phys virt s = Some (case xlate s virt of None \<Rightarrow> 0xFFFFFFFF | Some pa \<Rightarrow> pa)"
  by (rule virt_to_phys_xlate [OF assms])

theorem paging_virt_to_phys_is_mmu_witness:
  "paging_virt_to_phys 0x40000000 mm_boot = Some 0xFFFFFFFF"
proof -
  have "dir_index 0x40000000 = 256" by (simp add: dir_index_def)
  then have "xlate mm_boot 0x40000000 = None" using mm_boot_facts(4) by (simp add: xlate_def Let_def)
  then show ?thesis
    using paging_virt_to_phys_is_mmu [OF as_wfD(1) [OF mm_boot_facts(1)]] by simp
qed

text \<open>
  \<open>paging_is_user\<close> answers true exactly when ring 3 may access the address: present and
  user bits at both levels of the walk.
\<close>

theorem paging_is_user_correct:
  assumes "recursive s"
  shows "paging_is_user virt s = Some (user_accessible s virt)"
  by (rule is_user_accessible [OF assms])

theorem paging_is_user_correct_witness: "paging_is_user 0x1000 mm_boot = Some False"
proof -
  have "dir_index 0x1000 = 0" by (simp add: dir_index_def)
  moreover have "\<not> bit (0x81003 :: u32) 2" by simp
  ultimately have "\<not> user_accessible mm_boot 0x1000"
    using initialize_entries(3) [of "0x80000" "0x81000" 0 "\<lparr>pmm = pmm_sample, pmem = (\<lambda>_. 0), cr3 = 0\<rparr>",
      folded mm_boot_def]
    by (simp add: user_accessible_def page_down_def)
  then show ?thesis
    using paging_is_user_correct [OF as_wfD(1) [OF mm_boot_facts(1)], of "0x1000"] by simp
qed

text \<open>
  \<open>paging_unmap\<close> never faults in a well-formed address space: afterwards the page is not
  mapped, every other page below the recursive window translates as before, no frame is freed
  and only the page table is written.
\<close>

theorem paging_unmap_correct:
  assumes "as_wf s" and "dir_index virt < 1023"
  shows "\<exists>s'. paging_unmap virt s = Some s' \<and> as_wf s' \<and> cr3 s' = cr3 s \<and> pmm s' = pmm s \<and>
    xlate s' virt = None \<and>
    (\<forall>va. dir_index va < 1023 \<longrightarrow> page_down va \<noteq> page_down virt \<longrightarrow> xlate s' va = xlate s va) \<and>
    (\<forall>x. page_down x \<noteq> table_of s (dir_index virt) \<longrightarrow> pmem s' x = pmem s x)"
  using paging_unmap_post [OF assms] by blast

theorem paging_unmap_correct_witness:
  "\<exists>s'. paging_unmap 0x3000 mm_boot = Some s' \<and> xlate s' 0x3000 = None"
proof -
  have "dir_index 0x3000 = 0" by (simp add: dir_index_def)
  then show ?thesis using paging_unmap_correct [OF mm_boot_facts(1), of "0x3000"] by auto
qed

subsection \<open>A new address space\<close>

text \<open>The scratch slots: their directory entry is 1022, their table entries are the last two.\<close>

lemma TMP_indices:
  "dir_index TMP_VIRT = 1022" "table_index TMP_VIRT = 1023" "page_down TMP_VIRT = TMP_VIRT"
  "dir_index TMP2_VIRT = 1022" "table_index TMP2_VIRT = 1022" "page_down TMP2_VIRT = TMP2_VIRT"
  by (simp_all add: dir_index_def table_index_def page_down_def)

text \<open>Accesses through a scratch slot that shows frame \<open>P\<close>.\<close>

definition slot_shows :: "mm_state \<Rightarrow> u32 \<Rightarrow> u32 \<Rightarrow> bool" where
  "slot_shows s va P \<longleftrightarrow> page_down va = va \<and> page_down P = P \<and> xlate s va = Some P"

lemma slot_access:
  assumes "slot_shows s va P" "i < 1024"
  shows "vread32 s (va + 4 * i) = Some (read32 (pmem s) (P + 4 * i))"
    "vwrite32 s (va + 4 * i) v = Some (s\<lparr>pmem := write32 (pmem s) (P + 4 * i) v\<rparr>)"
proof -
  have h: "page_down va = va" "page_down P = P" "xlate s va = Some P"
    using assms(1) by (simp_all add: slot_shows_def)
  have i: "unat (4 * i) < 4096" using assms(2) by (simp add: entry_offset word_less_nat_alt)
  have pg: "page_down (va + 4 * i) = va" by (rule page_down_offset(1) [OF h(1) i])
  then have off: "(va + 4 * i) AND 0xFFF = 4 * i"
    using page_plus_offset [of "va + 4 * i"] by simp
  have "xlate s (va + 4 * i) = Some (P + 4 * i)"
    using xlate_same_page [OF h(3), of "va + 4 * i"] pg h off by simp
  then show "vread32 s (va + 4 * i) = Some (read32 (pmem s) (P + 4 * i))"
    "vwrite32 s (va + 4 * i) v = Some (s\<lparr>pmem := write32 (pmem s) (P + 4 * i) v\<rparr>)"
    using offset_le_0xFFC [OF assms(2)] off by (simp_all add: vread32_def vwrite32_def)
qed

text \<open>Writing into a frame that is neither the directory nor a table in use.\<close>

definition data_frame :: "mm_state \<Rightarrow> u32 \<Rightarrow> bool" where
  "data_frame s P \<longleftrightarrow> page_down P = P \<and> P \<noteq> pdir s \<and> (\<forall>d < 1023. present (pde s d) \<longrightarrow> table_of s d \<noteq> P)"

definition same_outside :: "u32 \<Rightarrow> mm_state \<Rightarrow> mm_state \<Rightarrow> bool" where
  "same_outside P s s' \<longleftrightarrow> pmm s' = pmm s \<and> cr3 s' = cr3 s \<and>
     (\<forall>x. page_down x \<noteq> P \<longrightarrow> pmem s' x = pmem s x)"

lemma same_outside_refl [simp]: "same_outside P s s"
  by (simp add: same_outside_def)

lemma same_outside_trans: "same_outside P s s' \<Longrightarrow> same_outside P s' s'' \<Longrightarrow> same_outside P s s''"
  by (simp add: same_outside_def)

lemma same_outside_walk:
  assumes "same_outside P s s'" "data_frame s P"
  shows "d < 1024 \<Longrightarrow> pde s' d = pde s d"
    "d < 1023 \<Longrightarrow> t < 1024 \<Longrightarrow> present (pde s d) \<Longrightarrow> pte s' d t = pte s d t"
    "dir_index va < 1023 \<Longrightarrow> xlate s' va = xlate s va"
    "data_frame s' P" "as_wf s' = as_wf s"
proof -
  have h: "pmm s' = pmm s" "cr3 s' = cr3 s" "\<And>x. page_down x \<noteq> P \<Longrightarrow> pmem s' x = pmem s x"
    using assms(1) by (auto simp: same_outside_def)
  have pd: "pdir s' = pdir s" by (simp add: pdir_def h)
  show e: "pde s' d = pde s d" if "d < 1024" for d
    using h assms(2) that by (intro pde_cong) (auto simp: data_frame_def)
  show p: "pte s' d t = pte s d t" if "d < 1023" "t < 1024" "present (pde s d)" for d t
    using h(3) assms(2) that e [of d]
    by (intro pte_cong) (auto simp: data_frame_def table_of_def)
  show "xlate s' va = xlate s va" if "dir_index va < 1023"
    using that e [of "dir_index va"] p [OF that table_index_less] by (simp add: xlate_def Let_def)
  show "data_frame s' P"
    using assms(2) e pd by (simp add: data_frame_def table_of_def)
  show "as_wf s' = as_wf s"
    by (rule as_wf_cong) (simp_all add: h e table_of_def)
qed

lemma write_same_outside:
  "page_down P = P \<Longrightarrow> i < 1024 \<Longrightarrow> same_outside P s (s\<lparr>pmem := write32 (pmem s) (P + 4 * i) v\<rparr>)"
  by (simp add: same_outside_def write32_page)

text \<open>Copying directory entries into the frame the scratch slot shows.\<close>

lemma share_entry_run:
  assumes "recursive s" "slot_shows s TMP_VIRT P" "i < 1024"
  shows "share_entry i s = Some (s\<lparr>pmem := write32 (pmem s) (P + 4 * i) (pde s i)\<rparr>)"
  using assms by (simp add: share_entry_def vread32_PD slot_access)

lemma share_entries:
  assumes "as_wf s" "slot_shows s TMP_VIRT P" "data_frame s P" "\<forall>i \<in> set is. i < 1024" "distinct is"
  shows "\<exists>s'. for_each share_entry is s = Some s' \<and> same_outside P s s' \<and>
    (\<forall>i < 1024. read32 (pmem s') (P + 4 * i) =
       (if i \<in> set is then pde s i else read32 (pmem s) (P + 4 * i)))"
  using assms
proof (induction "is" arbitrary: s)
  case Nil
  then show ?case by auto
next
  case (Cons i "is")
  let ?s = "s\<lparr>pmem := write32 (pmem s) (P + 4 * i) (pde s i)\<rparr>"
  have i: "i < 1024" and P: "page_down P = P" using Cons.prems by (auto simp: data_frame_def)
  have so: "same_outside P s ?s" by (rule write_same_outside [OF P i])
  note w = same_outside_walk [OF so Cons.prems(3)]
  have slot: "slot_shows ?s TMP_VIRT P"
    using Cons.prems(2) w(3) [of TMP_VIRT] TMP_indices(1) by (simp add: slot_shows_def)
  have "\<exists>s'. for_each share_entry is ?s = Some s' \<and> same_outside P ?s s' \<and>
      (\<forall>k < 1024. read32 (pmem s') (P + 4 * k) =
         (if k \<in> set is then pde ?s k else read32 (pmem ?s) (P + 4 * k)))"
    using Cons.prems w(4,5) slot by (intro Cons.IH) auto
  then obtain s' where s': "for_each share_entry is ?s = Some s'" "same_outside P ?s s'"
    "\<And>k. k < 1024 \<Longrightarrow> read32 (pmem s') (P + 4 * k) =
       (if k \<in> set is then pde ?s k else read32 (pmem ?s) (P + 4 * k))" by blast
  have "read32 (pmem s') (P + 4 * k) =
      (if k \<in> set (i # is) then pde s k else read32 (pmem s) (P + 4 * k))" if "k < 1024" for k
    using s'(3) [OF that] w(1) [OF that] that i P Cons.prems(5)
    by (auto simp: wm.rd_wr aligned4_entry)
  moreover have "for_each share_entry (i # is) s = Some s'"
    using share_entry_run [OF as_wfD(1) [OF Cons.prems(1)] Cons.prems(2) i] s'(1) by simp
  ultimately show ?case
    using same_outside_trans [OF so s'(2)] by blast
qed

lemma mm_alloc_ok:
  assumes "as_wf s" "avail (pmm s) \<noteq> {}" "mm_alloc s = (frame, s')"
  shows "frame \<noteq> 0" "frame \<in> avail (pmm s)" "avail (pmm s') = avail (pmm s) - {frame}"
    "page_down frame = frame" "data_frame s frame" "as_wf s'"
    "s' = s\<lparr>pmm := pmm s'\<rparr>"
proof -
  from assms(3) obtain p where p: "pmm_alloc_frame (pmm s) = (frame, p)" "s' = s\<lparr>pmm := p\<rparr>"
    by (auto simp: mm_alloc_def split: prod.splits)
  note wf = as_wfD [OF assms(1)]
  show nz: "frame \<noteq> 0" using fa.alloc_succeeds [OF wf(2) assms(2)] p(1) by simp
  note ok = fa.alloc_ok [OF wf(2) p(1) nz]
  show "frame \<in> avail (pmm s)" "avail (pmm s') = avail (pmm s) - {frame}" using ok p(2) by auto
  show pg: "page_down frame = frame" using avail_page [OF wf(2)] ok by blast
  show "data_frame s frame" using pg ok wf(3,5) by (auto simp: data_frame_def)
  show "s' = s\<lparr>pmm := pmm s'\<rparr>" by (simp add: p(2))
  have "pde s' d = pde s d" for d by (simp add: p(2) pde_def pdir_def)
  then show "as_wf s'"
    using assms(1) ok by (auto simp: as_wf_def tables_ok_def recursive_def table_of_def p(2) pdir_def)
qed

text \<open>Showing a frame from the pool in the scratch slot.\<close>

lemma tmp_map_slot:
  assumes wf: "as_wf s" and P: "data_frame s P" "P \<notin> avail (pmm s)"
    and mem: "present (pde s 1022) \<or> avail (pmm s) \<noteq> {}"
  shows "\<exists>s'. paging_tmp_map P s = Some s' \<and> as_wf s' \<and> cr3 s' = cr3 s \<and> slot_shows s' TMP_VIRT P \<and>
    data_frame s' P \<and> avail (pmm s') \<subseteq> avail (pmm s) \<and> (\<forall>x. page_down x = P \<longrightarrow> pmem s' x = pmem s x) \<and>
    (\<forall>va. dir_index va < 1023 \<longrightarrow> page_down va \<noteq> TMP_VIRT \<longrightarrow> xlate s' va = xlate s va)"
proof -
  have "\<exists>s'. paging_map TMP_VIRT P 2 s = Some s' \<and> map_post TMP_VIRT P 2 s s'"
    using wf mem by (intro paging_map_post) (simp_all add: TMP_indices)
  then obtain s' where s': "paging_map TMP_VIRT P 2 s = Some s'" and "map_post TMP_VIRT P 2 s s'" by blast
  then have post: "as_wf s'" "cr3 s' = cr3 s" "xlate s' TMP_VIRT = Some P"
    "\<And>d. d < 1024 \<Longrightarrow> d \<noteq> 1022 \<Longrightarrow> pde s' d = pde s d" "present (pde s' 1022)"
    "\<And>va. dir_index va < 1023 \<Longrightarrow> page_down va \<noteq> TMP_VIRT \<Longrightarrow> xlate s' va = xlate s va"
    "\<And>x. page_down x \<noteq> pdir s \<Longrightarrow> page_down x \<noteq> table_of s' 1022 \<Longrightarrow> pmem s' x = pmem s x"
    and pool: "if present (pde s 1022) then pmm s' = pmm s \<and> table_of s' 1022 = table_of s 1022
      else table_of s' 1022 \<in> avail (pmm s) \<and> avail (pmm s') = avail (pmm s) - {table_of s' 1022}"
    using P(1) by (auto simp: map_post_def TMP_indices data_frame_def)
  have nt: "table_of s' 1022 \<noteq> P"
    using pool P by (auto simp: data_frame_def split: if_splits)
  have "table_of s' d \<noteq> P" if "d < 1023" "present (pde s' d)" for d
    using P(1) nt post(4) [of d] that by (cases "d = 1022") (auto simp: data_frame_def table_of_def)
  moreover have "pdir s' = pdir s" by (simp add: pdir_def post(2))
  ultimately have "data_frame s' P"
    using P(1) by (simp add: data_frame_def)
  moreover have "pmem s' x = pmem s x" if "page_down x = P" for x
    using that post(7) [of x] P(1) nt by (auto simp: data_frame_def)
  moreover have "avail (pmm s') \<subseteq> avail (pmm s)" using pool by (auto split: if_splits)
  moreover have "slot_shows s' TMP_VIRT P" using post(3) P(1) by (simp add: slot_shows_def TMP_indices data_frame_def)
  ultimately show ?thesis
    using s' post(1,2,6) by (auto simp: paging_tmp_map_def)
qed

text \<open>The indices \<open>paging_new_directory\<close> shares.\<close>

definition shared_index :: "u32 \<Rightarrow> bool" where
  "shared_index d \<longleftrightarrow> d = 0 \<or> 768 \<le> d \<and> d < 1023"

lemma shared_indices:
  "i \<in> set (0 # map of_nat [768 ..< 1023]) \<longleftrightarrow> shared_index i" "distinct (0 # map of_nat [768 ..< 1023] :: u32 list)"
proof -
  have "i \<in> set (map of_nat [768 ..< 1023]) \<longleftrightarrow> 768 \<le> i \<and> i < 1023" for i :: u32
  proof
    assume "768 \<le> i \<and> i < 1023"
    then have "i = of_nat (unat i)" "unat i \<in> set [768 ..< 1023]"
      by (simp_all add: word_less_nat_alt word_le_nat_alt del: upt_rec_numeral)
    then show "i \<in> set (map of_nat [768 ..< 1023])" by (metis imageI set_map)
  qed (auto simp: word_less_nat_alt word_le_nat_alt unat_of_nat simp del: upt_rec_numeral)
  then show "i \<in> set (0 # map of_nat [768 ..< 1023]) \<longleftrightarrow> shared_index i"
    by (simp only: list.set insert_iff shared_index_def)
  show "distinct (0 # map of_nat [768 ..< 1023] :: u32 list)"
    by (auto simp: distinct_map inj_on_def word_unat_eq_iff unat_of_nat simp del: upt_rec_numeral)
qed

lemma for_each_Cons: "for_each f (x # xs) s = Option.bind (f x s) (for_each f xs)"
  by (simp add: Option.bind_def)

lemma zero_slot:
  assumes "slot_shows s TMP_VIRT P" "data_frame s P" "present (pde s 1022)"
  defines "s' \<equiv> s\<lparr>pmem := (\<lambda>x. if page_down x = P then 0 else pmem s x)\<rparr>"
  shows "vmemset s TMP_VIRT 0 4096 = Some s'" "same_outside P s s'"
    "\<And>i. i < 1024 \<Longrightarrow> read32 (pmem s') (P + 4 * i) = 0"
proof -
  have nt: "table_of s 1022 \<noteq> P" using assms(2,3) by (auto simp: data_frame_def)
  show "vmemset s TMP_VIRT 0 4096 = Some s'"
    unfolding s'_def using assms(1,2) nt
    by (intro vmemset_page) (auto simp: slot_shows_def data_frame_def TMP_indices)
  show "same_outside P s s'" by (simp add: same_outside_def s'_def)
  show "\<And>i. i < 1024 \<Longrightarrow> read32 (pmem s') (P + 4 * i) = 0"
    using assms(2) by (simp add: s'_def read32_zero_page data_frame_def)
qed

lemma new_directory_run:
  assumes wf: "as_wf s" and mem: "avail (pmm s) \<noteq> {}"
    and tmp: "present (pde s 1022) \<or> 2 \<le> card (avail (pmm s))"
  shows "\<exists>frame s'. paging_new_directory s = Some (frame, s') \<and>
    frame \<in> avail (pmm s) \<and> frame \<notin> avail (pmm s') \<and> avail (pmm s') \<subseteq> avail (pmm s) \<and>
    as_wf s' \<and> cr3 s' = cr3 s \<and> data_frame s' frame \<and>
    (\<forall>va. dir_index va < 1023 \<longrightarrow> page_down va \<noteq> TMP_VIRT \<longrightarrow> xlate s' va = xlate s va) \<and>
    (\<forall>i < 1024. read32 (pmem s') (frame + 4 * i) =
       (if i = 1023 then frame OR 3 else if shared_index i then pde s' i else 0))"
proof -
  obtain frame sa where al: "mm_alloc s = (frame, sa)" by (cases "mm_alloc s")
  note a = mm_alloc_ok [OF wf mem al]
  obtain p where sas: "sa = s\<lparr>pmm := p\<rparr>" using a(7) by blast
  have sa: "pde sa d = pde s d" "pte sa d t = pte s d t" "table_of sa d = table_of s d" "pdir sa = pdir s" for d t
    using sas by (simp_all add: pde_def pte_def table_of_def pdir_def)
  have tmp': "present (pde sa 1022) \<or> avail (pmm sa) \<noteq> {}"
  proof (cases "present (pde s 1022)")
    case False
    with tmp have "2 \<le> card (avail (pmm s))" by simp
    with a(2,3) have "1 \<le> card (avail (pmm sa))" by simp
    then show ?thesis by fastforce
  qed (simp add: sa)
  have dfa: "data_frame sa frame" using a(5) by (simp add: data_frame_def sa)
  obtain s1 where s1: "paging_tmp_map frame sa = Some s1" "as_wf s1" "cr3 s1 = cr3 sa"
    "slot_shows s1 TMP_VIRT frame" "data_frame s1 frame" "avail (pmm s1) \<subseteq> avail (pmm sa)"
    "\<And>va. dir_index va < 1023 \<Longrightarrow> page_down va \<noteq> TMP_VIRT \<Longrightarrow> xlate s1 va = xlate sa va"
    using tmp_map_slot [OF a(6) dfa _ tmp'] a(3) by auto
  have p1022: "present (pde s1 1022)"
    using s1(4) by (auto simp: slot_shows_def xlate_def Let_def TMP_indices split: if_splits)
  obtain s2 where s2: "vmemset s1 TMP_VIRT 0 4096 = Some s2" "same_outside frame s1 s2"
    "\<And>i. i < 1024 \<Longrightarrow> read32 (pmem s2) (frame + 4 * i) = 0"
    using zero_slot [OF s1(4,5) p1022] by blast
  note w2 = same_outside_walk [OF s2(2) s1(5)]
  have slot2: "slot_shows s2 TMP_VIRT frame"
    using s1(4) w2(3) [of TMP_VIRT] by (simp add: slot_shows_def TMP_indices)
  let ?is = "0 # map of_nat [768 ..< 1023] :: u32 list"
  have lt: "\<forall>i \<in> set ?is. i < 1024"
    unfolding shared_indices(1) Ball_def
    by (auto simp: shared_index_def)
  obtain s4 where s4: "for_each share_entry ?is s2 = Some s4" "same_outside frame s2 s4"
    "\<And>i. i < 1024 \<Longrightarrow> read32 (pmem s4) (frame + 4 * i) = (if shared_index i then pde s2 i else 0)"
    using share_entries [OF w2(5) [THEN iffD2, OF s1(2)] slot2 w2(4) lt shared_indices(2)]
    unfolding shared_indices(1) by (auto simp: s2(3))
  note w4 = same_outside_walk [OF s4(2) w2(4)]
  have slot4: "slot_shows s4 TMP_VIRT frame"
    using slot2 w4(3) [of TMP_VIRT] by (simp add: slot_shows_def TMP_indices)
  let ?s5 = "s4\<lparr>pmem := write32 (pmem s4) (frame + 4 * 1023) (frame OR 3)\<rparr>"
  have w: "vwrite32 s4 (TMP_VIRT + 4 * 1023) (frame OR 1 OR 2) = Some ?s5"
    using slot_access(2) [OF slot4, of 1023] by (simp add: or.assoc)
  have so5: "same_outside frame s4 ?s5" by (rule write_same_outside) (simp_all add: a(4))
  note w5 = same_outside_walk [OF so5 w4(4)]
  have pm: "pmm ?s5 = pmm s1" "cr3 ?s5 = cr3 s1"
    using s2(2) s4(2) by (simp_all add: same_outside_def)
  have ent: "read32 (pmem ?s5) (frame + 4 * i) =
      (if i = 1023 then frame OR 3 else if shared_index i then pde ?s5 i else 0)" if "i < 1024" for i
  proof -
    have "read32 (pmem ?s5) (frame + 4 * i) =
        (if frame + 4 * i = frame + 4 * 1023 then frame OR 3 else read32 (pmem s4) (frame + 4 * i))"
      using wm.rd_wr [OF aligned4_entry(1) [OF a(4), of 1023] aligned4_entry(1) [OF a(4) that]] by simp
    moreover have "frame + 4 * i = frame + 4 * 1023 \<longleftrightarrow> i = 1023"
      using entry_offset_inj [OF that, of 1023] by simp
    ultimately show ?thesis
      using s4(3) [OF that] w4(1) [OF that] w5(1) [OF that] by simp
  qed
  have run: "paging_new_directory s = Some (frame, ?s5)"
  proof -
    obtain s3 where "share_entry 0 s2 = Some s3" "for_each share_entry (map of_nat [768 ..< 1023]) s3 = Some s4"
      using s4(1) by (auto simp: for_each_Cons Option.bind_eq_Some_conv
        simp del: for_each.simps upt_rec_numeral list.map(2))
    then show ?thesis
      using w by (simp add: paging_new_directory_def al s1(1) s2(1) del: upt_rec_numeral list.map(2))
  qed
  have x: "xlate ?s5 va = xlate s va" if "dir_index va < 1023" "page_down va \<noteq> TMP_VIRT" for va
    using that w5(3) w4(3) w2(3) s1(7) sa by (simp add: xlate_def Let_def)
  have sub: "avail (pmm ?s5) \<subseteq> avail (pmm sa)" using pm s1(6) by simp
  have cr: "cr3 ?s5 = cr3 s" using pm(2) s1(3) by (simp add: sas)
  have wf5: "as_wf ?s5" using w5(5) w4(5) w2(5) s1(2) by simp
  show ?thesis
    using a(2,3) sub by (intro exI [of _ frame] exI [of _ ?s5] conjI run wf5 cr w5(4) allI impI x ent) auto
qed


text \<open>What the processor sees once the new directory is loaded.\<close>

lemma new_space_entries:
  assumes df: "data_frame s P" and wf: "as_wf s" and out: "P \<notin> avail (pmm s)"
    and ent: "\<forall>i < 1024. read32 (pmem s) (P + 4 * i) =
       (if i = 1023 then P OR 3 else if shared_index i then pde s i else 0)"
  defines "t \<equiv> paging_switch_directory P s"
  shows "as_wf t"
    "\<And>va. dir_index va < 1023 \<Longrightarrow> xlate t va = (if shared_index (dir_index va) then xlate s va else None)"
proof -
  have P: "page_down P = P" and dir: "pdir t = P" "pmem t = pmem s" "pmm t = pmm s"
    using df by (simp_all add: data_frame_def t_def paging_switch_directory_def pdir_def)
  have pde: "pde t i = (if i = 1023 then P OR 3 else if shared_index i then pde s i else 0)" if "i < 1024" for i
    using ent that by (simp add: pde_def dir)
  have low: "pde t d = (if shared_index d then pde s d else 0)" if "d < 1023" for d
    using pde [of d] that by auto
  have "recursive t" using pde [of 1023] P by (simp add: recursive_def dir)
  moreover have "tables_ok t"
    using wf df
    by (auto simp: tables_ok_def table_of_def low dir as_wf_def data_frame_def split: if_splits)
  ultimately show "as_wf t" using wf out by (simp add: as_wf_def dir)
  show "xlate t va = (if shared_index (dir_index va) then xlate s va else None)" if "dir_index va < 1023" for va
    using low [OF that] by (simp add: xlate_def Let_def pte_def dir)
qed

text \<open>
  C18. With two frames to spare, \<open>paging_new_directory\<close> does not fault and returns a frame of the
  pool, now taken. The running address space stays well formed and translates as before outside
  its scratch page. The new directory, once loaded into \<open>cr3\<close>, is itself a well-formed address
  space: it translates every kernel address (entries 0 and 768 to 1022) exactly as the running
  space does, and it maps no user address (entries 1 to 767) at all.
\<close>

theorem paging_new_directory_correct:
  assumes "as_wf s" and "2 \<le> card (avail (pmm s))"
  shows "\<exists>frame s'. paging_new_directory s = Some (frame, s') \<and>
    frame \<in> avail (pmm s) \<and> frame \<notin> avail (pmm s') \<and>
    as_wf s' \<and> cr3 s' = cr3 s \<and>
    (\<forall>va. dir_index va < 1023 \<longrightarrow> page_down va \<noteq> TMP_VIRT \<longrightarrow> xlate s' va = xlate s va) \<and>
    as_wf (paging_switch_directory frame s') \<and>
    (\<forall>va. dir_index va < 1023 \<longrightarrow> xlate (paging_switch_directory frame s') va =
       (if shared_index (dir_index va) then xlate s' va else None))"
proof -
  have "avail (pmm s) \<noteq> {}" using assms(2) by auto
  with new_directory_run [OF assms(1)] assms(2)
  obtain frame s' where r: "paging_new_directory s = Some (frame, s')"
    "frame \<in> avail (pmm s)" "frame \<notin> avail (pmm s')" "as_wf s'" "cr3 s' = cr3 s" "data_frame s' frame"
    "\<forall>va. dir_index va < 1023 \<longrightarrow> page_down va \<noteq> TMP_VIRT \<longrightarrow> xlate s' va = xlate s va"
    "\<forall>i < 1024. read32 (pmem s') (frame + 4 * i) =
       (if i = 1023 then frame OR 3 else if shared_index i then pde s' i else 0)" by blast
  with new_space_entries [OF r(6,4,3,8)] show ?thesis by blast
qed

lemma mm_boot_pool: "44 \<le> card (avail (pmm mm_boot))"
proof -
  have "pmm_inv pmm_sample" by (rule pmm_sample_inv)
  have inj: "inj_on (\<lambda>n. of_nat n * 4096 :: u32) {256 ..< 300}"
    by (auto simp: inj_on_def word_unat_eq_iff unat_word_ariths unat_of_nat)
  have "(\<lambda>n. of_nat n * 4096 :: u32) ` {256 ..< 300} \<subseteq> avail pmm_sample"
  proof
    fix a assume "a \<in> (\<lambda>n. of_nat n * 4096 :: u32) ` {256 ..< 300}"
    then obtain n :: nat where "a = of_nat n * 4096" "256 \<le> n" "n < 300" by auto
    then show "a \<in> avail pmm_sample"
      unfolding pmm_sample_avail
      by (intro exI [of _ "of_nat n"]) (simp add: word_le_nat_alt word_less_nat_alt unat_of_nat)
  qed
  then have "card {256 ..< 300 :: nat} \<le> card (avail pmm_sample)"
    using card_image [OF inj] card_mono [of "avail pmm_sample"] finite by metis
  then show ?thesis using mm_boot_facts(2) by simp
qed

lemma mm_boot_frames: "2 \<le> card (avail (pmm mm_boot))"
  using mm_boot_pool by simp

theorem paging_new_directory_correct_witness:
  "\<exists>frame s'. paging_new_directory mm_boot = Some (frame, s') \<and>
     xlate (paging_switch_directory frame s') 0x40000000 = None"
proof -
  have "dir_index 0x40000000 = 256" by (simp add: dir_index_def)
  then show ?thesis
    using paging_new_directory_correct [OF mm_boot_facts(1) mm_boot_frames]
    by (auto simp: shared_index_def)
qed

subsection \<open>Running out of frames\<close>

text \<open>
  C19. \<open>paging_map\<close> does not look at the result of \<open>pmm_alloc_frame\<close>. With the pool empty and the
  page table missing it still returns, with no sign of failure: the directory entry now names
  physical page 0 as the page table, and that page, which the boot loader and the BIOS own, is
  overwritten with the new page table entry and zeros.
\<close>

theorem paging_map_out_of_memory:
  assumes "as_wf s" and "dir_index virt < 1023" and "\<not> present (pde s (dir_index virt))"
    and "avail (pmm s) = {}" and "data_frame s 0"
  shows "\<exists>s'. paging_map virt phys flags s = Some s' \<and> as_wf s' \<and>
    present (pde s' (dir_index virt)) \<and> table_of s' (dir_index virt) = 0 \<and>
    (\<forall>t < 1024. read32 (pmem s') (4 * t) =
       (if t = table_index virt then page_down phys OR flags OR 1 else 0))"
proof -
  let ?d = "dir_index virt"
  obtain frame sa where al: "mm_alloc s = (frame, sa)" by (cases "mm_alloc s")
  have f0: "frame = 0" and sa: "sa = s"
    using fa.alloc_fails_iff [OF as_wfD(2) [OF assms(1)]] fa.alloc_oom [OF as_wfD(2) [OF assms(1)]] al assms(4)
    by (auto simp: mm_alloc_def split: prod.splits)
  have pool: "0 \<notin> avail (pmm sa)" "avail (pmm sa) \<subseteq> avail (pmm s)" using assms(4) sa by auto
  have fresh: "0 \<noteq> pdir s" "\<And>d'. d' < 1023 \<Longrightarrow> present (pde s d') \<Longrightarrow> table_of s d' \<noteq> 0"
    using assms(5) by (auto simp: data_frame_def)
  note E = ensure_table_frame [OF assms(1-3) al [unfolded f0] _ _ pool fresh]
  obtain s1 where s1: "s1 = zero_table (set_pde sa ?d (0 OR 1 OR 2)) ?d" by blast
  have wf1: "ensure_table ?d s = Some s1" "as_wf s1" "pde s1 ?d = 3" "table_of s1 ?d = 0"
    "\<And>t. t < 1024 \<Longrightarrow> pte s1 ?d t = 0"
    using E as_wfD(2) [OF assms(1)] sa by (simp_all add: s1)
  have p1: "present (pde s1 ?d)" by (simp add: wf1(3))
  let ?s' = "install s1 ?d (table_index virt) phys flags"
  note I = install_effects [OF wf1(2) assms(2) table_index_less [of virt] p1]
  have "pde ?s' ?d = 3 OR (flags AND 4)" using I(3) [of ?d] assms(2) wf1(3) by simp
  then have tab: "present (pde ?s' ?d)" "table_of ?s' ?d = 0"
    by (simp_all add: table_of_def page_down_and_small)
  have "read32 (pmem ?s') (4 * t) = (if t = table_index virt then page_down phys OR flags OR 1 else 0)"
    if "t < 1024" for t
    using I(4) [OF assms(2) that p1, of phys flags] wf1(5) [OF that]
    unfolding pte_table [of ?s'] tab(2) by simp
  then show ?thesis
    using paging_map_steps [OF assms(1,2) wf1(1,2) p1] I(6) tab by blast
qed

text \<open>A pool with nothing in it: every frame is marked used.\<close>

definition pmm_full :: pmm_state where
  "pmm_full = \<lparr>frame_bitmap = (\<lambda>_. 0xFFFFFFFF), total_frames = 300, last_alloc = 0\<rparr>"

definition mm_full :: mm_state where
  "mm_full = paging_initialize 0x80000 0x81000 \<lparr>pmm = pmm_full, pmem = (\<lambda>_. 0), cr3 = 0\<rparr>"

lemma mm_full_facts:
  "as_wf mm_full" "avail (pmm mm_full) = {}" "\<not> present (pde mm_full 256)" "data_frame mm_full 0"
proof -
  have used: "frame_test f pmm_full" for f
  proof -
    have "(0xFFFFFFFF :: u32) = - 1" by simp
    moreover have "unat (f mod 32) < 32" by (simp add: unat_mod)
    ultimately have "bit (0xFFFFFFFF :: u32) (unat (f mod 32))"
      by (simp only: bit_minus_1_iff) (simp add: possible_bit_word)
    then show ?thesis
      unfolding frame_test_def pmm_full_def pmm_state.simps bit_iff_and_push_bit_not_eq_0 .
  qed
  have none: "avail pmm_full = {}" "pmm_inv pmm_full"
    by (simp_all add: avail_def free_set_def used pmm_inv_def) (simp_all add: pmm_full_def)
  note i = initialize_entries [of "0x80000" "0x81000" _ "\<lparr>pmm = pmm_full, pmem = (\<lambda>_. 0), cr3 = 0\<rparr>",
      folded mm_full_def]
  show "as_wf mm_full"
    unfolding mm_full_def
    by (rule conjunct1 [OF initialize_post]) (simp_all add: page_down_def none)
  show "avail (pmm mm_full) = {}" using i(2) [of 0] none by (simp add: page_down_def)
  show "\<not> present (pde mm_full 256)" using i(3) [of 256] by (simp add: page_down_def)
  have "table_of mm_full d \<noteq> 0" if "d < 1023" "present (pde mm_full d)" for d
    using that i(3) [of d] by (auto simp: page_down_def table_of_def split: if_splits)
  then show "data_frame mm_full 0"
    using i(1) [of 0] by (auto simp: data_frame_def page_down_def)
qed

theorem paging_map_out_of_memory_witness:
  "\<exists>s'. paging_map 0x40000000 0x110000 6 mm_full = Some s' \<and> present (pde s' 256) \<and> table_of s' 256 = 0"
proof -
  have "dir_index 0x40000000 = 256" by (simp add: dir_index_def)
  then show ?thesis
    using paging_map_out_of_memory [of mm_full "0x40000000" "0x110000" 6] mm_full_facts by auto
qed

end
