(* ===== verification/Space.thy ===== *)
theory Space
  imports Paging
begin

text \<open>
  Ownership of frames in an address space.  The callers of \<open>paging.c\<close> (the kernel heap, the ELF
  loader, \<open>sbrk\<close>, \<open>fork\<close> and \<open>execve\<close>) take a frame from \<open>pmm.c\<close>, map it, fill it, and later
  unmap and free it.  This theory has the invariant these operations keep, that no frame is
  mapped twice or mapped while free, and one lemma per step for the callers to chain.
\<close>

subsection \<open>Private pages\<close>

text \<open>
  The pages outside the 4 MiB identity map, the scratch slots and the recursive window: user
  space (entries 1 to 767) and the kernel heap (from entry 768).
\<close>

definition private_page :: "u32 \<Rightarrow> bool" where
  "private_page va \<longleftrightarrow> 1 \<le> dir_index va \<and> dir_index va < 1022"

definition owns :: "mm_state \<Rightarrow> bool" where
  "owns s \<longleftrightarrow> as_wf s \<and>
     (\<forall>va pa. private_page va \<longrightarrow> xlate s va = Some pa \<longrightarrow>
        page_down pa \<in> managed (pmm s) \<and> page_down pa \<notin> avail (pmm s) \<and> data_frame s (page_down pa)) \<and>
     (\<forall>va vb pa pb. private_page va \<longrightarrow> private_page vb \<longrightarrow> xlate s va = Some pa \<longrightarrow>
        xlate s vb = Some pb \<longrightarrow> page_down pa = page_down pb \<longrightarrow> page_down va = page_down vb)"

lemma ownsD:
  assumes "owns s"
  shows "as_wf s"
    "\<And>va pa. private_page va \<Longrightarrow> xlate s va = Some pa \<Longrightarrow> page_down pa \<in> managed (pmm s)"
    "\<And>va pa. private_page va \<Longrightarrow> xlate s va = Some pa \<Longrightarrow> page_down pa \<notin> avail (pmm s)"
    "\<And>va pa. private_page va \<Longrightarrow> xlate s va = Some pa \<Longrightarrow> data_frame s (page_down pa)"
    "\<And>va vb pa pb. private_page va \<Longrightarrow> private_page vb \<Longrightarrow> xlate s va = Some pa \<Longrightarrow>
        xlate s vb = Some pb \<Longrightarrow> page_down pa = page_down pb \<Longrightarrow> page_down va = page_down vb"
  using assms unfolding owns_def by blast+

lemma private_page_dir: "private_page va \<Longrightarrow> dir_index va < 1023"
  unfolding private_page_def by (auto elim: less_trans)

lemma private_page_cong: "page_down va = page_down vb \<Longrightarrow> private_page va = private_page vb"
  by (simp add: private_page_def page_eq_iff)

lemma pool_managed: "pmm_inv p \<Longrightarrow> avail p \<subseteq> managed p"
  by (rule fa.pool_managed)

text \<open>Physical memory a mapping step does not touch: data frames that were not in the pool.\<close>

definition keeps_data :: "mm_state \<Rightarrow> mm_state \<Rightarrow> bool" where
  "keeps_data s s' \<longleftrightarrow>
     (\<forall>x. data_frame s (page_down x) \<longrightarrow> page_down x \<notin> avail (pmm s) \<longrightarrow>
        pmem s' x = pmem s x \<and> data_frame s' (page_down x) \<and> page_down x \<notin> avail (pmm s'))"

lemma keeps_data_refl [simp]: "keeps_data s s"
  by (simp add: keeps_data_def)

lemma keeps_data_trans: "keeps_data s s' \<Longrightarrow> keeps_data s' s'' \<Longrightarrow> keeps_data s s''"
  by (simp add: keeps_data_def)

subsection \<open>Writes to data frames\<close>

text \<open>Memory changes only in frames that are neither the directory nor a page table.\<close>

definition data_only :: "mm_state \<Rightarrow> mm_state \<Rightarrow> bool" where
  "data_only s s' \<longleftrightarrow> pmm s' = pmm s \<and> cr3 s' = cr3 s \<and>
     (\<forall>x. pmem s' x \<noteq> pmem s x \<longrightarrow> data_frame s (page_down x))"

lemma data_only_refl [simp]: "data_only s s"
  by (simp add: data_only_def)

lemma data_only_pde: "data_only s s' \<Longrightarrow> d < 1024 \<Longrightarrow> pde s' d = pde s d"
  by (rule pde_cong) (auto simp: data_only_def data_frame_def)

lemma data_only_tables:
  assumes "data_only s s'"
  shows "pdir s' = pdir s" "d < 1024 \<Longrightarrow> table_of s' d = table_of s d"
    "d < 1023 \<Longrightarrow> present (pde s d) \<Longrightarrow> t < 1024 \<Longrightarrow> pte s' d t = pte s d t"
proof -
  show "pdir s' = pdir s" using assms by (simp add: data_only_def pdir_def)
  show "table_of s' d = table_of s d" if "d < 1024"
    using data_only_pde [OF assms that] by (simp add: table_of_def)
  show "pte s' d t = pte s d t" if h: "d < 1023" "present (pde s d)" "t < 1024"
  proof (rule pte_cong)
    show "pde s' d = pde s d" using data_only_pde [OF assms] h(1) by simp
    show "pmem s' x = pmem s x" if "page_down x = page_down (pde s d)" for x
    proof (rule ccontr)
      assume "pmem s' x \<noteq> pmem s x"
      then have "data_frame s (page_down x)" using assms by (simp add: data_only_def)
      then have "table_of s d \<noteq> page_down x" using h by (simp add: data_frame_def)
      with that show False by (simp add: table_of_def)
    qed
  qed (rule h(3))
qed

lemma data_only_walk:
  assumes "data_only s s'" "dir_index va < 1023"
  shows "xlate s' va = xlate s va" "user_accessible s' va = user_accessible s va"
proof -
  have e: "pde s' (dir_index va) = pde s (dir_index va)"
    using data_only_pde [OF assms(1)] assms(2) by simp
  have p: "present (pde s (dir_index va)) \<Longrightarrow>
      pte s' (dir_index va) (table_index va) = pte s (dir_index va) (table_index va)"
    using data_only_tables(3) [OF assms(1,2)] table_index_less by simp
  show "xlate s' va = xlate s va"
    using e p by (cases "present (pde s (dir_index va))") (simp_all add: xlate_def Let_def)
  show "user_accessible s' va = user_accessible s va"
    using e p by (cases "present (pde s (dir_index va))") (simp_all add: user_accessible_def Let_def)
qed

lemma data_only_frames:
  assumes "data_only s s'"
  shows "data_frame s' P = data_frame s P" "as_wf s' = as_wf s" "owns s' = owns s"
proof -
  have e: "pde s' d = pde s d" if "d < 1024" for d using data_only_pde [OF assms that] .
  have T: "table_of s' d = table_of s d" if "d < 1024" for d using data_only_tables(2) [OF assms that] .
  note dir = data_only_tables(1) [OF assms]
  have p: "pmm s' = pmm s" "cr3 s' = cr3 s" using assms by (simp_all add: data_only_def)
  show df: "data_frame s' P = data_frame s P" for P
    by (auto simp: data_frame_def dir e T)
  show wf: "as_wf s' = as_wf s"
    using e T by (intro as_wf_cong) (simp_all add: p)
  have x: "private_page va \<Longrightarrow> xlate s' va = xlate s va" for va
    using data_only_walk(1) [OF assms private_page_dir] .
  show "owns s' = owns s"
    by (simp add: owns_def wf df p x cong: imp_cong)
qed

lemma data_only_trans: "data_only s s' \<Longrightarrow> data_only s' s'' \<Longrightarrow> data_only s s''"
  using data_only_frames(1) unfolding data_only_def by metis

lemma vwrite8_data:
  assumes "xlate s va = Some pa" "data_frame s (page_down pa)"
  shows "vwrite8 s va b = Some (s\<lparr>pmem := (pmem s)(pa := b)\<rparr>)" "data_only s (s\<lparr>pmem := (pmem s)(pa := b)\<rparr>)"
  using assms by (simp_all add: vwrite8_def data_only_def)

text \<open>
  \<open>memcpy\<close> between two mapped ranges: \<open>D\<close> and \<open>S\<close> are the physical addresses of the bytes.
\<close>

lemma vmemcpy_run:
  assumes "\<And>k. k < n \<Longrightarrow> dir_index (dst + of_nat k) < 1023 \<and> xlate s (dst + of_nat k) = Some (D k) \<and>
      data_frame s (page_down (D k))"
    and "\<And>k. k < n \<Longrightarrow> dir_index (src + of_nat k) < 1023 \<and> xlate s (src + of_nat k) = Some (S k)"
    and "inj_on D {..<n}" "\<And>j k. j < n \<Longrightarrow> k < n \<Longrightarrow> D j \<noteq> S k"
  shows "\<exists>s'. vmemcpy s dst src n = Some s' \<and> data_only s s' \<and> (\<forall>k < n. pmem s' (D k) = pmem s (S k)) \<and>
    (\<forall>x. x \<notin> D ` {..<n} \<longrightarrow> pmem s' x = pmem s x)"
  using assms
proof (induction n arbitrary: s dst src D S)
  case (Suc n)
  let ?s = "s\<lparr>pmem := (pmem s)(D 0 := pmem s (S 0))\<rparr>"
  have d0: "xlate s dst = Some (D 0)" "data_frame s (page_down (D 0))" "xlate s src = Some (S 0)"
    using Suc.prems(1,2) [of 0] by simp_all
  note W = vwrite8_data [OF d0(1,2), of "pmem s (S 0)"]
  have shift: "a + 1 + of_nat k = a + of_nat (Suc k)" for a :: u32 and k by simp
  have inj: "inj_on (\<lambda>k. D (Suc k)) {..<n}" using Suc.prems(3) by (auto simp: inj_on_def)
  have "\<exists>s'. vmemcpy ?s (dst + 1) (src + 1) n = Some s' \<and> data_only ?s s' \<and>
      (\<forall>k < n. pmem s' (D (Suc k)) = pmem ?s (S (Suc k))) \<and>
      (\<forall>x. x \<notin> (\<lambda>k. D (Suc k)) ` {..<n} \<longrightarrow> pmem s' x = pmem ?s x)"
  proof (rule Suc.IH [OF _ _ inj])
    fix k assume "k < n"
    then show "dir_index (dst + 1 + of_nat k) < 1023 \<and> xlate ?s (dst + 1 + of_nat k) = Some (D (Suc k)) \<and>
        data_frame ?s (page_down (D (Suc k)))"
      using Suc.prems(1) [of "Suc k"] data_only_walk(1) [OF W(2)] data_only_frames(1) [OF W(2)]
      unfolding shift by simp
    from \<open>k < n\<close> show "dir_index (src + 1 + of_nat k) < 1023 \<and> xlate ?s (src + 1 + of_nat k) = Some (S (Suc k))"
      using Suc.prems(2) [of "Suc k"] data_only_walk(1) [OF W(2)] unfolding shift by simp
  qed (use Suc.prems(4) in auto)
  then obtain s' where s': "vmemcpy ?s (dst + 1) (src + 1) n = Some s'" "data_only ?s s'"
    "\<And>k. k < n \<Longrightarrow> pmem s' (D (Suc k)) = pmem ?s (S (Suc k))"
    "\<And>x. x \<notin> (\<lambda>k. D (Suc k)) ` {..<n} \<Longrightarrow> pmem s' x = pmem ?s x" by blast
  have "vmemcpy s dst src (Suc n) = Some s'"
    using W(1) d0(3) s'(1) by (simp add: vread8_def)
  moreover have "pmem s' (D k) = pmem s (S k)" if "k < Suc n" for k
  proof (cases k)
    case 0
    have "D 0 \<notin> (\<lambda>k. D (Suc k)) ` {..<n}" using Suc.prems(3) by (auto simp: inj_on_def)
    then show ?thesis using s'(4) 0 by simp
  next
    case (Suc j)
    then show ?thesis using s'(3) [of j] Suc.prems(4) [of 0 k] that by auto
  qed
  moreover have "pmem s' x = pmem s x" if "x \<notin> D ` {..<Suc n}" for x
  proof -
    have "x \<noteq> D 0" "x \<notin> (\<lambda>k. D (Suc k)) ` {..<n}" using that by auto
    then show ?thesis using s'(4) [of x] by simp
  qed
  ultimately show ?case using data_only_trans [OF W(2) s'(2)] by blast
qed simp

subsection \<open>Mapping a fresh frame\<close>

text \<open>What one allocate-and-map step does to an address space.\<close>

definition page_added :: "u32 \<Rightarrow> u32 \<Rightarrow> u32 \<Rightarrow> mm_state \<Rightarrow> mm_state \<Rightarrow> bool" where
  "page_added va flags frame s s' \<longleftrightarrow>
     owns s' \<and> cr3 s' = cr3 s \<and> managed (pmm s') = managed (pmm s) \<and>
     frame \<in> avail (pmm s) \<and> frame \<noteq> 0 \<and> avail (pmm s') \<subseteq> avail (pmm s) - {frame} \<and>
     card (avail (pmm s)) \<le> card (avail (pmm s')) + 2 \<and>
     (\<forall>vb. page_down vb = page_down va \<longrightarrow> xlate s' vb = Some (frame + (vb AND 0xFFF))) \<and>
     (bit flags 2 \<longrightarrow> (\<forall>vb. page_down vb = page_down va \<longrightarrow> user_accessible s' vb)) \<and>
     (\<forall>vb. dir_index vb < 1023 \<longrightarrow> page_down vb \<noteq> page_down va \<longrightarrow> xlate s' vb = xlate s vb) \<and>
     (\<forall>vb. dir_index vb < 1023 \<longrightarrow> page_down vb \<noteq> page_down va \<longrightarrow> user_accessible s vb \<longrightarrow> user_accessible s' vb) \<and>
     data_frame s' frame \<and> keeps_data s s'"

lemma page_addedD:
  assumes "page_added va flags frame s s'"
  shows "owns s'" "cr3 s' = cr3 s" "managed (pmm s') = managed (pmm s)" "frame \<in> avail (pmm s)" "frame \<noteq> 0"
    "avail (pmm s') \<subseteq> avail (pmm s) - {frame}" "card (avail (pmm s)) \<le> card (avail (pmm s')) + 2"
    "\<And>vb. page_down vb = page_down va \<Longrightarrow> xlate s' vb = Some (frame + (vb AND 0xFFF))"
    "\<And>vb. bit flags 2 \<Longrightarrow> page_down vb = page_down va \<Longrightarrow> user_accessible s' vb"
    "\<And>vb. dir_index vb < 1023 \<Longrightarrow> page_down vb \<noteq> page_down va \<Longrightarrow> xlate s' vb = xlate s vb"
    "data_frame s' frame" "keeps_data s s'"
    "\<And>vb. dir_index vb < 1023 \<Longrightarrow> page_down vb \<noteq> page_down va \<Longrightarrow> user_accessible s vb \<Longrightarrow> user_accessible s' vb"
  using assms unfolding page_added_def by blast+

lemma user_accessible_page:
  "page_down va = page_down vb \<Longrightarrow> user_accessible s va = user_accessible s vb"
  by (simp add: user_accessible_def page_eq_iff)

lemma finite_avail [simp]: "finite (avail p)"
  by (rule finite)

lemma data_frame_map:
  assumes "map_post va phys fl s s'" "data_frame s P" "P \<notin> avail (pmm s)" "dir_index va < 1023"
  shows "data_frame s' P" "P \<notin> avail (pmm s')" "\<And>x. page_down x = P \<Longrightarrow> pmem s' x = pmem s x"
proof -
  have pool: "if present (pde s (dir_index va)) then pmm s' = pmm s \<and> table_of s' (dir_index va) = table_of s (dir_index va)
      else table_of s' (dir_index va) \<in> avail (pmm s) \<and>
        avail (pmm s') = avail (pmm s) - {table_of s' (dir_index va)}"
    and cr: "cr3 s' = cr3 s"
    and others: "\<And>d. d < 1024 \<Longrightarrow> d \<noteq> dir_index va \<Longrightarrow> pde s' d = pde s d"
    and mem: "\<And>x. page_down x \<noteq> pdir s \<Longrightarrow> page_down x \<noteq> table_of s' (dir_index va) \<Longrightarrow> pmem s' x = pmem s x"
    using assms(1) unfolding map_post_def by blast+
  have P: "page_down P = P" "P \<noteq> pdir s" "\<And>d. d < 1023 \<Longrightarrow> present (pde s d) \<Longrightarrow> table_of s d \<noteq> P"
    using assms(2) by (simp_all add: data_frame_def)
  have ns: "table_of s' (dir_index va) \<noteq> P"
    using pool P(3) [OF assms(4)] assms(3) by (auto split: if_splits)
  have "table_of s' d \<noteq> P" if "d < 1023" "present (pde s' d)" for d
    using others [of d] P(3) [of d] ns that by (cases "d = dir_index va") (auto simp: table_of_def)
  moreover have "pdir s' = pdir s" by (simp add: pdir_def cr)
  ultimately show "data_frame s' P"
    using P(1,2) by (simp add: data_frame_def)
  show "P \<notin> avail (pmm s')" using pool assms(3) by (auto split: if_splits)
  show "pmem s' x = pmem s x" if "page_down x = P" for x
    using mem [of x] P(2) ns that by simp
qed

lemma mm_alloc_managed:
  assumes "as_wf s" "mm_alloc s = (frame, s')" "frame \<noteq> 0"
  shows "managed (pmm s') = managed (pmm s)"
  using fa.alloc_ok [OF as_wfD(2) [OF assms(1)] _ assms(3)] assms(2)
  by (auto simp: mm_alloc_def split: prod.splits)

lemma alloc_walk:
  assumes "s' = s\<lparr>pmm := p\<rparr>"
  shows "pde s' = pde s" "pte s' = pte s" "table_of s' = table_of s" "pdir s' = pdir s" "xlate s' = xlate s"
    "user_accessible s' = user_accessible s"
  by (auto simp: assms fun_eq_iff pde_def pte_def table_of_def pdir_def xlate_def Let_def user_accessible_def)

text \<open>
  The step \<open>frame = pmm_alloc_frame(); paging_map(va, frame, flags)\<close> on a private page, with the
  two frames it may need in the pool.
\<close>

lemma alloc_map_step:
  assumes ow: "owns s" and pr: "private_page va" and fl: "flags AND NOT 0xFFF = 0"
    and mem: "2 \<le> card (avail (pmm s))"
  shows "\<exists>frame sa s'. mm_alloc s = (frame, sa) \<and> paging_map va frame flags sa = Some s' \<and>
    page_added va flags frame s s'"
proof -
  note wf = ownsD(1) [OF ow] and d = private_page_dir [OF pr]
  obtain frame sa where al: "mm_alloc s = (frame, sa)" by (cases "mm_alloc s")
  have ne: "avail (pmm s) \<noteq> {}" using mem by auto
  note a = mm_alloc_ok [OF wf ne al]
  obtain p where sas: "sa = s\<lparr>pmm := p\<rparr>" using a(7) by blast
  note W = alloc_walk [OF sas]
  have ca: "card (avail (pmm sa)) = card (avail (pmm s)) - 1" using a(2,3) by simp
  then have "avail (pmm sa) \<noteq> {}" using mem by auto
  then obtain s' where s': "paging_map va frame flags sa = Some s'" and post: "map_post va frame flags sa s'"
    using paging_map_post [OF a(6) d fl] by blast
  have df: "data_frame sa frame" "frame \<notin> avail (pmm sa)"
    using a(3,5) by (simp_all add: data_frame_def W)
  note F = data_frame_map [OF post df d]
  have x: "xlate s' va = Some (frame OR (va AND 0xFFF))"
    "\<And>vb. dir_index vb < 1023 \<Longrightarrow> page_down vb \<noteq> page_down va \<Longrightarrow> xlate s' vb = xlate s vb"
    and uk: "\<And>vb. dir_index vb < 1023 \<Longrightarrow> page_down vb \<noteq> page_down va \<Longrightarrow> user_accessible s vb \<Longrightarrow> user_accessible s' vb"
    and wf': "as_wf s'" "cr3 s' = cr3 s" "managed (pmm s') = managed (pmm s)"
    and pv: "pte s' (dir_index va) (table_index va) = page_down frame OR flags OR 1"
      "present (pde s' (dir_index va))" "bit flags 2 \<longrightarrow> bit (pde s' (dir_index va)) 2"
    and pool: "avail (pmm s') \<subseteq> avail (pmm sa)" "card (avail (pmm sa)) \<le> card (avail (pmm s')) + 1"
    using post a(4) W mm_alloc_managed [OF wf al a(1)]
    by (auto simp: map_post_def sas card_Diff_singleton_if split: if_splits)
  have xp: "xlate s' vb = Some (frame + (vb AND 0xFFF))" if "page_down vb = page_down va" for vb
    using xlate_same_page [OF x(1) that [symmetric]] a(4) page_down_offset
    by (simp add: page_down_and_small)
  have ua: "user_accessible s' vb" if "bit flags 2" "page_down vb = page_down va" for vb
    using that pv user_accessible_page [OF that(2)]
    by (simp add: user_accessible_def bit_or_iff)
  have kd: "keeps_data s s'"
    unfolding keeps_data_def
  proof (intro allI impI)
    fix x assume h: "data_frame s (page_down x)" "page_down x \<notin> avail (pmm s)"
    then have "data_frame sa (page_down x)" "page_down x \<notin> avail (pmm sa)"
      using a(3) by (simp_all add: data_frame_def W)
    from data_frame_map [OF post this d]
    show "pmem s' x = pmem s x \<and> data_frame s' (page_down x) \<and> page_down x \<notin> avail (pmm s')"
      by (simp add: sas)
  qed
  have fr: "page_down (frame + (vb AND 0xFFF)) = frame" for vb
    by (rule page_down_offset(1) [OF a(4) unat_offset])
  have old: "page_down pb = frame \<and> page_down vb = page_down va \<or>
      page_down vb \<noteq> page_down va \<and> xlate s vb = Some pb"
    if "private_page vb" "xlate s' vb = Some pb" for vb pb
    using that xp [of vb] x(2) [OF private_page_dir, of vb] fr
    by (cases "page_down vb = page_down va") auto
  have keep: "data_frame s' (page_down pb) \<and> page_down pb \<notin> avail (pmm s')"
    if "private_page vb" "xlate s vb = Some pb" for vb pb
    using kd ownsD(3,4) [OF ow that] by (simp add: keeps_data_def)
  have fm: "frame \<in> managed (pmm s)" "frame \<notin> avail (pmm s')"
    using a(2) pool(1) df(2) pool_managed [OF as_wfD(2) [OF wf]] by auto
  have "owns s'"
    unfolding owns_def
  proof (intro conjI allI impI)
    fix vb pb assume h: "private_page vb" "xlate s' vb = Some pb"
    from old [OF h] keep [OF h(1)] ownsD(2) [OF ow h(1)] fm F(1) wf'(3)
    show "page_down pb \<in> managed (pmm s')" "page_down pb \<notin> avail (pmm s')" "data_frame s' (page_down pb)"
      by auto
  next
    fix vb vc pb pc assume h: "private_page vb" "private_page vc" "xlate s' vb = Some pb"
      "xlate s' vc = Some pc" "page_down pb = page_down pc"
    show "page_down vb = page_down vc"
      using old [OF h(1,3)] old [OF h(2,4)] ownsD(3) [OF ow h(1)] ownsD(3) [OF ow h(2)] a(2) h(5)
        ownsD(5) [OF ow h(1,2)] by metis
  qed (rule wf'(1))
  then show ?thesis
    unfolding page_added_def
    using al s' wf' a xp ua uk x(2) F(1) kd pool ca by auto
qed

text \<open>Filling the new page through its mapping keeps all of this.\<close>

lemma page_added_fill:
  assumes "page_added va flags frame s s'" "page_down va = va" "dir_index va < 1023"
  shows "\<exists>s''. vmemset s' va b 4096 = Some s'' \<and> page_added va flags frame s s'' \<and>
    (\<forall>x. page_down x = frame \<longrightarrow> pmem s'' x = b)"
proof -
  note A = page_addedD [OF assms(1)]
  let ?s = "s'\<lparr>pmem := (\<lambda>x. if page_down x = frame then b else pmem s' x)\<rparr>"
  have fr: "page_down frame = frame" "frame \<noteq> pdir s'" "\<And>d. d < 1023 \<Longrightarrow> present (pde s' d) \<Longrightarrow> table_of s' d \<noteq> frame"
    using A(11) by (simp_all add: data_frame_def)
  have x: "xlate s' va = Some frame"
    using A(8) [of va] page_down_aligned [of va] assms(2) by simp
  then have "present (pde s' (dir_index va))" by (auto simp: xlate_def Let_def split: if_splits)
  then have "frame \<noteq> table_of s' (dir_index va)" using fr(3) [OF assms(3)] by auto
  then have run: "vmemset s' va b 4096 = Some ?s"
    using x fr(2) assms(2) by (intro vmemset_page) auto
  have only: "data_only s' ?s" using A(11) by (simp add: data_only_def)
  note W = data_only_walk [OF only] and F = data_only_frames [OF only]
  have dir: "dir_index vb < 1023" if "page_down vb = page_down va" for vb
    using that assms(3) by (simp add: page_eq_iff)
  have "keeps_data s ?s"
    using A(4,12) F(1) by (auto simp: keeps_data_def)
  then have "page_added va flags frame s ?s"
    unfolding page_added_def
    using A(1-8) A(9,10,11,13) W F dir by auto
  with run show ?thesis by auto
qed

subsection \<open>Unmapping a page and freeing its frame\<close>

definition page_removed :: "u32 \<Rightarrow> u32 \<Rightarrow> mm_state \<Rightarrow> mm_state \<Rightarrow> bool" where
  "page_removed va frame s s' \<longleftrightarrow>
     owns s' \<and> cr3 s' = cr3 s \<and> managed (pmm s') = managed (pmm s) \<and>
     frame \<notin> avail (pmm s) \<and> avail (pmm s') = insert frame (avail (pmm s)) \<and>
     (\<forall>vb. page_down vb = page_down va \<longrightarrow> xlate s' vb = None) \<and>
     (\<forall>vb. dir_index vb < 1023 \<longrightarrow> page_down vb \<noteq> page_down va \<longrightarrow> xlate s' vb = xlate s vb) \<and>
     (\<forall>x. data_frame s (page_down x) \<longrightarrow> pmem s' x = pmem s x)"

lemma xlate_None_page:
  assumes "xlate s va = None" "page_down vb = page_down va"
  shows "xlate s vb = None"
  using assms by (auto simp: xlate_def Let_def page_eq_iff split: if_splits)

lemma unmap_free_step:
  assumes ow: "owns s" and pr: "private_page va" and x: "xlate s va = Some pa"
  shows "\<exists>s1. paging_unmap va s = Some s1 \<and> page_removed va (page_down pa) s (mm_free (page_down pa) s1)"
proof -
  note wf = ownsD(1) [OF ow] and d = private_page_dir [OF pr]
  obtain s1 where s1: "paging_unmap va s = Some s1" "as_wf s1" "cr3 s1 = cr3 s" "pmm s1 = pmm s"
    "xlate s1 va = None" "\<And>d. d < 1024 \<Longrightarrow> pde s1 d = pde s d"
    "\<And>vb. dir_index vb < 1023 \<Longrightarrow> page_down vb \<noteq> page_down va \<Longrightarrow> xlate s1 vb = xlate s vb"
    "\<And>x. page_down x \<noteq> table_of s (dir_index va) \<Longrightarrow> pmem s1 x = pmem s x"
    using paging_unmap_post [OF wf d] by blast
  have pres: "present (pde s (dir_index va))" using x by (auto simp: xlate_def Let_def split: if_splits)
  note own = ownsD(2-4) [OF ow pr x]
  let ?f = "page_down pa" and ?s2 = "mm_free (page_down pa) s1"
  have s2: "?s2 = s1\<lparr>pmm := pmm_free_frame ?f (pmm s)\<rparr>" by (simp add: mm_free_def s1(4))
  note W = alloc_walk [OF s2]
  note free = fa.release_ok [OF as_wfD(2) [OF wf] own(1)]
  have df: "data_frame ?s2 P \<longleftrightarrow> data_frame s P" for P
    using s1(6) by (auto simp: data_frame_def W table_of_def) (simp_all add: pdir_def s1(3))
  have tabs: "table_of s1 d' = table_of s d'" if "d' < 1024" for d'
    using that s1(6) by (simp add: table_of_def)
  have wf2: "as_wf ?s2"
    using s1(2,6) own(3) free W
    by (auto simp: as_wf_def tables_ok_def recursive_def s2 s1(4) data_frame_def tabs pdir_def s1(3)
        split del: if_split)
  have none: "xlate ?s2 vb = None" if "page_down vb = page_down va" for vb
    using xlate_None_page [OF s1(5) that] by (simp add: W)
  have other: "xlate ?s2 vb = xlate s vb" if "dir_index vb < 1023" "page_down vb \<noteq> page_down va" for vb
    using s1(7) [OF that] by (simp add: W)
  have live: "page_down vb \<noteq> page_down va \<and> xlate s vb = Some pb"
    if "private_page vb" "xlate ?s2 vb = Some pb" for vb pb
    using that none [of vb] other [OF private_page_dir, of vb]
    by (cases "page_down vb = page_down va") simp_all
  have "owns ?s2"
    unfolding owns_def
  proof (intro conjI allI impI)
    fix vb pb assume h: "private_page vb" "xlate ?s2 vb = Some pb"
    note l = live [OF h]
    have "page_down pb \<noteq> ?f" using ownsD(5) [OF ow h(1) pr _ x] l by auto
    then show "page_down pb \<in> managed (pmm ?s2)" "page_down pb \<notin> avail (pmm ?s2)" "data_frame ?s2 (page_down pb)"
      using ownsD(2-4) [OF ow h(1)] l free df by (auto simp: s2)
  next
    fix vb vc pb pc assume h: "private_page vb" "private_page vc" "xlate ?s2 vb = Some pb"
      "xlate ?s2 vc = Some pc" "page_down pb = page_down pc"
    then show "page_down vb = page_down vc"
      using live [OF h(1,3)] live [OF h(2,4)] ownsD(5) [OF ow h(1,2)] by auto
  qed (rule wf2)
  moreover have "pmem ?s2 y = pmem s y" if "data_frame s (page_down y)" for y
    using that s1(8) [of y] d pres by (auto simp: s2 data_frame_def)
  ultimately show ?thesis
    unfolding page_removed_def
    using s1(1,3) none other own(2) free by (auto simp: s2)
qed

subsection \<open>Loops over pages\<close>

text \<open>A loop whose body may leave it with an early return: the flag is False then.\<close>

fun try_each :: "('a \<Rightarrow> 's \<Rightarrow> (bool \<times> 's) option) \<Rightarrow> 'a list \<Rightarrow> 's \<Rightarrow> (bool \<times> 's) option" where
  "try_each f [] s = Some (True, s)"
| "try_each f (x # xs) s = do {
     (ok, s) \<leftarrow> f x s;
     if ok then try_each f xs s else Some (False, s)
   }"

lemma try_each_total: "try_each (\<lambda>x s. map_option (Pair True) (f x s)) xs s = map_option (Pair True) (for_each f xs s)"
proof (induction xs arbitrary: s)
  case (Cons x xs)
  then show ?case by (cases "f x s") simp_all
qed simp

text \<open>
  Every loop of the kernel that maps fresh frames page by page: the heap's at boot, the ELF
  loader's, the user stack's and the one of \<open>sbrk\<close>.
\<close>

definition pages_added :: "u32 \<Rightarrow> u8 option \<Rightarrow> u32 list \<Rightarrow> mm_state \<Rightarrow> mm_state \<Rightarrow> bool" where
  "pages_added flags fill as s s' \<longleftrightarrow>
     owns s' \<and> cr3 s' = cr3 s \<and> managed (pmm s') = managed (pmm s) \<and>
     avail (pmm s') \<subseteq> avail (pmm s) \<and> card (avail (pmm s)) \<le> card (avail (pmm s')) + 2 * length as \<and>
     (\<forall>va. page_down va \<in> page_down ` set as \<longrightarrow>
        (\<exists>pa. xlate s' va = Some pa \<and> page_down pa \<in> avail (pmm s) \<and> (\<forall>b. fill = Some b \<longrightarrow> pmem s' pa = b)) \<and>
        (bit flags 2 \<longrightarrow> user_accessible s' va)) \<and>
     (\<forall>va. dir_index va < 1023 \<longrightarrow> page_down va \<notin> page_down ` set as \<longrightarrow>
        xlate s' va = xlate s va \<and> (user_accessible s va \<longrightarrow> user_accessible s' va)) \<and>
     keeps_data s s'"

lemma pages_addedD:
  assumes "pages_added flags fill as s s'"
  shows "owns s'" "cr3 s' = cr3 s" "managed (pmm s') = managed (pmm s)" "avail (pmm s') \<subseteq> avail (pmm s)"
    "card (avail (pmm s)) \<le> card (avail (pmm s')) + 2 * length as" "keeps_data s s'"
    "\<And>va. page_down va \<in> page_down ` set as \<Longrightarrow>
        \<exists>pa. xlate s' va = Some pa \<and> page_down pa \<in> avail (pmm s) \<and> (\<forall>b. fill = Some b \<longrightarrow> pmem s' pa = b)"
    "\<And>va. page_down va \<in> page_down ` set as \<Longrightarrow> bit flags 2 \<Longrightarrow> user_accessible s' va"
    "\<And>va. dir_index va < 1023 \<Longrightarrow> page_down va \<notin> page_down ` set as \<Longrightarrow> xlate s' va = xlate s va"
    "\<And>va. dir_index va < 1023 \<Longrightarrow> page_down va \<notin> page_down ` set as \<Longrightarrow> user_accessible s va \<Longrightarrow> user_accessible s' va"
  using assms unfolding pages_added_def by blast+

text \<open>One more page in front.\<close>

lemma pages_added_Cons:
  assumes added: "page_added a flags frame s s1" and filled: "\<forall>b x. fill = Some b \<longrightarrow> page_down x = frame \<longrightarrow> pmem s1 x = b"
    and pr: "private_page a" and more: "pages_added flags fill as s1 s2"
  shows "pages_added flags fill (a # as) s s2"
proof -
  note A = page_addedD [OF added] and M = pages_addedD [OF more]
  have fr: "page_down frame = frame" "data_frame s1 frame" "frame \<notin> avail (pmm s1)"
    using A(6,11) by (auto simp: data_frame_def)
  have mapped: "(\<exists>pa. xlate s2 va = Some pa \<and> page_down pa \<in> avail (pmm s) \<and>
      (\<forall>b. fill = Some b \<longrightarrow> pmem s2 pa = b)) \<and> (bit flags 2 \<longrightarrow> user_accessible s2 va)"
    if h: "page_down va \<in> page_down ` set (a # as)" for va
  proof (cases "page_down va \<in> page_down ` set as")
    case True
    then show ?thesis using M(7,8) [of va] A(6) by blast
  next
    case False
    then have va: "page_down va = page_down a" using h by auto
    have d: "dir_index va < 1023" using private_page_cong [OF va] pr by (simp add: private_page_dir)
    have x: "xlate s2 va = Some (frame + (va AND 0xFFF))" using M(9) [OF d False] A(8) [OF va] by simp
    have pd: "page_down (frame + (va AND 0xFFF)) = frame"
      using fr(1) by (intro page_down_offset(1)) (simp_all add: unat_offset)
    have "pmem s2 (frame + (va AND 0xFFF)) = pmem s1 (frame + (va AND 0xFFF))"
      using M(6) fr pd by (simp add: keeps_data_def)
    then show ?thesis using x pd A(4) filled A(9) [OF _ va] M(10) [OF d False] by auto
  qed
  have "keeps_data s s2" using A(12) M(6) keeps_data_trans by blast
  moreover have "xlate s2 va = xlate s va \<and> (user_accessible s va \<longrightarrow> user_accessible s2 va)"
    if "dir_index va < 1023" "page_down va \<notin> page_down ` set (a # as)" for va
    using M(9,10) [of va] A(10,13) [of va] that by auto
  moreover have "avail (pmm s2) \<subseteq> avail (pmm s)" using M(4) A(6) by blast
  ultimately show ?thesis
    unfolding pages_added_def using M(1-3,5) A(2,3,7) mapped by auto
qed

lemma pages_added_Nil: "owns s \<Longrightarrow> pages_added flags fill [] s s"
  by (simp add: pages_added_def)

locale page_mapper =
  fixes step :: "u32 \<Rightarrow> mm_state \<Rightarrow> (bool \<times> mm_state) option"
    and flags :: u32
    and fill :: "u8 option"
  assumes step_added: "owns s \<Longrightarrow> private_page va \<Longrightarrow> page_down va = va \<Longrightarrow> 2 \<le> card (avail (pmm s)) \<Longrightarrow>
      \<exists>frame s'. step va s = Some (True, s') \<and> page_added va flags frame s s' \<and>
        (\<forall>b x. fill = Some b \<longrightarrow> page_down x = frame \<longrightarrow> pmem s' x = b)"
begin

lemma loop_added:
  assumes "owns s" "\<forall>a \<in> set as. private_page a \<and> page_down a = a" "2 * length as \<le> card (avail (pmm s))"
  shows "\<exists>s'. try_each step as s = Some (True, s') \<and> pages_added flags fill as s s'"
  using assms
proof (induction as arbitrary: s)
  case Nil
  then show ?case by (simp add: pages_added_Nil)
next
  case (Cons a as)
  have pr: "private_page a" "page_down a = a" using Cons.prems(2) by simp_all
  obtain frame s1 where s1: "step a s = Some (True, s1)" and added: "page_added a flags frame s s1"
    and filled: "\<forall>b x. fill = Some b \<longrightarrow> page_down x = frame \<longrightarrow> pmem s1 x = b"
    using step_added [OF Cons.prems(1) pr] Cons.prems(3) by auto
  note A = page_addedD [OF added]
  obtain s2 where s2: "try_each step as s1 = Some (True, s2)" and more: "pages_added flags fill as s1 s2"
    using Cons.IH [OF A(1)] Cons.prems(2,3) A(7) by auto
  show ?case using s1 s2 pages_added_Cons [OF added filled pr(1) more] by auto
qed

text \<open>The same for a loop that skips the pages that are already mapped.\<close>

lemma skipping_loop_added:
  assumes "owns s" "\<forall>a \<in> set as. private_page a \<and> page_down a = a" "distinct as"
    and "2 * length (filter (\<lambda>a. xlate s a = None) as) \<le> card (avail (pmm s))"
    and skip: "\<And>a s. owns s \<Longrightarrow> page_down a = a \<Longrightarrow> other a s = (if xlate s a = None then step a s else Some (True, s))"
  shows "\<exists>s'. try_each other as s = Some (True, s') \<and> pages_added flags fill (filter (\<lambda>a. xlate s a = None) as) s s'"
  using assms(1-4)
proof (induction as arbitrary: s)
  case Nil
  then show ?case by (simp add: pages_added_Nil)
next
  case (Cons a as)
  have pr: "private_page a" "page_down a = a" using Cons.prems(2) by simp_all
  show ?case
  proof (cases "xlate s a = None")
    case True
    obtain frame s1 where s1: "step a s = Some (True, s1)" and added: "page_added a flags frame s s1"
      and filled: "\<forall>b x. fill = Some b \<longrightarrow> page_down x = frame \<longrightarrow> pmem s1 x = b"
      using step_added [OF Cons.prems(1) pr] Cons.prems(4) True by auto
    note A = page_addedD [OF added]
    have "page_down b \<noteq> page_down a \<and> dir_index b < 1023" if "b \<in> set as" for b
      using Cons.prems(2,3) that pr(2) private_page_dir by auto
    then have same: "filter (\<lambda>a. xlate s1 a = None) as = filter (\<lambda>a. xlate s a = None) as"
      using A(10) by (intro filter_cong) auto
    obtain s2 where s2: "try_each other as s1 = Some (True, s2)"
      and more: "pages_added flags fill (filter (\<lambda>a. xlate s a = None) as) s1 s2"
      using Cons.IH [OF A(1)] Cons.prems(2,3,4) A(7) True same by auto
    show ?thesis
      using s1 s2 True skip [OF Cons.prems(1) pr(2)] pages_added_Cons [OF added filled pr(1) more] by auto
  next
    case False
    then show ?thesis using Cons.IH [OF Cons.prems(1)] Cons.prems(2-4) skip [OF Cons.prems(1) pr(2)] by auto
  qed
qed

end

text \<open>The pages of an aligned range.\<close>

lemma range_pages:
  assumes "page_addrs lo hi = Some as" "page_down lo = lo" "unat hi \<le> 0xFFFFF000"
  shows "length as = (unat hi - unat lo + 4095) div 4096" "lo \<le> va \<Longrightarrow> va < hi \<Longrightarrow> page_down va \<in> set as"
    "a \<in> set as \<Longrightarrow> page_down a = a \<and> lo \<le> a \<and> a < hi"
proof -
  obtain k where k: "unat lo = k * 4096" using assms(2) unat_page_down [of lo] by metis
  have as: "as = map (\<lambda>k. lo + of_nat k * 0x1000) [0 ..< (unat hi - unat lo + 4095) div 4096]"
    using assms(1) page_addrs_nat [OF assms(3)] by simp
  then show "length as = (unat hi - unat lo + 4095) div 4096" by simp
  have u: "unat (lo + of_nat j * 0x1000) = unat lo + j * 4096" "unat lo + j * 4096 < unat hi"
    if "j < (unat hi - unat lo + 4095) div 4096" for j
  proof -
    have "j * 4096 < unat hi - unat lo" using that by linarith
    then show "unat lo + j * 4096 < unat hi" by simp
    then show "unat (lo + of_nat j * 0x1000) = unat lo + j * 4096"
      using unat_less_2p32 [of hi] by (simp add: unat_word_ariths unat_of_nat)
  qed
  show "page_down a = a \<and> lo \<le> a \<and> a < hi" if "a \<in> set as"
  proof -
    have "\<exists>j < (unat hi - unat lo + 4095) div 4096. a = lo + of_nat j * 0x1000"
      using that unfolding as set_map set_upt by (elim imageE) (rule exI, erule conjI [rotated], simp)
    then obtain j where j: "j < (unat hi - unat lo + 4095) div 4096" "a = lo + of_nat j * 0x1000" by blast
    have a: "unat a = unat lo + j * 4096" unfolding j(2) by (rule u(1) [OF j(1)])
    then have "unat a = (k + j) * 4096" by (simp only: k add_mult_distrib)
    moreover have "unat a < unat hi" "unat lo \<le> unat a" using a u(2) [OF j(1)] by simp_all
    ultimately show ?thesis
      by (simp add: word_unat_eq_iff unat_page_down word_less_nat_alt word_le_nat_alt)
  qed
  show "page_down va \<in> set as" if h: "lo \<le> va" "va < hi"
  proof -
    let ?j = "unat va div 4096 - k"
    have le: "k \<le> unat va div 4096"
      using h(1) k by (simp add: word_le_nat_alt less_eq_div_iff_mult_less_eq)
    have "?j < (unat hi - unat lo + 4095) div 4096"
      using h(2) k le by (simp add: word_less_nat_alt)
    moreover have "page_down va = lo + of_nat ?j * 0x1000"
      using u(1) [OF calculation] k le by (simp add: word_unat_eq_iff unat_page_down algebra_simps)
    ultimately show ?thesis using as by auto
  qed
qed

lemma range_pages_iff:
  assumes "page_addrs lo hi = Some as" "page_down lo = lo" "unat hi mod 4096 = 0"
  shows "page_down va \<in> page_down ` set as \<longleftrightarrow> lo \<le> va \<and> va < hi"
proof -
  note R = range_pages [OF assms(1,2) aligned_bound [OF assms(3)]]
  obtain j where j: "unat hi = 4096 * j" using assms(3) by (auto simp: mod_eq_0_iff_dvd dvd_def)
  show ?thesis
  proof
    assume "page_down va \<in> page_down ` set as"
    then obtain a where a: "a \<in> set as" "page_down va = a" using R(3) by auto
    have "unat va div 4096 * 4096 < unat hi"
      using R(3) [OF a(1)] a(2) unat_page_down [of va] by (simp add: word_less_nat_alt)
    then have "unat va div 4096 < j" using j by simp
    then have "unat va < j * 4096" by (simp add: div_less_iff_less_mult)
    then have "va < hi" using j by (simp add: word_less_nat_alt)
    moreover have "lo \<le> va" using R(3) [OF a(1)] page_down_le [of va] a(2) by auto
    ultimately show "lo \<le> va \<and> va < hi" by blast
  qed (use R(2) [of va] in \<open>auto intro: image_eqI [of _ _ "page_down va"]\<close>)
qed

lemma private_range:
  assumes "1 \<le> dir_index lo" "unat hi \<le> 0xFF800000" "lo \<le> va" "va < hi"
  shows "private_page va"
proof -
  have "unat va < 0xFF800000" "unat lo \<le> unat va"
    using assms(2-4) by (auto simp: word_less_nat_alt word_le_nat_alt)
  moreover have "1 \<le> unat lo div 4194304"
    using assms(1) by (simp add: word_le_nat_alt unat_dir_index)
  ultimately have "1 \<le> unat va div 4194304" "unat va div 4194304 < 1022"
    using div_le_mono [of "unat lo" "unat va" 4194304] by (auto simp: less_mult_imp_div_less)
  then show ?thesis
    by (simp add: private_page_def word_le_nat_alt word_less_nat_alt unat_dir_index)
qed

end
