(* ===== verification/Kheap.thy ===== *)
theory Kheap
  imports Space
begin

text \<open>
  The kernel heap, \<open>kernel/arch/i386/kheap.c\<close>: a bump allocator over a range of kernel addresses
  that is backed with frames once, at boot.
\<close>

record kheap_state =
  heap_start :: u32
  heap_end :: u32
  heap_next :: u32

text \<open>The loop body of \<open>kheap_initialize\<close>; the frame is not checked.\<close>

definition heap_page :: "u32 \<Rightarrow> mm_state \<Rightarrow> mm_state option" where
  "heap_page a s = (let (frame, s) = mm_alloc s in paging_map a frame PAGE_WRITE s)"

definition kheap_initialize :: "u32 \<Rightarrow> u32 \<Rightarrow> mm_state \<Rightarrow> (kheap_state \<times> mm_state) option" where
  "kheap_initialize start sz s = do {
     let h = \<lparr>heap_start = start, heap_end = start + sz, heap_next = start\<rparr>;
     as \<leftarrow> page_addrs start (heap_end h);
     s \<leftarrow> for_each heap_page as s;
     Some (h, s)
   }"

definition kmalloc :: "u32 \<Rightarrow> kheap_state \<Rightarrow> u32 \<times> kheap_state" where
  "kmalloc sz h =
     (if heap_next h + sz > heap_end h then (0, h)
      else (heap_next h, h\<lparr>heap_next := heap_next h + ((sz + 7) AND NOT 7)\<rparr>))"

definition kmalloc_aligned :: "u32 \<Rightarrow> kheap_state \<Rightarrow> u32 \<times> kheap_state" where
  "kmalloc_aligned sz h =
     kmalloc sz (h\<lparr>heap_next := (heap_next h + 0xFFF) AND NOT 0xFFF\<rparr>)"

definition kheap_used :: "kheap_state \<Rightarrow> u32" where
  "kheap_used h = heap_next h - heap_start h"

subsection \<open>An interface for region allocators\<close>

text \<open>
  Requests are served from below a moving front: a block lies between the front before and the
  front after, so blocks never overlap.
\<close>

fun blocks :: "('r \<Rightarrow> 's \<Rightarrow> u32 \<times> 's) \<Rightarrow> ('r \<Rightarrow> nat) \<Rightarrow> 'r list \<Rightarrow> 's \<Rightarrow> (u32 \<times> nat) list" where
  "blocks serve bytes [] s = []"
| "blocks serve bytes (r # rs) s = (let (a, s') = serve r s in
     (if a = 0 then blocks serve bytes rs s' else (a, bytes r) # blocks serve bytes rs s'))"

locale region_allocator =
  fixes serve :: "'r \<Rightarrow> 's \<Rightarrow> u32 \<times> 's"
    and bytes :: "'r \<Rightarrow> nat"
    and front :: "'s \<Rightarrow> nat"
    and limit :: "'s \<Rightarrow> nat"
    and inv :: "'s \<Rightarrow> bool"
  assumes serve_ok: "inv s \<Longrightarrow> limit s + bytes r < 2 ^ 32 \<Longrightarrow> serve r s = (a, s') \<Longrightarrow>
      inv s' \<and> limit s' = limit s \<and> front s \<le> front s' \<and> front s' \<le> limit s \<and>
      (a \<noteq> 0 \<longrightarrow> front s \<le> unat a \<and> unat a + bytes r \<le> front s')"
    and serve_full: "inv s \<Longrightarrow> limit s + bytes r < 2 ^ 32 \<Longrightarrow> serve r s = (0, s') \<Longrightarrow>
      limit s < front s' + bytes r"
begin

lemma blocks_inside:
  assumes "inv s" "\<forall>r \<in> set rs. limit s + bytes r < 2 ^ 32" "(a, n) \<in> set (blocks serve bytes rs s)"
  shows "front s \<le> unat a \<and> unat a + n \<le> limit s"
  using assms
proof (induction rs arbitrary: s)
  case (Cons r rs)
  obtain b s' where b: "serve r s = (b, s')" by (cases "serve r s")
  have ok: "inv s' \<and> limit s' = limit s \<and> front s \<le> front s' \<and> front s' \<le> limit s \<and>
      (b \<noteq> 0 \<longrightarrow> front s \<le> unat b \<and> unat b + bytes r \<le> front s')"
    using serve_ok [OF Cons.prems(1) _ b] Cons.prems(2) by simp
  show ?case
  proof (cases "b \<noteq> 0 \<and> (a, n) = (b, bytes r)")
    case True
    then show ?thesis using ok by auto
  next
    case False
    then have "(a, n) \<in> set (blocks serve bytes rs s')"
      using Cons.prems(3) b by (auto split: if_splits)
    from Cons.IH [OF _ _ this] ok Cons.prems(2) show ?thesis by auto
  qed
qed simp

lemma blocks_disjoint:
  assumes "inv s" "\<forall>r \<in> set rs. limit s + bytes r < 2 ^ 32"
  shows "sorted_wrt (\<lambda>(a, m) (b, n). unat a + m \<le> unat b) (blocks serve bytes rs s)"
  using assms
proof (induction rs arbitrary: s)
  case (Cons r rs)
  obtain b s' where b: "serve r s = (b, s')" by (cases "serve r s")
  have ok: "inv s'" "limit s' = limit s" "b \<noteq> 0 \<longrightarrow> unat b + bytes r \<le> front s'"
    using serve_ok [OF Cons.prems(1) _ b] Cons.prems(2) by simp_all
  have rest: "\<forall>r \<in> set rs. limit s' + bytes r < 2 ^ 32" using Cons.prems(2) ok(2) by simp
  have "unat b + bytes r \<le> unat a" if "b \<noteq> 0" "(a, n) \<in> set (blocks serve bytes rs s')" for a n
    using blocks_inside [OF ok(1) rest that(2)] ok(3) that(1) by simp
  then show ?case using Cons.IH [OF ok(1) rest] b by auto
qed simp

end

subsection \<open>The kernel heap is one\<close>

datatype heap_request = Plain u32 | Page_Aligned u32

fun heap_serve :: "heap_request \<Rightarrow> kheap_state \<Rightarrow> u32 \<times> kheap_state" where
  "heap_serve (Plain n) h = kmalloc n h"
| "heap_serve (Page_Aligned n) h = kmalloc_aligned n h"

fun heap_bytes :: "heap_request \<Rightarrow> nat" where
  "heap_bytes (Plain n) = unat n"
| "heap_bytes (Page_Aligned n) = unat n"

definition heap_inv :: "kheap_state \<Rightarrow> bool" where
  "heap_inv h \<longleftrightarrow> heap_start h \<noteq> 0 \<and> heap_start h \<le> heap_next h \<and> heap_next h \<le> heap_end h \<and>
     unat (heap_end h) mod 4096 = 0 \<and> unat (heap_next h) mod 8 = 0"

lemma round8:
  assumes "m mod 8 = 0" "n mod 8 = 0" "m + k \<le> n"
  shows "m + (k + 7) div 8 * 8 \<le> (n::nat)"
proof -
  obtain i j where ij: "m = 8 * i" "n = 8 * j" using assms by (auto simp: mod_eq_0_iff_dvd dvd_def)
  have "k \<le> 8 * (j - i)" using assms(3) ij by (simp add: diff_mult_distrib2)
  from round_up_le [OF _ this] have "(k + 7) div 8 * 8 \<le> 8 * (j - i)" by simp
  then show ?thesis using assms(3) ij by (simp add: diff_mult_distrib2)
qed

lemma kmalloc_step:
  assumes inv: "heap_inv h" and sz: "unat (heap_end h) + unat n < 2 ^ 32" and k: "kmalloc n h = (a, h')"
  shows "heap_inv h' \<and> heap_end h' = heap_end h \<and> heap_start h' = heap_start h \<and> heap_next h \<le> heap_next h' \<and>
    (a \<noteq> 0 \<longrightarrow> a = heap_next h \<and> unat a + unat n \<le> unat (heap_next h')) \<and>
    (a = 0 \<longrightarrow> h' = h \<and> unat (heap_end h) < unat (heap_next h) + unat n)"
proof -
  have le: "unat (heap_next h) \<le> unat (heap_end h)" and nz: "heap_next h \<noteq> 0"
    and al: "unat (heap_end h) mod 4096 = 0" "unat (heap_next h) mod 8 = 0"
    using inv by (auto simp: heap_inv_def word_le_nat_alt word_unat_eq_iff)
  have al8: "unat (heap_end h) mod 8 = 0"
    using al(1) mod_mod_cancel [of 8 4096 "unat (heap_end h)"] by simp
  have sum: "unat (heap_next h + n) = unat (heap_next h) + unat n"
    using le sz by (simp add: unat_word_ariths)
  show ?thesis
  proof (cases "heap_next h + n > heap_end h")
    case True
    then show ?thesis using k inv sum by (simp add: kmalloc_def word_less_nat_alt)
  next
    case False
    then have fit: "unat (heap_next h) + unat n \<le> unat (heap_end h)" using sum by (simp add: word_less_nat_alt)
    note r = round8 [OF al(2) al8 fit]
    have top: "unat (heap_end h) \<le> 0xFFFFF000" by (rule aligned_bound [OF al(1)])
    have "unat ((n + 7) AND NOT 7) = (unat n + 7) div 8 * 8"
      using fit top unfolding and_NOT_7 by (simp add: unat_word_ariths)
    then have next': "unat (heap_next h + ((n + 7) AND NOT 7)) = unat (heap_next h) + (unat n + 7) div 8 * 8"
      using r top by (simp add: unat_word_ariths)
    moreover have "unat n \<le> (unat n + 7) div 8 * 8" by linarith
    moreover have "(unat (heap_next h) + (unat n + 7) div 8 * 8) mod 8 = 0" using al(2) by simp
    ultimately show ?thesis
      using k False inv r nz
      by (auto simp: kmalloc_def heap_inv_def word_le_nat_alt)
  qed
qed

lemma heap_align:
  assumes "heap_inv h"
  shows "heap_inv (h\<lparr>heap_next := (heap_next h + 0xFFF) AND NOT 0xFFF\<rparr>)"
    "heap_next h \<le> (heap_next h + 0xFFF) AND NOT 0xFFF"
    "unat ((heap_next h + 0xFFF) AND NOT 0xFFF) mod 4096 = 0"
proof -
  have le: "unat (heap_next h) \<le> unat (heap_end h)" and st: "heap_start h \<le> heap_next h"
    and al: "unat (heap_end h) mod 4096 = 0"
    using assms by (auto simp: heap_inv_def word_le_nat_alt)
  have "unat (heap_next h) + 4095 < 2 ^ 32" using le aligned_bound [OF al] by simp
  from unat_page_up [OF this, unfolded page_up_def]
  have u: "unat ((heap_next h + 0xFFF) AND NOT 0xFFF) = (unat (heap_next h) + 4095) div 4096 * 4096" .
  then show "unat ((heap_next h + 0xFFF) AND NOT 0xFFF) mod 4096 = 0" by simp
  show n: "heap_next h \<le> (heap_next h + 0xFFF) AND NOT 0xFFF"
    unfolding word_le_nat_alt u by linarith
  obtain q where q: "unat (heap_end h) = 4096 * q" using al by (auto simp: mod_eq_0_iff_dvd dvd_def)
  have "(unat (heap_next h) + 4095) div 4096 * 4096 \<le> unat (heap_end h)"
    using le round_up_le [of 4096 "unat (heap_next h)" q] unfolding q by simp
  moreover have "(x div 4096 * 4096) mod 8 = (0::nat)" for x
    by (simp add: mod_mult_eq [of _ 8 4096, symmetric])
  ultimately show "heap_inv (h\<lparr>heap_next := (heap_next h + 0xFFF) AND NOT 0xFFF\<rparr>)"
    using assms order_trans [OF st n] u [folded page_up_def]
    unfolding page_up_def [symmetric] by (simp add: heap_inv_def word_le_nat_alt)
qed

lemma heap_serve_step:
  assumes "heap_inv h" "unat (heap_end h) + heap_bytes r < 2 ^ 32" "heap_serve r h = (a, h')"
  shows "heap_inv h' \<and> heap_end h' = heap_end h \<and> heap_start h' = heap_start h \<and> heap_next h \<le> heap_next h' \<and>
    (a \<noteq> 0 \<longrightarrow> heap_next h \<le> a \<and> unat a + heap_bytes r \<le> unat (heap_next h')) \<and>
    (a = 0 \<longrightarrow> unat (heap_end h) < unat (heap_next h') + heap_bytes r)"
proof (cases r)
  case (Plain n)
  then show ?thesis using kmalloc_step [OF assms(1), of n a h'] assms(2,3) by auto
next
  case (Page_Aligned n)
  then show ?thesis
    using kmalloc_step [OF heap_align(1) [OF assms(1)], of n a h'] assms(2,3) heap_align(2) [OF assms(1)]
    by (auto simp: kmalloc_aligned_def)
qed

interpretation kh: region_allocator heap_serve heap_bytes "\<lambda>h. unat (heap_next h)"
  "\<lambda>h. unat (heap_end h)" heap_inv
proof
  fix h h' :: kheap_state and r a
  assume h: "heap_inv h" "unat (heap_end h) + heap_bytes r < 2 ^ 32"
  show "heap_inv h' \<and> unat (heap_end h') = unat (heap_end h) \<and> unat (heap_next h) \<le> unat (heap_next h') \<and>
      unat (heap_next h') \<le> unat (heap_end h) \<and>
      (a \<noteq> 0 \<longrightarrow> unat (heap_next h) \<le> unat a \<and> unat a + heap_bytes r \<le> unat (heap_next h'))"
    if "heap_serve r h = (a, h')"
    using heap_serve_step [OF h that] by (auto simp: heap_inv_def word_le_nat_alt)
  show "unat (heap_end h) < unat (heap_next h') + heap_bytes r" if "heap_serve r h = (0, h')"
    using heap_serve_step [OF h that] by simp
qed

subsection \<open>Properties\<close>


abbreviation boot_heap :: kheap_state where
  "boot_heap \<equiv> \<lparr>heap_start = 0xC0000000, heap_end = 0xC0100000, heap_next = 0xC0000000\<rparr>"



text \<open>Boot backs the heap with frames.\<close>

interpretation heap_loop: page_mapper "\<lambda>a s. map_option (Pair True) (heap_page a s)" 2 None
proof
  fix s va assume "owns s" "private_page va" "page_down va = va" "2 \<le> card (avail (pmm s))"
  moreover have "(2::u32) AND NOT 0xFFF = 0" by simp
  ultimately show "\<exists>frame s'. map_option (Pair True) (heap_page va s) = Some (True, s') \<and>
      page_added va 2 frame s s' \<and> (\<forall>b x. None = Some b \<longrightarrow> page_down x = frame \<longrightarrow> pmem s' x = b)"
    using alloc_map_step [of s va 2] by (fastforce simp: heap_page_def)
qed

text \<open>
  With enough frames, \<open>kheap_initialize\<close> on a page-aligned range above the identity map does
  not fault: every address of the heap is then backed by a frame that was in the pool, no frame
  backs two pages, nothing else changes its translation, and \<open>kmalloc\<close> starts in a state that
  satisfies the heap's invariant.
\<close>

theorem kheap_initialize_backed:
  assumes "owns s" and "page_down start = start" and "1 \<le> dir_index start"
    and "unat sz mod 4096 = 0" and "unat start + unat sz \<le> 0xFF800000"
    and "2 * (unat sz div 4096) \<le> card (avail (pmm s))"
  shows "\<exists>h s'. kheap_initialize start sz s = Some (h, s') \<and> heap_inv h \<and> owns s' \<and>
    (\<forall>va. start \<le> va \<and> va < start + sz \<longrightarrow>
       (\<exists>pa. xlate s' va = Some pa \<and> page_down pa \<in> avail (pmm s) - avail (pmm s'))) \<and>
    (\<forall>va. dir_index va < 1023 \<longrightarrow> \<not> (start \<le> va \<and> va < start + sz) \<longrightarrow> xlate s' va = xlate s va)"
proof -
  have end_nat: "unat (start + sz) = unat start + unat sz"
    using assms(5) by (simp add: unat_word_ariths)
  then have hi: "unat (start + sz) \<le> 0xFF800000" using assms(5) by simp
  have al: "unat start mod 4096 = 0" using assms(2) unat_page_down [of start] by (metis mod_mult_self2_is_0)
  obtain j where j: "unat start = 4096 * j" using al by (auto simp: mod_eq_0_iff_dvd dvd_def)
  obtain q where q: "unat sz = 4096 * q" using assms(4) by (auto simp: mod_eq_0_iff_dvd dvd_def)
  have hi': "unat (start + sz) \<le> 0xFFFFF000" using hi by simp
  from page_addrs_nat [OF hi', of start]
  obtain as where as: "page_addrs start (start + sz) = Some as" by blast
  note R = range_pages [OF as assms(2) hi']
  have len: "length as = unat sz div 4096" using R(1) hi end_nat q by simp
  have priv: "\<forall>a \<in> set as. private_page a \<and> page_down a = a"
    using R(3) hi private_range [OF assms(3) hi] by simp
  have "2 * length as \<le> card (avail (pmm s))" using assms(6) len by simp
  from heap_loop.loop_added [OF assms(1) priv this, unfolded try_each_total]
  obtain s' where s': "for_each heap_page as s = Some s'" and P: "pages_added 2 None as s s'" by auto
  have al_end: "unat (start + sz) mod 4096 = 0" unfolding end_nat j q by simp
  note pages = range_pages_iff [OF as assms(2) al_end]
  let ?h = "\<lparr>heap_start = start, heap_end = start + sz, heap_next = start\<rparr>"
  have run: "kheap_initialize start sz s = Some (?h, s')"
    using as s' by (simp add: kheap_initialize_def)
  have "start \<noteq> 0" using assms(3) by (auto simp: dir_index_def)
  moreover note al_end
  moreover have "unat start mod 8 = 0"
  proof -
    have "unat start = 8 * (512 * j)" unfolding j by simp
    then show ?thesis by (simp only: mod_mult_self1_is_0)
  qed
  moreover have "start \<le> start + sz" by (simp add: word_le_nat_alt end_nat)
  ultimately have "heap_inv ?h" by (simp add: heap_inv_def)
  moreover have ow: "owns s'" by (rule pages_addedD(1) [OF P])
  moreover have "\<exists>pa. xlate s' va = Some pa \<and> page_down pa \<in> avail (pmm s) - avail (pmm s')"
    if h: "start \<le> va \<and> va < start + sz" for va
  proof -
    obtain pa where "xlate s' va = Some pa" "page_down pa \<in> avail (pmm s)"
      using pages_addedD(7) [OF P] h pages [of va] by blast
    moreover have "private_page va" using private_range [OF assms(3) hi] h by simp
    ultimately show ?thesis using ownsD(3) [OF ow] by blast
  qed
  moreover have "xlate s' va = xlate s va" if "dir_index va < 1023" "\<not> (start \<le> va \<and> va < start + sz)" for va
    using pages_addedD(9) [OF P] that pages [of va] by blast
  ultimately show ?thesis using run by blast
qed

lemma mm_boot_private_unmapped: "private_page va \<Longrightarrow> xlate mm_boot va = None"
proof -
  assume "private_page va"
  then have "dir_index va \<noteq> 0" "dir_index va \<noteq> 1023" by (auto simp: private_page_def)
  then show ?thesis
    unfolding mm_boot_def
    using initialize_post [of "0x80000" "0x81000" "\<lparr>pmm = pmm_sample, pmem = (\<lambda>_. 0), cr3 = 0\<rparr>"]
    by (simp add: page_down_def pmm_sample_inv low_not_avail)
qed

lemma mm_boot_owns: "owns mm_boot"
  using mm_boot_private_unmapped mm_boot_facts(1) by (simp add: owns_def)

theorem kheap_initialize_backed_witness:
  "\<exists>h s' pa. kheap_initialize 0xC0000000 0x1000 mm_boot = Some (h, s') \<and> xlate s' 0xC0000123 = Some pa"
proof -
  obtain h s' where "kheap_initialize 0xC0000000 0x1000 mm_boot = Some (h, s')" and
    m: "\<forall>va. 0xC0000000 \<le> va \<and> va < 0xC0000000 + 0x1000 \<longrightarrow>
       (\<exists>pa. xlate s' va = Some pa \<and> page_down pa \<in> avail (pmm mm_boot) - avail (pmm s'))"
    using kheap_initialize_backed [of mm_boot "0xC0000000" "0x1000"] mm_boot_owns mm_boot_frames
    by (auto simp: page_down_def dir_index_def)
  moreover have "\<exists>pa. xlate s' 0xC0000123 = Some pa \<and> page_down pa \<in> avail (pmm mm_boot) - avail (pmm s')"
    by (rule m [rule_format]) simp
  ultimately show ?thesis by blast
qed

end
