(* ===== verification/Task.thy ===== *)
theory Task
  imports Kheap
begin

text \<open>
  The scheduler ring, \<open>kernel/arch/i386/task.c\<close>, and the context switch of \<open>task_switch.S\<close>.
  Tasks are the nodes of a circular linked list; a reference to one is the address of
  \<open>main_task\<close>, of the \<open>task\<close> member of a process table entry, or of a kernel thread's \<open>task_t\<close>.
\<close>

datatype task_ref = Main_Task | Proc_Task nat | Thread_Task nat

text \<open>\<open>registers_t\<close>.\<close>

record task_regs =
  t_eax :: u32
  t_ebx :: u32
  t_ecx :: u32
  t_edx :: u32
  t_esi :: u32
  t_edi :: u32
  t_esp :: u32
  t_ebp :: u32
  t_eip :: u32
  t_eflags :: u32
  t_cr3 :: u32

text \<open>\<open>task_t\<close>; \<open>next\<close> is None for a null pointer.\<close>

record task =
  task_regs :: task_regs
  task_next :: "task_ref option"

record sched =
  tasks :: "task_ref \<Rightarrow> task"
  running :: task_ref

definition zero_regs :: task_regs where
  "zero_regs = \<lparr>t_eax = 0, t_ebx = 0, t_ecx = 0, t_edx = 0, t_esi = 0, t_edi = 0, t_esp = 0, t_ebp = 0,
     t_eip = 0, t_eflags = 0, t_cr3 = 0\<rparr>"

definition set_task :: "task_ref \<Rightarrow> (task \<Rightarrow> task) \<Rightarrow> sched \<Rightarrow> sched" where
  "set_task t f s = s\<lparr>tasks := (tasks s)(t := f (tasks s t))\<rparr>"

definition next_of :: "sched \<Rightarrow> task_ref \<Rightarrow> task_ref option" where
  "next_of s t = task_next (tasks s t)"

definition set_next :: "task_ref \<Rightarrow> task_ref option \<Rightarrow> sched \<Rightarrow> sched" where
  "set_next t n s = set_task t (\<lambda>x. x\<lparr>task_next := n\<rparr>) s"

subsection \<open>Operations\<close>

definition tasking_initialize :: "u32 \<Rightarrow> sched \<Rightarrow> sched" where
  "tasking_initialize dir s =
     (let s = set_next Main_Task (Some Main_Task) s;
          s = s\<lparr>running := Main_Task\<rparr>
      in set_task Main_Task (\<lambda>x. x\<lparr>task_regs := (task_regs x)\<lparr>t_cr3 := dir\<rparr>\<rparr>) s)"

definition task_add :: "task_ref \<Rightarrow> sched \<Rightarrow> sched" where
  "task_add t s =
     (let s = set_next t (next_of s (running s)) s
      in set_next (running s) (Some t) s)"

text \<open>
  \<open>task_create\<close>: the stack comes from the kernel heap and is cleared; a failed allocation is not
  checked.
\<close>

definition task_create ::
  "task_ref \<Rightarrow> u32 \<Rightarrow> u32 \<Rightarrow> sched \<times> kheap_state \<times> mm_state \<Rightarrow> (sched \<times> kheap_state \<times> mm_state) option" where
  "task_create t main flags k = do {
     let (s, h, m) = k;
     let (stack, h) = kmalloc_aligned 4096 h;
     m \<leftarrow> vmemset m stack 0 4096;
     let dir = paging_current_directory m;
     let s = set_task t (\<lambda>x. x\<lparr>task_regs := (task_regs x)\<lparr>t_eip := main, t_esp := stack + 4096,
       t_eflags := flags, t_cr3 := dir, t_ebx := 0, t_esi := 0, t_edi := 0, t_ebp := 0\<rparr>\<rparr>) s;
     Some (task_add t s, h, m)
   }"

text \<open>The search of \<open>task_remove\<close>; None is a null pointer dereference or a search that never ends.\<close>

partial_function (option) find_prev :: "sched \<Rightarrow> task_ref \<Rightarrow> task_ref \<Rightarrow> task_ref option option" where
  "find_prev s t prev =
     (case next_of s prev of
        None \<Rightarrow> None
      | Some n \<Rightarrow>
          if n = t then Some (Some prev)
          else if n = running s then Some None
          else find_prev s t n)"

definition task_remove :: "task_ref \<Rightarrow> sched \<Rightarrow> sched option" where
  "task_remove t s = do {
     found \<leftarrow> find_prev s t (running s);
     Some (case found of None \<Rightarrow> s | Some prev \<Rightarrow> set_next prev (next_of s t) s)
   }"

text \<open>The first half of \<open>yield\<close>: \<open>running_task = running_task->next\<close>.\<close>

definition advance :: "sched \<Rightarrow> sched option" where
  "advance s = (case next_of s (running s) of None \<Rightarrow> None | Some n \<Rightarrow> Some (s\<lparr>running := n\<rparr>))"

subsection \<open>The context switch\<close>

text \<open>The registers \<open>switch_task\<close> saves and loads; the stack pointer is the one after \<open>ret\<close>.\<close>

record cpu =
  c_ebx :: u32
  c_esi :: u32
  c_edi :: u32
  c_ebp :: u32
  c_esp :: u32
  c_eip :: u32
  c_eflags :: u32
  c_cr3 :: u32

definition save_context :: "cpu \<Rightarrow> task_regs \<Rightarrow> task_regs" where
  "save_context c r = r\<lparr>t_ebx := c_ebx c, t_esi := c_esi c, t_edi := c_edi c, t_ebp := c_ebp c,
     t_eip := c_eip c, t_esp := c_esp c, t_eflags := c_eflags c OR 0x200, t_cr3 := c_cr3 c\<rparr>"

definition load_context :: "task_regs \<Rightarrow> cpu \<Rightarrow> cpu" where
  "load_context r c = \<lparr>c_ebx = t_ebx r, c_esi = t_esi r, c_edi = t_edi r, c_ebp = t_ebp r,
     c_esp = t_esp r, c_eip = t_eip r, c_eflags = t_eflags r,
     c_cr3 = (if t_cr3 r = 0 then c_cr3 c else t_cr3 r)\<rparr>"

definition switch_task :: "task_ref \<Rightarrow> task_ref \<Rightarrow> sched \<times> cpu \<Rightarrow> sched \<times> cpu" where
  "switch_task old new = (\<lambda>(s, c).
     (let s = set_task old (\<lambda>x. x\<lparr>task_regs := save_context c (task_regs x)\<rparr>) s
      in (s, load_context (task_regs (tasks s new)) c)))"

subsection \<open>The ring as a list\<close>

lemma set_task_simps [simp]:
  "running (set_task t f s) = running s"
  "tasks (set_task t f s) = (tasks s)(t := f (tasks s t))"
  by (simp_all add: set_task_def)

lemma set_next_simps [simp]:
  "running (set_next t n s) = running s"
  "next_of (set_next t n s) u = (if u = t then n else next_of s u)"
  "task_regs (tasks (set_next t n s) u) = task_regs (tasks s u)"
  by (simp_all add: set_next_def next_of_def)

text \<open>A chain of \<open>next\<close> pointers from \<open>a\<close> through the list to \<open>b\<close>.\<close>

fun chain :: "sched \<Rightarrow> task_ref \<Rightarrow> task_ref list \<Rightarrow> task_ref \<Rightarrow> bool" where
  "chain s a [] b \<longleftrightarrow> next_of s a = Some b"
| "chain s a (x # xs) b \<longleftrightarrow> next_of s a = Some x \<and> chain s x xs b"

text \<open>\<open>ring s (r # xs)\<close>: the running task is \<open>r\<close> and \<open>xs\<close> are the tasks after it, in order.\<close>

fun ring :: "sched \<Rightarrow> task_ref list \<Rightarrow> bool" where
  "ring s [] \<longleftrightarrow> False"
| "ring s (r # xs) \<longleftrightarrow> running s = r \<and> distinct (r # xs) \<and> chain s r xs r"

lemma chain_cong:
  "chain s a xs b \<Longrightarrow> \<forall>t \<in> set (a # xs). next_of s' t = next_of s t \<Longrightarrow> chain s' a xs b"
  by (induction xs arbitrary: a) auto

lemma chain_append: "chain s a (xs @ y # ys) b \<longleftrightarrow> chain s a xs y \<and> chain s y ys b"
  by (induction xs arbitrary: a) auto

lemma ring_cong: "ring s xs \<Longrightarrow> running s' = running s \<Longrightarrow> \<forall>t \<in> set xs. next_of s' t = next_of s t \<Longrightarrow> ring s' xs"
  by (cases xs) (auto intro!: chain_cong [of s])

lemma ring_unique_chain: "chain s a xs b \<Longrightarrow> chain s a ys b \<Longrightarrow> b \<notin> set xs \<Longrightarrow> b \<notin> set ys \<Longrightarrow> xs = ys"
proof (induction xs arbitrary: a ys)
  case Nil
  then show ?case by (cases ys) auto
next
  case (Cons x xs)
  then show ?case by (cases ys) auto
qed

lemma ring_add:
  assumes "ring s (r # xs)" "t \<notin> set (r # xs)"
  shows "ring (task_add t s) (r # t # xs)"
proof -
  have "chain (task_add t s) t xs r"
  proof (cases xs)
    case Nil
    then show ?thesis using assms by (simp add: task_add_def Let_def)
  next
    case (Cons x ys)
    have "chain (task_add t s) x ys r"
      using assms Cons by (auto simp: task_add_def Let_def intro: chain_cong [of s])
    then show ?thesis using assms Cons by (simp add: task_add_def Let_def)
  qed
  then show ?thesis using assms by (auto simp: task_add_def Let_def)
qed

lemma ring_advance:
  assumes "ring s (r # xs)"
  shows "\<exists>s'. advance s = Some s' \<and> tasks s' = tasks s \<and> ring s' (xs @ [r])"
proof (cases xs)
  case Nil
  then show ?thesis using assms by (auto simp: advance_def)
next
  case (Cons x ys)
  let ?s = "s\<lparr>running := x\<rparr>"
  have next_eq: "next_of ?s = next_of s" by (simp add: next_of_def fun_eq_iff)
  have "chain s x ys r" "next_of s r = Some x" using assms Cons by auto
  then have "chain s x (ys @ [r]) x" by (simp add: chain_append)
  then have "chain ?s x (ys @ [r]) x" by (rule chain_cong) (simp add: next_eq)
  then show ?thesis using assms Cons \<open>next_of s r = Some x\<close> by (auto simp: advance_def)
qed

text \<open>The search walks the ring from the running task.\<close>

lemma find_prev_found:
  "chain s a xs t \<Longrightarrow> t \<notin> set xs \<Longrightarrow> running s \<notin> set xs \<Longrightarrow> find_prev s t a = Some (Some (last (a # xs)))"
proof (induction xs arbitrary: a)
  case Nil
  then show ?case by (simp add: find_prev.simps)
next
  case (Cons x xs)
  then show ?case by (subst find_prev.simps) auto
qed

lemma find_prev_absent:
  "chain s a xs (running s) \<Longrightarrow> t \<notin> set xs \<Longrightarrow> t \<noteq> running s \<Longrightarrow> running s \<notin> set xs \<Longrightarrow> find_prev s t a = Some None"
proof (induction xs arbitrary: a)
  case Nil
  then show ?case by (simp add: find_prev.simps)
next
  case (Cons x xs)
  then show ?case by (subst find_prev.simps) auto
qed

lemma ring_remove_absent:
  assumes "ring s (r # xs)" "t \<notin> set (r # xs)"
  shows "task_remove t s = Some s"
  using assms find_prev_absent [of s r xs t] by (simp add: task_remove_def)

lemma ring_remove_other:
  assumes "ring s (r # xs @ t # ys)"
  shows "\<exists>s'. task_remove t s = Some s' \<and> ring s' (r # xs @ ys) \<and>
    (\<forall>u. task_regs (tasks s' u) = task_regs (tasks s u))"
proof -
  have ch: "chain s r xs t" "chain s t ys r" and run: "running s = r" and d: "distinct (r # xs @ t # ys)"
    using assms by (auto simp: chain_append)
  let ?p = "last (r # xs)" and ?s = "set_next (last (r # xs)) (next_of s t) s"
  have found: "task_remove t s = Some ?s"
    using find_prev_found [OF ch(1)] d run by (auto simp: task_remove_def)
  have "chain ?s r (xs @ ys) r"
  proof (cases xs rule: rev_cases)
    case Nil
    show ?thesis
    proof (cases ys)
      case (Cons y zs)
      then have "chain ?s y zs r" using ch(2) d Nil by (auto intro: chain_cong [of s])
      then show ?thesis using ch(2) Nil Cons by simp
    qed (use ch(2) Nil in simp)
  next
    case (snoc zs z)
    then have c1: "chain s r zs z" using ch(1) by (simp add: chain_append)
    then have c1': "chain ?s r zs z" using d snoc by (auto intro!: chain_cong [of s])
    have "chain ?s z ys r"
    proof (cases ys)
      case (Cons y ws)
      then have "chain ?s y ws r" using ch(2) d snoc by (auto intro!: chain_cong [of s])
      then show ?thesis using ch(2) snoc Cons by simp
    qed (use ch(2) snoc in simp)
    with c1' show ?thesis using snoc by (simp add: chain_append)
  qed
  then show ?thesis using found run d by auto
qed

text \<open>Removing the running task leaves its own \<open>next\<close>, so the next \<open>yield\<close> enters the rest.\<close>

lemma ring_remove_running:
  assumes "ring s (r # x # xs)"
  shows "\<exists>s' s''. task_remove r s = Some s' \<and> running s' = r \<and> advance s' = Some s'' \<and> ring s'' (x # xs) \<and>
    (\<forall>u. task_regs (tasks s'' u) = task_regs (tasks s u))"
proof -
  have ch: "next_of s r = Some x" "chain s x xs r" and run: "running s = r" and d: "distinct (r # x # xs)"
    using assms by auto
  let ?s = "set_next (last (x # xs)) (Some x) s"
  have lr: "last (x # xs) \<noteq> r" using d last_in_set [of "x # xs"] by auto
  have "find_prev s r r = Some (Some (last (r # x # xs)))"
    using ch d run by (intro find_prev_found) auto
  then have rem: "task_remove r s = Some ?s"
    using ch run by (simp add: task_remove_def)
  let ?t = "?s\<lparr>running := x\<rparr>"
  have nx: "next_of ?t u = (if u = last (x # xs) then Some x else next_of s u)" for u
    by (simp add: next_of_def set_next_def set_task_def)
  have "chain ?t x xs x"
  proof (cases xs rule: rev_cases)
    case Nil
    then show ?thesis using nx [of x] by simp
  next
    case (snoc zs z)
    then have "chain s x zs z" using ch(2) by (simp add: chain_append)
    moreover have "z \<notin> set (x # zs)" using d snoc by auto
    ultimately have "chain ?t x zs z"
      using snoc by (elim chain_cong) (auto simp: next_of_def set_next_def set_task_def)
    then show ?thesis using snoc nx [of z] by (simp add: chain_append)
  qed
  then have "ring ?t (x # xs)" using d by simp
  moreover have "advance ?s = Some ?t" using lr ch(1) run by (simp add: advance_def)
  moreover have "task_regs (tasks ?t u) = task_regs (tasks s u)" for u
    by (simp add: set_next_def set_task_def)
  ultimately show ?thesis using rem run by auto
qed

subsection \<open>Round robin\<close>

text \<open>
  What users of the scheduler rely on: the tasks form a cycle, \<open>yield\<close> rotates it, insertion
  goes right after the running task, and removal takes out one task.
\<close>

locale round_robin =
  fixes cycle :: "'s \<Rightarrow> 't list \<Rightarrow> bool"
    and current :: "'s \<Rightarrow> 't"
    and rotate :: "'s \<Rightarrow> 's option"
    and insert_after :: "'t \<Rightarrow> 's \<Rightarrow> 's"
    and remove :: "'t \<Rightarrow> 's \<Rightarrow> 's option"
  assumes cycle_current: "cycle s xs \<Longrightarrow> xs \<noteq> [] \<and> distinct xs \<and> current s = hd xs"
    and rotate_ok: "cycle s (x # xs) \<Longrightarrow> \<exists>s'. rotate s = Some s' \<and> cycle s' (xs @ [x])"
    and insert_ok: "cycle s (x # xs) \<Longrightarrow> t \<notin> set (x # xs) \<Longrightarrow> cycle (insert_after t s) (x # t # xs)"
    and remove_ok: "cycle s (x # xs) \<Longrightarrow> t \<noteq> x \<Longrightarrow>
      \<exists>s'. remove t s = Some s' \<and> cycle s' (x # remove1 t xs)"
begin

fun rotate_times :: "nat \<Rightarrow> 's \<Rightarrow> 's option" where
  "rotate_times 0 s = Some s"
| "rotate_times (Suc n) s = Option.bind (rotate s) (rotate_times n)"

lemma rotate_times_ok:
  "cycle s (xs @ ys) \<Longrightarrow> \<exists>s'. rotate_times (length xs) s = Some s' \<and> cycle s' (ys @ xs)"
proof (induction xs arbitrary: s ys)
  case (Cons x xs)
  from rotate_ok [of s x "xs @ ys"] Cons.prems obtain s1 where
    s1: "rotate s = Some s1" "cycle s1 (xs @ ys @ [x])" by auto
  with Cons.IH [of s1 "ys @ [x]"] show ?case by auto
qed auto

text \<open>Every task in the cycle becomes current after fewer rotations than there are tasks.\<close>

lemma fair:
  assumes "cycle s xs" "t \<in> set xs"
  shows "\<exists>n < length xs. \<exists>s'. rotate_times n s = Some s' \<and> current s' = t \<and> (\<exists>ys. cycle s' (t # ys))"
proof -
  obtain as bs where xs: "xs = as @ t # bs" using assms(2) by (meson split_list)
  with rotate_times_ok [of s as "t # bs"] assms(1) obtain s' where
    s': "rotate_times (length as) s = Some s'" "cycle s' (t # bs @ as)" by auto
  moreover have "current s' = t" using cycle_current [OF s'(2)] by simp
  ultimately show ?thesis using xs by (intro exI [of _ "length as"]) auto
qed

lemma full_turn: "cycle s xs \<Longrightarrow> \<exists>s'. rotate_times (length xs) s = Some s' \<and> cycle s' xs"
  using rotate_times_ok [of s xs "[]"] by simp

end

lemma ring_remove:
  assumes "ring s (x # xs)" "t \<noteq> x"
  shows "\<exists>s'. task_remove t s = Some s' \<and> ring s' (x # remove1 t xs) \<and>
    (\<forall>u. task_regs (tasks s' u) = task_regs (tasks s u))"
proof (cases "t \<in> set xs")
  case True
  then obtain as bs where xs: "xs = as @ t # bs" "t \<notin> set as" by (meson split_list_first)
  then have "remove1 t xs = as @ bs" by (simp add: remove1_append)
  with ring_remove_other [of s x as t bs] assms(1) xs(1) show ?thesis by simp
next
  case False
  with ring_remove_absent [of s x xs t] assms show ?thesis by (simp add: remove1_idem)
qed

interpretation rr: round_robin ring running advance task_add task_remove
proof
  show "xs \<noteq> [] \<and> distinct xs \<and> running s = hd xs" if "ring s xs" for s xs
    using that by (cases xs) auto
  show "\<exists>s'. advance s = Some s' \<and> ring s' (xs @ [x])" if "ring s (x # xs)" for s x xs
    using ring_advance [OF that] by blast
  show "ring (task_add t s) (x # t # xs)" if "ring s (x # xs)" "t \<notin> set (x # xs)" for s x xs t
    using ring_add [OF that] .
  show "\<exists>s'. task_remove t s = Some s' \<and> ring s' (x # remove1 t xs)" if "ring s (x # xs)" "t \<noteq> x" for s x xs t
    using ring_remove [OF that] by blast
qed

subsection \<open>Properties\<close>

fun advance_times :: "nat \<Rightarrow> sched \<Rightarrow> sched option" where
  "advance_times 0 s = Some s"
| "advance_times (Suc n) s = Option.bind (advance s) (advance_times n)"

lemma advance_times_rr: "rr.rotate_times n s = advance_times n s"
proof (induction n arbitrary: s)
  case (Suc n)
  then show ?case by (cases "advance s") simp_all
qed simp

text \<open>
  The scheduler is fair: in a well-formed ring, every task that is in the ring becomes the
  running task after fewer \<open>yield\<close>s than the ring has tasks, and the ring is still well formed.
\<close>

theorem scheduler_fair:
  assumes "ring s xs" and "t \<in> set xs"
  shows "\<exists>n < length xs. \<exists>s'. advance_times n s = Some s' \<and> running s' = t \<and> (\<exists>ys. ring s' (t # ys))"
  using rr.fair [OF assms] by (simp add: advance_times_rr)

definition sched_boot :: sched where
  "sched_boot = tasking_initialize 0x80000
     \<lparr>tasks = (\<lambda>_. \<lparr>task_regs = zero_regs, task_next = None\<rparr>), running = Main_Task\<rparr>"

lemma sched_boot_ring: "ring sched_boot [Main_Task]"
  by (simp add: sched_boot_def tasking_initialize_def Let_def set_next_def next_of_def)

lemma sched_two_ring: "ring (task_add (Proc_Task 1) sched_boot) [Main_Task, Proc_Task 1]"
  by (rule ring_add [OF sched_boot_ring]) simp

theorem scheduler_fair_witness:
  "\<exists>n < 2. \<exists>s'. advance_times n (task_add (Proc_Task 1) sched_boot) = Some s' \<and> running s' = Proc_Task 1"
  using scheduler_fair [OF sched_two_ring, of "Proc_Task 1"] by (auto simp: numeral_2_eq_2)

text \<open>
  C24. \<open>task_add\<close> and \<open>task_remove\<close> on a well-formed ring: a new task is spliced in right after the
  running one; removing any task but the running one takes exactly that task out (or nothing,
  when it is not in the ring) and the search always ends; removing the running task itself lets
  the next \<open>yield\<close> enter the ring of the others. No register set changes.
\<close>

theorem ring_operations:
  assumes "ring s (r # xs)"
  shows "(t \<notin> set (r # xs) \<longrightarrow> ring (task_add t s) (r # t # xs)) \<and>
    (t \<noteq> r \<longrightarrow> (\<exists>s'. task_remove t s = Some s' \<and> ring s' (r # remove1 t xs) \<and>
       (\<forall>u. task_regs (tasks s' u) = task_regs (tasks s u)))) \<and>
    (xs \<noteq> [] \<longrightarrow> (\<exists>s' s''. task_remove r s = Some s' \<and> running s' = r \<and> advance s' = Some s'' \<and>
       ring s'' xs \<and> (\<forall>u. task_regs (tasks s'' u) = task_regs (tasks s u))))"
proof -
  have "\<exists>s' s''. task_remove r s = Some s' \<and> running s' = r \<and> advance s' = Some s'' \<and>
       ring s'' xs \<and> (\<forall>u. task_regs (tasks s'' u) = task_regs (tasks s u))" if "xs \<noteq> []"
    using that assms ring_remove_running [of s r "hd xs" "tl xs"] by (cases xs) auto
  then show ?thesis using ring_add [OF assms] ring_remove [OF assms] by blast
qed

theorem ring_operations_witness:
  "\<exists>s' s''. task_remove Main_Task (task_add (Proc_Task 1) sched_boot) = Some s' \<and> advance s' = Some s'' \<and>
     ring s'' [Proc_Task 1]"
  using ring_operations [OF sched_two_ring] by blast

text \<open>
  C25. A context switch away from a task and, later, back to it resumes it as it was: the
  callee-saved registers, stack pointer, instruction pointer and address space it had, with
  interrupts enabled, provided its saved registers were left alone and its \<open>cr3\<close> is not 0.
\<close>

theorem switch_task_resumes:
  assumes "switch_task a b (s, c) = (s1, c1)" and "a \<noteq> b"
    and "task_regs (tasks s2 a) = task_regs (tasks s1 a)" and "d \<noteq> a" and "c_cr3 c \<noteq> 0"
    and "switch_task d a (s2, c2) = (s3, c3)"
  shows "c3 = c\<lparr>c_eflags := c_eflags c OR 0x200\<rparr>"
  using assms
  by (auto simp: switch_task_def Let_def save_context_def load_context_def)

theorem switch_task_resumes_witness:
  "\<exists>s1 c1 s3 c3 c. switch_task Main_Task (Proc_Task 1) (task_add (Proc_Task 1) sched_boot, c) = (s1, c1) \<and>
     switch_task (Proc_Task 1) Main_Task (s1, c1) = (s3, c3) \<and> c_esp c3 = 0x7000"
proof -
  define c where "c = \<lparr>c_ebx = 1, c_esi = 2, c_edi = 3, c_ebp = 4, c_esp = 0x7000, c_eip = 0x100000,
     c_eflags = 2, c_cr3 = 0x80000\<rparr>"
  obtain s1 c1 where 1: "switch_task Main_Task (Proc_Task 1) (task_add (Proc_Task 1) sched_boot, c) = (s1, c1)"
    by (cases "switch_task Main_Task (Proc_Task 1) (task_add (Proc_Task 1) sched_boot, c)")
  obtain s3 c3 where 2: "switch_task (Proc_Task 1) Main_Task (s1, c1) = (s3, c3)"
    by (cases "switch_task (Proc_Task 1) Main_Task (s1, c1)")
  have "c3 = c\<lparr>c_eflags := c_eflags c OR 0x200\<rparr>"
    by (rule switch_task_resumes [OF 1 _ refl _ _ 2]) (simp_all add: c_def)
  then have "c_esp c3 = 0x7000" by (simp add: c_def)
  with 1 2 show ?thesis by blast
qed

end
