(* ===== verification/Initrd.thy ===== *)
theory Initrd
  imports Machine
begin

text \<open>
  The virtual file system switch, \<open>kernel/arch/i386/vfs.c\<close>, and its one file system, the
  read-only ustar archive of \<open>kernel/arch/i386/initrd.c\<close>.  Function pointers in a node are the
  constructors of a datatype, one per function the code stores there.  Names are byte lists
  without the terminating NUL; \<open>rd\<close> is how the kernel reads a byte of memory (None is a fault).
\<close>

type_synonym cstring = "u8 list"

subsection \<open>Nodes\<close>

datatype read_fn = Initrd_Read
datatype readdir_fn = Initrd_Readdir
datatype finddir_fn = Initrd_Finddir

record fs_node =
  node_name :: cstring
  node_flags :: u32
  node_length :: u32
  node_inode :: u32
  node_read :: "read_fn option"
  node_readdir :: "readdir_fn option"
  node_finddir :: "finddir_fn option"

abbreviation (input) FS_FILE :: u32 where "FS_FILE \<equiv> 1"
abbreviation (input) FS_DIRECTORY :: u32 where "FS_DIRECTORY \<equiv> 2"
abbreviation (input) MAX_FILES :: nat where "MAX_FILES \<equiv> 64"

text \<open>A \<open>struct fs_node*\<close>: the root node or an element of \<open>file_nodes\<close>.\<close>

datatype node_ref = Root | File nat

text \<open>
  The static state of \<open>initrd.c\<close>.  The lists hold the first \<open>file_count\<close> elements of
  \<open>file_nodes\<close> and \<open>file_data\<close>.  \<open>fs_root\<close> is NULL until the archive has been read.
\<close>

record fs_state =
  root_node :: fs_node
  file_nodes :: "fs_node list"
  file_data :: "u32 list"
  fs_root :: "node_ref option"

definition file_count :: "fs_state \<Rightarrow> nat" where
  "file_count fs = length (file_nodes fs)"

definition node_of :: "fs_state \<Rightarrow> node_ref \<Rightarrow> fs_node" where
  "node_of fs r = (case r of Root \<Rightarrow> root_node fs | File i \<Rightarrow> file_nodes fs ! i)"

subsection \<open>Reading the archive\<close>

fun read_bytes :: "(u32 \<Rightarrow> u8 option) \<Rightarrow> u32 \<Rightarrow> nat \<Rightarrow> u8 list option" where
  "read_bytes rd a 0 = Some []"
| "read_bytes rd a (Suc n) = do {
     b \<leftarrow> rd a;
     bs \<leftarrow> read_bytes rd (a + 1) n;
     Some (b # bs)
   }"

fun octal_to_int :: "u8 list \<Rightarrow> u32 \<Rightarrow> u32" where
  "octal_to_int [] v = v"
| "octal_to_int (c # cs) v =
     (if 0x30 \<le> c \<and> c \<le> 0x37 then octal_to_int cs (v * 8 + (ucast c - 0x30)) else v)"

text \<open>
  The string \<open>strncpy\<close> reads: at most \<open>n\<close> bytes, up to the NUL.  The name field of a header has 100
  bytes and need not be terminated; the copy of 127 bytes then runs on into the next field.
\<close>

fun read_cstr :: "(u32 \<Rightarrow> u8 option) \<Rightarrow> u32 \<Rightarrow> nat \<Rightarrow> cstring option" where
  "read_cstr rd a 0 = Some []"
| "read_cstr rd a (Suc n) = do {
     b \<leftarrow> rd a;
     if b = 0 then Some []
     else do {
       bs \<leftarrow> read_cstr rd (a + 1) n;
       Some (b # bs)
     }
   }"

definition ustar_magic :: "u8 list" where
  "ustar_magic = [0x75, 0x73, 0x74, 0x61, 0x72]"

definition file_node :: "cstring \<Rightarrow> u32 \<Rightarrow> nat \<Rightarrow> fs_node" where
  "file_node name len i = \<lparr>node_name = name, node_flags = FS_FILE, node_length = len,
     node_inode = of_nat i, node_read = Some Initrd_Read, node_readdir = None, node_finddir = None\<rparr>"

definition next_header :: "u32 \<Rightarrow> u32 \<Rightarrow> u32" where
  "next_header p len = p + (512 + (len + 511) div 512 * 512)"

text \<open>The loop of \<open>initrd_initialize\<close>; the accumulators are \<open>file_nodes\<close> and \<open>file_data\<close>.\<close>

partial_function (option) initrd_scan ::
  "(u32 \<Rightarrow> u8 option) \<Rightarrow> u32 \<Rightarrow> fs_node list \<Rightarrow> u32 list \<Rightarrow> (fs_node list \<times> u32 list) option" where
  "initrd_scan rd p nodes data =
     (if length nodes < MAX_FILES then do {
        first \<leftarrow> rd p;
        if first = 0 then Some (nodes, data)
        else do {
          magic \<leftarrow> read_bytes rd (p + 257) 5;
          if magic \<noteq> ustar_magic then Some (nodes, data)
          else do {
            digits \<leftarrow> read_bytes rd (p + 124) 12;
            let len = octal_to_int digits 0;
            typeflag \<leftarrow> rd (p + 156);
            if typeflag = 0x30 \<or> typeflag = 0 then do {
              name \<leftarrow> read_cstr rd p 127;
              initrd_scan rd (next_header p len)
                (nodes @ [file_node name len (length nodes)]) (data @ [p + 512])
            }
            else initrd_scan rd (next_header p len) nodes data
          }
        }
      }
      else Some (nodes, data))"

text \<open>The name of the root is \<open>initrd\<close>.\<close>

definition initrd_name :: cstring where
  "initrd_name = [0x69, 0x6E, 0x69, 0x74, 0x72, 0x64]"

definition initrd_initialize :: "(u32 \<Rightarrow> u8 option) \<Rightarrow> u32 \<Rightarrow> fs_state \<Rightarrow> fs_state option" where
  "initrd_initialize rd location fs = do {
     (nodes, data) \<leftarrow> initrd_scan rd location (file_nodes fs) (file_data fs);
     Some (fs\<lparr>file_nodes := nodes, file_data := data,
       root_node := (root_node fs)\<lparr>node_name := initrd_name, node_flags := FS_DIRECTORY, node_length := 0,
         node_read := None, node_readdir := Some Initrd_Readdir, node_finddir := Some Initrd_Finddir\<rparr>,
       fs_root := Some Root\<rparr>)
   }"

subsection \<open>Operations on nodes\<close>

text \<open>
  \<open>memcpy(buffer, data, n)\<close> is a parameter: it copies \<open>n\<close> bytes in whatever memory the caller
  works on.
\<close>

definition initrd_read ::
  "(u32 \<Rightarrow> u32 \<Rightarrow> nat \<Rightarrow> 's \<Rightarrow> 's option) \<Rightarrow> fs_state \<Rightarrow> node_ref \<Rightarrow> u32 \<Rightarrow> u32 \<Rightarrow> u32 \<Rightarrow> 's \<Rightarrow> (u32 \<times> 's) option" where
  "initrd_read copy fs node offset sz buffer s =
     (let n = node_of fs node in
      if offset \<ge> node_length n then Some (0, s)
      else
        let sz = (if offset + sz > node_length n then node_length n - offset else sz)
        in do {
          s \<leftarrow> copy buffer (file_data fs ! unat (node_inode n) + offset) (unat sz) s;
          Some (sz, s)
        })"

definition initrd_readdir :: "fs_state \<Rightarrow> u32 \<Rightarrow> (cstring \<times> u32) option" where
  "initrd_readdir fs index =
     (if unat index \<ge> file_count fs then None
      else Some (node_name (file_nodes fs ! unat index), index))"

fun find_name :: "cstring \<Rightarrow> fs_node list \<Rightarrow> nat \<Rightarrow> nat option" where
  "find_name name [] i = None"
| "find_name name (n # ns) i = (if node_name n = name then Some i else find_name name ns (Suc i))"

definition initrd_finddir :: "fs_state \<Rightarrow> cstring \<Rightarrow> node_ref option" where
  "initrd_finddir fs name = map_option File (find_name name (file_nodes fs) 0)"

definition vfs_read ::
  "(u32 \<Rightarrow> u32 \<Rightarrow> nat \<Rightarrow> 's \<Rightarrow> 's option) \<Rightarrow> fs_state \<Rightarrow> node_ref option \<Rightarrow> u32 \<Rightarrow> u32 \<Rightarrow> u32 \<Rightarrow> 's \<Rightarrow> (u32 \<times> 's) option" where
  "vfs_read copy fs node offset sz buffer s =
     (case node of
        None \<Rightarrow> Some (0, s)
      | Some r \<Rightarrow> (case node_read (node_of fs r) of
          None \<Rightarrow> Some (0, s)
        | Some Initrd_Read \<Rightarrow> initrd_read copy fs r offset sz buffer s))"

definition vfs_readdir :: "fs_state \<Rightarrow> node_ref option \<Rightarrow> u32 \<Rightarrow> (cstring \<times> u32) option" where
  "vfs_readdir fs node index =
     (case node of
        None \<Rightarrow> None
      | Some r \<Rightarrow>
          if node_flags (node_of fs r) AND FS_DIRECTORY = 0 then None
          else (case node_readdir (node_of fs r) of
            None \<Rightarrow> None | Some Initrd_Readdir \<Rightarrow> initrd_readdir fs index))"

definition vfs_finddir :: "fs_state \<Rightarrow> node_ref option \<Rightarrow> cstring \<Rightarrow> node_ref option" where
  "vfs_finddir fs node name =
     (case node of
        None \<Rightarrow> None
      | Some r \<Rightarrow>
          if node_flags (node_of fs r) AND FS_DIRECTORY = 0 then None
          else (case node_finddir (node_of fs r) of
            None \<Rightarrow> None | Some Initrd_Finddir \<Rightarrow> initrd_finddir fs name))"

subsection \<open>Archives\<close>

text \<open>An archive in memory, as \<open>tar\<close> writes it: entries, then a header that starts with NUL.\<close>

record tar_entry =
  te_name :: cstring
  te_type :: u8
  te_len :: u32

fun octal_digits :: "nat \<Rightarrow> u32 \<Rightarrow> u8 list" where
  "octal_digits 0 n = []"
| "octal_digits (Suc k) n = octal_digits k (n div 8) @ [0x30 + ucast (n mod 8)]"

definition octal_field :: "u32 \<Rightarrow> u8 list" where
  "octal_field n = octal_digits 11 n @ [0]"

definition header_at :: "(u32 \<Rightarrow> u8 option) \<Rightarrow> u32 \<Rightarrow> tar_entry \<Rightarrow> bool" where
  "header_at rd p e \<longleftrightarrow>
     te_name e \<noteq> [] \<and> length (te_name e) < 100 \<and> 0 \<notin> set (te_name e) \<and>
     read_bytes rd p (Suc (length (te_name e))) = Some (te_name e @ [0]) \<and>
     read_bytes rd (p + 124) 12 = Some (octal_field (te_len e)) \<and>
     rd (p + 156) = Some (te_type e) \<and>
     read_bytes rd (p + 257) 5 = Some ustar_magic"

fun archive_at :: "(u32 \<Rightarrow> u8 option) \<Rightarrow> u32 \<Rightarrow> tar_entry list \<Rightarrow> bool" where
  "archive_at rd p [] \<longleftrightarrow> rd p = Some 0"
| "archive_at rd p (e # es) \<longleftrightarrow> header_at rd p e \<and> archive_at rd (next_header p (te_len e)) es"

definition regular :: "tar_entry \<Rightarrow> bool" where
  "regular e \<longleftrightarrow> te_type e = 0x30 \<or> te_type e = 0"

text \<open>The files of an archive: name, length and address of the contents.\<close>

fun archive_files :: "u32 \<Rightarrow> tar_entry list \<Rightarrow> (cstring \<times> u32 \<times> u32) list" where
  "archive_files p [] = []"
| "archive_files p (e # es) =
     (if regular e then [(te_name e, te_len e, p + 512)] else []) @ archive_files (next_header p (te_len e)) es"

text \<open>What the loop appends, from file number \<open>i\<close> on.\<close>

fun nodes_from :: "nat \<Rightarrow> (cstring \<times> u32 \<times> u32) list \<Rightarrow> fs_node list" where
  "nodes_from i [] = []"
| "nodes_from i ((name, len, a) # fs) = file_node name len i # nodes_from (Suc i) fs"

subsection \<open>Octal numbers\<close>

lemma octal_to_int_digit:
  assumes "d < 8"
  shows "octal_to_int ((0x30 + ucast (d::u32)) # cs) v = octal_to_int cs (v * 8 + d)"
proof -
  have n: "unat d < 8" using assms by (simp add: word_less_nat_alt)
  then have u: "unat (ucast d :: u8) = unat d" by (simp add: unsigned_ucast_eq take_bit_nat_eq_self)
  have c: "unat (0x30 + ucast d :: u8) = 0x30 + unat d" using n u by (simp add: unat_word_ariths)
  then have "0x30 \<le> (0x30 + ucast d :: u8)" "(0x30 + ucast d :: u8) \<le> 0x37"
    using n by (simp_all add: word_le_nat_alt)
  moreover have "ucast (0x30 + ucast d :: u8) - 0x30 = d"
  proof -
    have "unat (ucast (0x30 + ucast d :: u8) :: u32) = 0x30 + unat d"
      using c n by (simp add: unsigned_ucast_eq take_bit_nat_eq_self)
    moreover have "unat (0x30 + d) = 0x30 + unat d" using n by (simp add: unat_word_ariths)
    ultimately have "ucast (0x30 + ucast d :: u8) = 0x30 + d" by (simp add: word_unat_eq_iff)
    then show ?thesis by simp
  qed
  ultimately show ?thesis by simp
qed

lemma octal_digits_value:
  "octal_to_int (octal_digits k n @ cs) v = octal_to_int cs (v * 8 ^ k + of_nat (unat n mod 8 ^ k))"
proof (induction k arbitrary: n cs)
  case (Suc k)
  have d: "n mod 8 < 8" by (simp add: word_less_nat_alt unat_mod)
  have "octal_to_int (octal_digits (Suc k) n @ cs) v =
      octal_to_int cs ((v * 8 ^ k + of_nat (unat (n div 8) mod 8 ^ k)) * 8 + n mod 8)"
    using octal_to_int_digit [OF d] by (simp add: Suc.IH)
  moreover have "unat n mod 8 ^ Suc k = 8 * (unat (n div 8) mod 8 ^ k) + unat n mod 8"
    by (simp add: unat_div_distrib mod_mult2_eq)
  moreover have "n mod 8 = of_nat (unat n mod 8)" by (simp add: word_unat_eq_iff unat_mod unat_of_nat)
  ultimately show ?case by (simp add: algebra_simps)
qed simp

lemma octal_roundtrip: "octal_to_int (octal_field n) 0 = n"
proof -
  have "unat n < 8 ^ 11" using unat_less_2p32 [of n] by simp
  then have "of_nat (unat n mod 8 ^ 11) = n" by simp
  then show ?thesis
    using octal_digits_value [of 11 n "[0]" 0] by (simp add: octal_field_def)
qed

subsection \<open>The scan\<close>

lemma read_cstr_bytes:
  "read_bytes rd p (Suc (length cs)) = Some (cs @ [0]) \<Longrightarrow> 0 \<notin> set cs \<Longrightarrow> length cs < n \<Longrightarrow>
     read_cstr rd p n = Some cs"
proof (induction cs arbitrary: p n)
  case Nil
  then show ?case by (cases n) (auto simp: bind_eq_Some_conv)
next
  case (Cons c cs)
  then obtain m where n: "n = Suc m" "length cs < m" by (cases n) auto
  from Cons.prems have "rd p = Some c" "read_bytes rd (p + 1) (Suc (length cs)) = Some (cs @ [0])" "c \<noteq> 0"
    by (auto simp: bind_eq_Some_conv)
  with Cons.IH [of "p + 1" m] Cons.prems n show ?case by simp
qed

lemma header_first:
  assumes "header_at rd p e"
  shows "\<exists>c. rd p = Some c \<and> c \<noteq> 0"
proof -
  from assms obtain c cs where "te_name e = c # cs" "c \<noteq> 0"
    "read_bytes rd p (Suc (length (te_name e))) = Some (te_name e @ [0])"
    by (cases "te_name e") (auto simp: header_at_def)
  then show ?thesis by (auto simp: bind_eq_Some_conv)
qed

lemma initrd_scan_step:
  assumes "header_at rd p e" "length nodes < MAX_FILES"
  shows "initrd_scan rd p nodes data =
    (if regular e
     then initrd_scan rd (next_header p (te_len e))
       (nodes @ [file_node (te_name e) (te_len e) (length nodes)]) (data @ [p + 512])
     else initrd_scan rd (next_header p (te_len e)) nodes data)"
proof -
  obtain c where c: "rd p = Some c" "c \<noteq> 0" using header_first [OF assms(1)] by blast
  have "read_cstr rd p 127 = Some (te_name e)"
    using assms(1) by (intro read_cstr_bytes) (auto simp: header_at_def)
  with assms c show ?thesis
    by (subst initrd_scan.simps)
      (simp add: header_at_def octal_roundtrip regular_def Let_def del: read_bytes.simps read_cstr.simps)
qed

lemma initrd_scan_archive:
  assumes "archive_at rd p es" "length nodes \<le> MAX_FILES"
  shows "initrd_scan rd p nodes data =
    Some (nodes @ nodes_from (length nodes) (take (MAX_FILES - length nodes) (archive_files p es)),
      data @ map (snd \<circ> snd) (take (MAX_FILES - length nodes) (archive_files p es)))"
  using assms
proof (induction es arbitrary: p nodes data)
  case Nil
  then show ?case by (subst initrd_scan.simps) auto
next
  case (Cons e es)
  show ?case
  proof (cases "length nodes < MAX_FILES")
    case False
    then show ?thesis using Cons.prems by (subst initrd_scan.simps) auto
  next
    case True
    have rest: "archive_at rd (next_header p (te_len e)) es" using Cons.prems by simp
    obtain k where k: "MAX_FILES - length nodes = Suc k" using True by (metis Suc_diff_Suc)
    then have k': "MAX_FILES - Suc (length nodes) = k" by simp
    have h: "header_at rd p e" using Cons.prems(1) by simp
    show ?thesis
    proof (cases "regular e")
      case reg: True
      let ?nodes = "nodes @ [file_node (te_name e) (te_len e) (length nodes)]"
      have "length ?nodes \<le> MAX_FILES" using True by simp
      from Cons.IH [OF rest this, of "data @ [p + 512]"] show ?thesis
        using reg k k' by (simp add: initrd_scan_step [OF h True])
    next
      case False
      from Cons.IH [OF rest Cons.prems(2), of data] show ?thesis
        using False k by (simp add: initrd_scan_step [OF h True])
    qed
  qed
qed

subsection \<open>The mounted archive\<close>

lemma nodes_from_nth:
  "i < length fl \<Longrightarrow> nodes_from k fl ! i = (case fl ! i of (name, len, a) \<Rightarrow> file_node name len (k + i))"
proof (induction k fl arbitrary: i rule: nodes_from.induct)
  case (2 k name len a fl)
  then show ?case by (cases i) auto
qed simp

lemma nodes_from_length [simp]: "length (nodes_from k fl) = length fl"
  by (induction k fl rule: nodes_from.induct) auto

lemma take_nth: "i < length (take n xs) \<Longrightarrow> take n xs ! i = xs ! i"
  by simp

lemma find_name_nodes:
  "find_name name (nodes_from k fl) i =
     (if name \<in> fst ` set fl then Some (i + (LEAST j. j < length fl \<and> fst (fl ! j) = name)) else None)"
proof (induction k fl arbitrary: i rule: nodes_from.induct)
  case (2 k n len a fl)
  let ?P = "\<lambda>j. j < length ((n, len, a) # fl) \<and> fst (((n, len, a) # fl) ! j) = name"
  show ?case
  proof (cases "n = name")
    case True
    then have "(LEAST j. ?P j) = 0" by (intro Least_equality) auto
    then show ?thesis using True by (simp add: file_node_def)
  next
    case False
    show ?thesis
    proof (cases "name \<in> fst ` set fl")
      case mem: True
      then have "\<exists>j. j < length fl \<and> fst (fl ! j) = name" by (force simp: in_set_conv_nth)
      then obtain j where "?P (Suc j)" by (metis Suc_less_eq length_Cons nth_Cons_Suc)
      then have "(LEAST j. ?P j) = Suc (LEAST j. ?P (Suc j))"
        using False by (intro Least_Suc [of ?P "Suc j"]) auto
      then show ?thesis using False mem "2.IH" by (simp add: file_node_def)
    qed (use False "2.IH" in \<open>auto simp: file_node_def\<close>)
  qed
qed simp

lemma initrd_mounted:
  assumes "archive_at rd location es" "file_nodes fs = []" "file_data fs = []"
  shows "\<exists>fs'. initrd_initialize rd location fs = Some fs' \<and> fs_root fs' = Some Root \<and>
    node_flags (root_node fs') = FS_DIRECTORY \<and> node_readdir (root_node fs') = Some Initrd_Readdir \<and>
    node_finddir (root_node fs') = Some Initrd_Finddir \<and> node_read (root_node fs') = None \<and>
    file_nodes fs' = nodes_from 0 (take MAX_FILES (archive_files location es)) \<and>
    file_data fs' = map (snd \<circ> snd) (take MAX_FILES (archive_files location es))"
  using initrd_scan_archive [OF assms(1), of "[]" "[]"] assms(2,3)
  by (simp add: initrd_initialize_def)


text \<open>A small archive: a directory and a file \<open>a\<close> of three bytes.\<close>

definition header_byte :: "tar_entry \<Rightarrow> nat \<Rightarrow> u8" where
  "header_byte e k =
     (if k < length (te_name e) then te_name e ! k
      else if 124 \<le> k \<and> k < 136 then octal_field (te_len e) ! (k - 124)
      else if k = 156 then te_type e
      else if 257 \<le> k \<and> k < 262 then ustar_magic ! (k - 257)
      else 0)"

abbreviation sample_dir :: tar_entry where
  "sample_dir \<equiv> \<lparr>te_name = [0x64, 0x2F], te_type = 0x35, te_len = 0\<rparr>"

abbreviation sample_file :: tar_entry where
  "sample_file \<equiv> \<lparr>te_name = [0x61], te_type = 0x30, te_len = 3\<rparr>"

definition sample_rd :: "u32 \<Rightarrow> u8 option" where
  "sample_rd a = Some (let k = unat (a - 0x155000) in
     if k < 512 then header_byte sample_dir k
     else if k < 1024 then header_byte sample_file (k - 512)
     else if k < 1027 then [0x68, 0x69, 0x0A] ! (k - 1024) else 0)"

lemma read_bytes_numeral:
  "read_bytes rd a (numeral k) =
     do { b \<leftarrow> rd a; bs \<leftarrow> read_bytes rd (a + 1) (pred_numeral k); Some (b # bs) }"
  by (simp add: numeral_eq_Suc)

lemma octal_digits_numeral:
  "octal_digits (numeral k) n = octal_digits (pred_numeral k) (n div 8) @ [0x30 + ucast (n mod 8)]"
  by (simp add: numeral_eq_Suc)

lemma octal_samples:
  "octal_field 0 = [0x30, 0x30, 0x30, 0x30, 0x30, 0x30, 0x30, 0x30, 0x30, 0x30, 0x30, 0]"
  "octal_field 3 = [0x30, 0x30, 0x30, 0x30, 0x30, 0x30, 0x30, 0x30, 0x30, 0x30, 0x33, 0]"
  by (simp_all add: octal_field_def octal_digits_numeral)

lemma sample_archive_at: "archive_at sample_rd 0x155000 [sample_dir, sample_file]"
  by (simp add: header_at_def sample_rd_def header_byte_def next_header_def octal_samples
      read_bytes_numeral ustar_magic_def)

definition fs_empty :: fs_state where
  "fs_empty = \<lparr>root_node = file_node [] 0 0, file_nodes = [], file_data = [], fs_root = None\<rparr>"


text \<open>One read: the slice of the contents it copies.\<close>

lemma initrd_read_slice:
  assumes node: "node_length (node_of fs r) = len" "file_data fs ! unat (node_inode (node_of fs r)) = a"
    and nw: "unat offset + unat sz < 2 ^ 32"
  shows "initrd_read copy fs r offset sz buf s =
    (let n = min (unat sz) (unat len - unat offset) in
     if len \<le> offset then Some (0, s) else map_option (Pair (of_nat n)) (copy buf (a + offset) n s))"
proof -
  have sum: "unat (offset + sz) = unat offset + unat sz" using nw by (simp add: unat_word_ariths)
  consider (past) "len \<le> offset" | (cut) "offset < len" "len < offset + sz" | (all) "offset < len" "offset + sz \<le> len"
    by (meson not_less)
  then show ?thesis
  proof cases
    case past
    then show ?thesis by (simp add: initrd_read_def node)
  next
    case cut
    have sub: "unat (len - offset) = unat len - unat offset"
      using cut(1) by (simp add: unat_sub order_less_imp_le)
    have "unat len - unat offset \<le> unat sz" using cut(2) sum by (simp add: word_less_nat_alt)
    then have m: "min (unat sz) (unat len - unat offset) = unat (len - offset)" using sub by simp
    show ?thesis using cut unfolding m by (auto simp: initrd_read_def Let_def node map_conv_bind_option o_def)
  next
    case all
    have "unat sz \<le> unat len - unat offset" using all(2) sum by (simp add: word_le_nat_alt)
    then have m: "min (unat sz) (unat len - unat offset) = unat sz" by simp
    show ?thesis using all unfolding m by (auto simp: initrd_read_def Let_def node map_conv_bind_option o_def)
  qed
qed

text \<open>
  C23. Finding a name through the VFS gives the first file of the archive with that name, or NULL
  when none has it; and reading the file that was found copies, for an offset and size whose sum
  does not wrap, exactly the bytes of its contents from the offset on, at most \<open>sz\<close> and never
  past the end of the file, and returns how many.
\<close>

theorem initrd_find_read:
  assumes "archive_at rd location es" and "file_nodes fs = []" and "file_data fs = []"
    and files: "take MAX_FILES (archive_files location es) = files"
  shows "\<exists>fs'. initrd_initialize rd location fs = Some fs' \<and>
    (\<forall>name. name \<notin> fst ` set files \<longrightarrow> vfs_finddir fs' (fs_root fs') name = None) \<and>
    (\<forall>i name len a. i < length files \<longrightarrow> files ! i = (name, len, a) \<longrightarrow> (\<forall>j < i. fst (files ! j) \<noteq> name) \<longrightarrow>
       vfs_finddir fs' (fs_root fs') name = Some (File i) \<and>
       (\<forall>copy offset sz buf (s::'s). unat offset + unat sz < 2 ^ 32 \<longrightarrow>
          vfs_read copy fs' (Some (File i)) offset sz buf s =
            (let n = min (unat sz) (unat len - unat offset) in
             if len \<le> offset then Some (0, s) else map_option (Pair (of_nat n)) (copy buf (a + offset) n s))))"
proof -
  obtain fs' where fs': "initrd_initialize rd location fs = Some fs'" "fs_root fs' = Some Root"
    "node_flags (root_node fs') = FS_DIRECTORY" "node_finddir (root_node fs') = Some Initrd_Finddir"
    "file_nodes fs' = nodes_from 0 files" "file_data fs' = map (snd \<circ> snd) files"
    using initrd_mounted [OF assms(1-3)] unfolding files by blast
  have find: "vfs_finddir fs' (fs_root fs') name =
      (if name \<in> fst ` set files then Some (File (LEAST j. j < length files \<and> fst (files ! j) = name)) else None)"
    for name
    using fs'(2-5) by (simp add: vfs_finddir_def node_of_def initrd_finddir_def find_name_nodes)
  have least: "(LEAST j. j < length files \<and> fst (files ! j) = fst (files ! i)) = i"
    if "i < length files" "\<forall>j < i. fst (files ! j) \<noteq> fst (files ! i)" for i
    using that by (intro Least_equality) (auto simp: not_less [symmetric])
  have short: "length files \<le> 64" unfolding files [symmetric] by simp
  have read: "vfs_read copy fs' (Some (File i)) offset sz buf s =
      (let n = min (unat sz) (unat len - unat offset) in
       if len \<le> offset then Some (0, s) else map_option (Pair (of_nat n)) (copy buf (a + offset) n s))"
    if i: "i < length files" and f: "files ! i = (name, len, a)" and nw: "unat offset + unat sz < 2 ^ 32"
    for i name len a copy offset sz buf and s :: 's
  proof -
    have node: "node_of fs' (File i) = file_node name len i" "file_data fs' ! i = a"
      using nodes_from_nth [OF i, of 0] fs'(5,6) f i by (simp_all add: node_of_def)
    have ino: "unat (of_nat i :: u32) = i" using i short by (simp add: unat_of_nat)
    have "vfs_read copy fs' (Some (File i)) offset sz buf s = initrd_read copy fs' (File i) offset sz buf s"
      by (simp add: vfs_read_def node file_node_def)
    then show ?thesis
      using initrd_read_slice [of fs' "File i" len a offset sz copy buf s] node ino nw f
      by (simp add: file_node_def Let_def)
  qed
  have "vfs_finddir fs' (fs_root fs') name = Some (File i)"
    if h: "i < length files" "files ! i = (name, len, a)" "\<forall>j < i. fst (files ! j) \<noteq> name" for i name len a
  proof -
    have "name = fst (files ! i)" using h(2) by simp
    then have "name \<in> fst ` set files" using h(1) by simp
    then show ?thesis using find [of name] least [of i] h by simp
  qed
  moreover have "\<forall>name. name \<notin> fst ` set files \<longrightarrow> vfs_finddir fs' (fs_root fs') name = None"
    using find by simp
  ultimately show ?thesis
    using fs'(1) read by (intro exI [of _ fs'] conjI allI impI) blast+
qed

theorem initrd_find_read_witness:
  "\<exists>fs'. initrd_initialize sample_rd 0x155000 fs_empty = Some fs' \<and>
     vfs_finddir fs' (fs_root fs') [0x61] = Some (File 0) \<and>
     vfs_finddir fs' (fs_root fs') [0x62] = None \<and>
     vfs_read (\<lambda>b a n s. Some (b, a, n)) fs' (Some (File 0)) 1 100 0x2000 (0, 0, 0) =
       Some (2, 0x2000, 0x155401, 2)"
proof -
  have files: "archive_files 0x155000 [sample_dir, sample_file] = [([0x61], 3, 0x155400)]"
    by (simp add: regular_def next_header_def)
  have one: "take 64 (archive_files 0x155000 [sample_dir, sample_file]) = [([0x61], 3, 0x155400)]"
    unfolding files by simp
  have e: "file_nodes fs_empty = []" "file_data fs_empty = []" by (simp_all add: fs_empty_def)
  let ?fl = "[([0x61], 3, 0x155400)] :: (cstring \<times> u32 \<times> u32) list"
  note T = initrd_find_read [OF sample_archive_at e one, where 's = "u32 \<times> u32 \<times> nat"]
  from T obtain fs' where init: "initrd_initialize sample_rd 0x155000 fs_empty = Some fs'"
    and absent: "\<forall>name. name \<notin> fst ` set ?fl \<longrightarrow> vfs_finddir fs' (fs_root fs') name = None"
    and found: "\<And>i name len a. i < length ?fl \<Longrightarrow>
       ?fl ! i = (name, len, a) \<Longrightarrow> (\<forall>j < i. fst (?fl ! j) \<noteq> name) \<Longrightarrow>
       vfs_finddir fs' (fs_root fs') name = Some (File i) \<and>
       (\<forall>copy offset sz buf (s :: u32 \<times> u32 \<times> nat). unat offset + unat sz < 2 ^ 32 \<longrightarrow>
          vfs_read copy fs' (Some (File i)) offset sz buf s =
            (let n = min (unat sz) (unat len - unat offset) in
             if len \<le> offset then Some (0, s) else map_option (Pair (of_nat n)) (copy buf (a + offset) n s)))"
    by meson
  note F = found [of 0 "[0x61]" 3 "0x155400", simplified]
  have "vfs_read (\<lambda>b a n s. Some (b, a, n)) fs' (Some (File 0)) 1 100 0x2000 (0, 0, 0) =
      Some (2, 0x2000, 0x155401, 2)"
    by (subst conjunct2 [OF F, rule_format]) (simp_all add: word_le_nat_alt)
  then show ?thesis using init absent F by auto
qed

end
