(* ===== verification/Elf.thy ===== *)
theory Elf
  imports Kheap
begin

text \<open>
  The ELF loader, \<open>kernel/arch/i386/elf.c\<close> and \<open>kernel/include/kernel/elf.h\<close>.  The image is read
  where the caller put it, through the MMU, one structure member at a time and in the order of
  the code; the segments and the relocations are written into the current address space.
  The diagnostics that \<open>elf.c\<close> prints are left out.
\<close>

abbreviation (input) PT_LOAD :: u32 where "PT_LOAD \<equiv> 1"
abbreviation (input) PT_DYNAMIC :: u32 where "PT_DYNAMIC \<equiv> 2"
abbreviation (input) ET_EXEC :: u32 where "ET_EXEC \<equiv> 2"
abbreviation (input) ET_DYN :: u32 where "ET_DYN \<equiv> 3"
abbreviation (input) DT_REL :: u32 where "DT_REL \<equiv> 17"
abbreviation (input) DT_RELSZ :: u32 where "DT_RELSZ \<equiv> 18"
abbreviation (input) DT_RELENT :: u32 where "DT_RELENT \<equiv> 19"
abbreviation (input) R_386_RELATIVE :: u32 where "R_386_RELATIVE \<equiv> 8"

subsection \<open>Structure members\<close>

definition vread16 :: "mm_state \<Rightarrow> u32 \<Rightarrow> u32 option" where
  "vread16 s a = do {
     b0 \<leftarrow> vread8 s a;
     b1 \<leftarrow> vread8 s (a + 1);
     Some (ucast b0 OR push_bit 8 (ucast b1))
   }"

definition e_type :: "u32 \<Rightarrow> mm_state \<Rightarrow> u32 option" where "e_type eh s = vread16 s (eh + 16)"
definition e_machine :: "u32 \<Rightarrow> mm_state \<Rightarrow> u32 option" where "e_machine eh s = vread16 s (eh + 18)"
definition e_entry :: "u32 \<Rightarrow> mm_state \<Rightarrow> u32 option" where "e_entry eh s = vread32 s (eh + 24)"
definition e_phoff :: "u32 \<Rightarrow> mm_state \<Rightarrow> u32 option" where "e_phoff eh s = vread32 s (eh + 28)"
definition e_phnum :: "u32 \<Rightarrow> mm_state \<Rightarrow> u32 option" where "e_phnum eh s = vread16 s (eh + 44)"

definition p_type :: "u32 \<Rightarrow> mm_state \<Rightarrow> u32 option" where "p_type ph s = vread32 s ph"
definition p_offset :: "u32 \<Rightarrow> mm_state \<Rightarrow> u32 option" where "p_offset ph s = vread32 s (ph + 4)"
definition p_vaddr :: "u32 \<Rightarrow> mm_state \<Rightarrow> u32 option" where "p_vaddr ph s = vread32 s (ph + 8)"
definition p_filesz :: "u32 \<Rightarrow> mm_state \<Rightarrow> u32 option" where "p_filesz ph s = vread32 s (ph + 16)"
definition p_memsz :: "u32 \<Rightarrow> mm_state \<Rightarrow> u32 option" where "p_memsz ph s = vread32 s (ph + 20)"

text \<open>Element \<open>i\<close> of the program header array.\<close>

definition phdr :: "u32 \<Rightarrow> nat \<Rightarrow> u32" where
  "phdr ph i = ph + 32 * of_nat i"

subsection \<open>Relocation\<close>

text \<open>The last \<open>PT_DYNAMIC\<close> header wins; 0 is a null \<open>dyn\<close>.\<close>

fun find_dynamic :: "u32 \<Rightarrow> u32 \<Rightarrow> nat list \<Rightarrow> u32 \<Rightarrow> mm_state \<Rightarrow> u32 option" where
  "find_dynamic base ph [] dyn s = Some dyn"
| "find_dynamic base ph (i # is) dyn s = do {
     t \<leftarrow> p_type (phdr ph i) s;
     if t = PT_DYNAMIC then do {
       v \<leftarrow> p_vaddr (phdr ph i) s;
       find_dynamic base ph is (base + v) s
     }
     else find_dynamic base ph is dyn s
   }"

text \<open>The dynamic table up to \<open>DT_NULL\<close>: \<open>rel\<close>, \<open>relsz\<close> and \<open>relent\<close>.\<close>

partial_function (option) scan_dynamic ::
  "u32 \<Rightarrow> mm_state \<Rightarrow> u32 \<Rightarrow> u32 \<times> u32 \<times> u32 \<Rightarrow> (u32 \<times> u32 \<times> u32) option" where
  "scan_dynamic base s d r = do {
     tag \<leftarrow> vread32 s d;
     if tag = 0 then Some r
     else do {
       r \<leftarrow> (if tag = DT_REL then map_option (\<lambda>v. (base + v, snd r)) (vread32 s (d + 4))
             else if tag = DT_RELSZ then map_option (\<lambda>v. (fst r, v, snd (snd r))) (vread32 s (d + 4))
             else if tag = DT_RELENT then map_option (\<lambda>v. (fst r, fst (snd r), v)) (vread32 s (d + 4))
             else Some r);
       scan_dynamic base s (d + 8) r
     }
   }"

text \<open>One relocation entry at \<open>r\<close>: only \<open>R_386_RELATIVE\<close> changes memory.\<close>

definition apply_one :: "u32 \<Rightarrow> u32 \<Rightarrow> mm_state \<Rightarrow> mm_state option" where
  "apply_one base r s = do {
     info \<leftarrow> vread32 s (r + 4);
     if info AND 0xFF = R_386_RELATIVE then do {
       off \<leftarrow> vread32 s r;
       v \<leftarrow> vread32 s (base + off);
       vwrite32 s (base + off) (v + base)
     }
     else Some s
   }"

partial_function (option) reloc_loop :: "u32 \<Rightarrow> u32 \<Rightarrow> u32 \<Rightarrow> u32 \<Rightarrow> u32 \<Rightarrow> mm_state \<Rightarrow> mm_state option" where
  "reloc_loop base rel relsz relent off s =
     (if off < relsz then do {
        s \<leftarrow> apply_one base (rel + off) s;
        reloc_loop base rel relsz relent (off + relent) s
      }
      else Some s)"

definition apply_relocations :: "u32 \<Rightarrow> u32 \<Rightarrow> mm_state \<Rightarrow> mm_state option" where
  "apply_relocations eh base s = do {
     phoff \<leftarrow> e_phoff eh s;
     n \<leftarrow> e_phnum eh s;
     dyn \<leftarrow> find_dynamic base (eh + phoff) [0 ..< unat n] 0 s;
     if dyn = 0 then Some s
     else do {
       (rel, relsz, relent) \<leftarrow> scan_dynamic base s dyn (0, 0, 8);
       reloc_loop base rel relsz relent 0 s
     }
   }"

subsection \<open>Loading\<close>

text \<open>The body of the page loop; it leaves \<open>elf_load\<close> when there is no frame.\<close>

definition load_page :: "u32 \<Rightarrow> mm_state \<Rightarrow> (bool \<times> mm_state) option" where
  "load_page v s =
     (let (frame, s) = mm_alloc s in
      if frame = 0 then Some (False, s)
      else do {
        s \<leftarrow> paging_map v frame (PAGE_USER OR PAGE_WRITE) s;
        s \<leftarrow> vmemset s v 0 0x1000;
        Some (True, s)
      })"

text \<open>The body of the loop over the program headers; the state carries \<open>highest\<close>.\<close>

definition load_segment :: "u32 \<Rightarrow> u32 \<Rightarrow> u32 \<Rightarrow> nat \<Rightarrow> u32 \<times> mm_state \<Rightarrow> (bool \<times> u32 \<times> mm_state) option" where
  "load_segment data base ph i st = do {
     let (highest, s) = st;
     let p = phdr ph i;
     t \<leftarrow> p_type p s;
     if t \<noteq> PT_LOAD then Some (True, highest, s)
     else do {
       vaddr \<leftarrow> p_vaddr p s;
       memsz \<leftarrow> p_memsz p s;
       let start = page_down (base + vaddr);
       let finish = page_up (base + vaddr + memsz);
       let highest = (if finish > highest then finish else highest);
       pages \<leftarrow> page_addrs start finish;
       (ok, s) \<leftarrow> try_each load_page pages s;
       if \<not> ok then Some (False, highest, s)
       else do {
         off \<leftarrow> p_offset p s;
         filesz \<leftarrow> p_filesz p s;
         s \<leftarrow> vmemcpy s (base + vaddr) (data + off) (unat filesz);
         Some (True, highest, s)
       }
     }
   }"

text \<open>The checks at the start: Some base when the header is acceptable.\<close>

definition check_header :: "u32 \<Rightarrow> u32 \<Rightarrow> mm_state \<Rightarrow> u32 option option" where
  "check_header data sz s =
     (if sz < 52 then Some None
      else do {
        m0 \<leftarrow> vread8 s data; m1 \<leftarrow> vread8 s (data + 1);
        m2 \<leftarrow> vread8 s (data + 2); m3 \<leftarrow> vread8 s (data + 3);
        if [m0, m1, m2, m3] \<noteq> [0x7F, 0x45, 0x4C, 0x46] then Some None
        else do {
          cls \<leftarrow> vread8 s (data + 4);
          if cls \<noteq> 1 then Some None
          else do {
            machine \<leftarrow> e_machine data s;
            if machine \<noteq> 3 then Some None
            else do {
              t \<leftarrow> e_type data s;
              Some (if t = ET_DYN then Some 0x40000000 else if t \<noteq> ET_EXEC then None else Some 0)
            }
          }
        }
      })"

text \<open>The entry point, or 0 on failure, and what is stored in \<open>*out_break\<close>, if anything.\<close>

definition elf_load :: "u32 \<Rightarrow> u32 \<Rightarrow> mm_state \<Rightarrow> ((u32 \<times> u32 option) \<times> mm_state) option" where
  "elf_load data sz s = do {
     header \<leftarrow> check_header data sz s;
     case header of
       None \<Rightarrow> Some ((0, None), s)
     | Some base \<Rightarrow> do {
         phoff \<leftarrow> e_phoff data s;
         n \<leftarrow> e_phnum data s;
         (ok, highest, s) \<leftarrow> try_each (load_segment data base (data + phoff)) [0 ..< unat n] (0, s);
         if \<not> ok then Some ((0, None), s)
         else do {
           s \<leftarrow> apply_relocations data base s;
           entry \<leftarrow> e_entry data s;
           Some ((base + entry, Some highest), s)
         }
       }
   }"

subsection \<open>The page loop\<close>

interpretation elf_loop: page_mapper load_page 6 "Some 0"
proof
  fix s va assume h: "owns s" "private_page va" "page_down va = va" "2 \<le> card (avail (pmm s))"
  have "(6::u32) AND NOT 0xFFF = 0" by simp
  then obtain frame sa s1 where s1: "mm_alloc s = (frame, sa)" "paging_map va frame 6 sa = Some s1"
    "page_added va 6 frame s s1"
    using alloc_map_step [OF h(1,2) _ h(4)] by blast
  obtain s2 where s2: "vmemset s1 va 0 4096 = Some s2" "page_added va 6 frame s s2"
    "\<forall>x. page_down x = frame \<longrightarrow> pmem s2 x = 0"
    using page_added_fill [OF s1(3) h(3) private_page_dir [OF h(2)]] by blast
  have "load_page va s = Some (True, s2)"
    using s1(1,2) s2(1) page_addedD(5) [OF s1(3)] by (simp add: load_page_def)
  then show "\<exists>frame s'. load_page va s = Some (True, s') \<and> page_added va 6 frame s s' \<and>
      (\<forall>b x. Some 0 = Some b \<longrightarrow> page_down x = frame \<longrightarrow> pmem s' x = b)"
    using s2 by auto
qed

subsection \<open>The image in kernel memory\<close>

text \<open>
  The bytes \<open>bs\<close> of a file at address \<open>data\<close> in the identity map, in frames that are nobody's
  page table and not in the pool.
\<close>

definition image_at :: "mm_state \<Rightarrow> u32 \<Rightarrow> u8 list \<Rightarrow> bool" where
  "image_at s data bs \<longleftrightarrow> (\<forall>k < length bs. dir_index (data + of_nat k) = 0 \<and>
     (\<exists>pa. xlate s (data + of_nat k) = Some pa \<and> pmem s pa = bs ! k \<and>
       data_frame s (page_down pa) \<and> page_down pa \<notin> avail (pmm s)))"

lemma image_atD:
  assumes "image_at s data bs" "k < length bs"
  shows "dir_index (data + of_nat k) = 0"
    "\<exists>pa. xlate s (data + of_nat k) = Some pa \<and> pmem s pa = bs ! k \<and>
       data_frame s (page_down pa) \<and> page_down pa \<notin> avail (pmm s)"
  using assms unfolding image_at_def by blast+

text \<open>Little-endian words of a byte list.\<close>

definition le32 :: "u8 list \<Rightarrow> nat \<Rightarrow> u32" where
  "le32 bs k = ucast (bs ! k) OR push_bit 8 (ucast (bs ! (k + 1))) OR
     push_bit 16 (ucast (bs ! (k + 2))) OR push_bit 24 (ucast (bs ! (k + 3)))"

lemma vread8_image:
  assumes "image_at s data bs" "k < length bs"
  shows "vread8 s (data + of_nat k) = Some (bs ! k)"
  using image_atD(2) [OF assms] by (auto simp: vread8_def)

lemma vread32_bytes:
  assumes "vread8 s a = Some b0" "vread8 s (a + 1) = Some b1" "vread8 s (a + 2) = Some b2" "vread8 s (a + 3) = Some b3"
  shows "vread32 s a = Some (ucast b0 OR push_bit 8 (ucast b1) OR push_bit 16 (ucast b2) OR push_bit 24 (ucast b3))"
proof (cases "a AND 0xFFF \<le> 0xFFC")
  case False
  then show ?thesis using assms by (simp add: vread32_def)
next
  case True
  obtain pa where pa: "xlate s a = Some pa" "b0 = pmem s pa"
    using assms(1) by (auto simp: vread8_def)
  have off: "unat a mod 4096 \<le> 4092"
    using True by (simp add: word_le_nat_alt unat_and_0xFFF)
  have step: "xlate s (a + of_nat j) = Some (pa + of_nat j)" if j: "j < 4" for j
  proof -
    have uj: "unat (of_nat j :: u32) = j" using j by (simp add: unat_of_nat)
    have u: "unat ((a AND 0xFFF) + of_nat j) = unat a mod 4096 + j"
      using off j by (simp add: unat_word_ariths unat_and_0xFFF uj)
    have lt: "unat ((a AND 0xFFF) + of_nat j) < 4096" using u off j by simp
    have pd: "page_down (page_down a + ((a AND 0xFFF) + of_nat j)) = page_down a"
      by (rule page_down_offset(1)) (simp_all add: lt)
    have aj: "page_down a + ((a AND 0xFFF) + of_nat j) = a + of_nat j"
      using page_plus_offset [of a] by (simp only: add.assoc [symmetric])
    have same: "page_down (a + of_nat j) = page_down a" using pd unfolding aj .
    have "page_down a + ((a + of_nat j) AND 0xFFF) = page_down a + ((a AND 0xFFF) + of_nat j)"
      unfolding aj using page_plus_offset [of "a + of_nat j"] unfolding same .
    then have "(a + of_nat j) AND 0xFFF = (a AND 0xFFF) + of_nat j" by (simp only: add_left_cancel)
    then show ?thesis
      using xlate_same_page [OF pa(1), of "a + of_nat j"] same xlate_page_offset(1) [OF pa(1)]
      by (simp add: add.assoc)
  qed
  have "b1 = pmem s (pa + 1)" "b2 = pmem s (pa + 2)" "b3 = pmem s (pa + 3)"
    using assms(2-4) step [of 1] step [of 2] step [of 3] by (simp_all add: vread8_def)
  then show ?thesis using True pa by (simp add: vread32_def read32_def)
qed

lemma vread32_image:
  assumes "image_at s data bs" "k + 4 \<le> length bs"
  shows "vread32 s (data + of_nat k) = Some (le32 bs k)"
proof -
  have "vread8 s (data + of_nat k + of_nat j) = Some (bs ! (k + j))" if "j < 4" for j
    using vread8_image [OF assms(1), of "k + j"] that assms(2) by (simp add: add.assoc)
  from this [of 0] this [of 1] this [of 2] this [of 3] show ?thesis
    unfolding le32_def by (intro vread32_bytes) (simp_all add: algebra_simps)
qed

text \<open>Mapping private pages and writing them leaves the image alone.\<close>

lemma image_keep:
  assumes im: "image_at s data bs" and kd: "keeps_data s s'"
    and x: "\<And>va. dir_index va = 0 \<Longrightarrow> xlate s' va = xlate s va"
  shows "image_at s' data bs"
  unfolding image_at_def
proof (intro allI impI conjI)
  fix k assume k: "k < length bs"
  show d: "dir_index (data + of_nat k) = 0" by (rule image_atD(1) [OF im k])
  obtain pa where pa: "xlate s (data + of_nat k) = Some pa" "pmem s pa = bs ! k"
    "data_frame s (page_down pa)" "page_down pa \<notin> avail (pmm s)"
    using image_atD(2) [OF im k] by blast
  with kd x [OF d] show "\<exists>pa. xlate s' (data + of_nat k) = Some pa \<and> pmem s' pa = bs ! k \<and>
      data_frame s' (page_down pa) \<and> page_down pa \<notin> avail (pmm s')"
    by (auto simp: keeps_data_def)
qed

subsection \<open>A segment\<close>

lemma dir_index_page: "dir_index (page_down a) = dir_index a"
  using page_eq_iff [of "page_down a" a] by simp

lemma page_up_bounds:
  assumes "unat a + unat n \<le> 0xFF800000"
  shows "unat (a + n) = unat a + unat n" "unat (a + n) \<le> unat (page_up (a + n))"
    "unat (page_up (a + n)) \<le> 0xFF800000" "unat (page_up (a + n)) mod 4096 = 0"
proof -
  show sum: "unat (a + n) = unat a + unat n" using assms by (simp add: unat_word_ariths)
  have u: "unat (page_up (a + n)) = (unat a + unat n + 4095) div 4096 * 4096"
    using assms sum by (subst unat_page_up) simp_all
  show "unat (a + n) \<le> unat (page_up (a + n))" unfolding sum u by linarith
  show "unat (page_up (a + n)) \<le> 0xFF800000"
    using assms round_up_page [of "unat a + unat n" "0xFF800000 div 4096"] unfolding u by simp
  show "unat (page_up (a + n)) mod 4096 = 0" unfolding u by simp
qed

text \<open>The pages a segment of \<open>n\<close> bytes at \<open>a\<close> touches.\<close>

definition segment_pages :: "u32 \<Rightarrow> u32 \<Rightarrow> nat" where
  "segment_pages a n = (unat (page_up (a + n)) - unat (page_down a)) div 4096"

lemma segment_range:
  assumes "1 \<le> dir_index a" "unat a + unat n \<le> 0xFF800000"
  shows "\<exists>as. page_addrs (page_down a) (page_up (a + n)) = Some as \<and>
    length as = segment_pages a n \<and> (\<forall>p \<in> set as. private_page p \<and> page_down p = p) \<and>
    (\<forall>va. page_down va \<in> page_down ` set as \<longleftrightarrow> page_down a \<le> va \<and> va < page_up (a + n)) \<and>
    (\<forall>k < unat n. page_down (a + of_nat k) \<in> page_down ` set as) \<and>
    (\<forall>k < unat n. unat (a + of_nat k) = unat a + k \<and> private_page (a + of_nat k))"
proof -
  note B = page_up_bounds [OF assms(2)]
  have hi: "unat (page_up (a + n)) \<le> 0xFFFFF000" using B(3) by simp
  from page_addrs_nat [OF hi, of "page_down a"] obtain as where
    as: "page_addrs (page_down a) (page_up (a + n)) = Some as" by blast
  note R = range_pages [OF as _ hi] and I = range_pages_iff [OF as _ B(4)]
  have lo: "1 \<le> dir_index (page_down a)" using assms(1) by (simp add: dir_index_page)
  obtain i j where ij: "unat (page_up (a + n)) = 4096 * i" "unat (page_down a) = 4096 * j"
    using B(4) unat_page_down [of a] by (auto simp: mod_eq_0_iff_dvd dvd_def mult.commute)
  have len: "length as = segment_pages a n"
    using R(1) unfolding segment_pages_def ij by (simp flip: diff_mult_distrib2)
  have in_range: "unat (a + of_nat k) = unat a + k \<and> page_down a \<le> a + of_nat k \<and> a + of_nat k < page_up (a + n)"
    if k: "k < unat n" for k
  proof -
    have "unat (of_nat k :: u32) = k" using k unat_less_2p32 [of n] by (simp add: unat_of_nat)
    then have u: "unat (a + of_nat k) = unat a + k" using k assms(2) by (simp add: unat_word_ariths)
    then show ?thesis
      using k B(1,2) page_down_le [of a] by (simp add: word_le_nat_alt word_less_nat_alt)
  qed
  show ?thesis
  proof (intro exI [of _ as] conjI allI impI as len)
    show "\<forall>p \<in> set as. private_page p \<and> page_down p = p"
      using R(3) private_range [OF lo B(3)] by simp
    show "page_down va \<in> page_down ` set as \<longleftrightarrow> page_down a \<le> va \<and> va < page_up (a + n)" for va
      by (rule I) simp
    show "page_down (a + of_nat k) \<in> page_down ` set as" if "k < unat n" for k
      using I in_range [OF that] by simp
    show "unat (a + of_nat k) = unat a + k" "private_page (a + of_nat k)" if "k < unat n" for k
      using in_range [OF that] by (simp_all add: private_range [OF lo B(3)])
  qed
qed

text \<open>Copying the file's bytes over zeroed pages.\<close>

lemma copy_segment:
  assumes ow: "owns s" and im: "image_at s data bs" and fit: "off + n \<le> length bs"
    and dst: "\<And>k. k < n \<Longrightarrow> private_page (a + of_nat k) \<and> unat (a + of_nat k) = unat a + k \<and>
       (\<exists>pa. xlate s (a + of_nat k) = Some pa \<and> page_down pa \<in> F)"
    and src: "\<And>k. k < length bs \<Longrightarrow> \<exists>pa. xlate s (data + of_nat k) = Some pa \<and> page_down pa \<notin> F"
  shows "\<exists>s'. vmemcpy s a (data + of_nat off) n = Some s' \<and> data_only s s' \<and>
    (\<forall>k < n. vread8 s' (a + of_nat k) = Some (bs ! (off + k))) \<and>
    (\<forall>x. (\<forall>k < n. xlate s (a + of_nat k) \<noteq> Some x) \<longrightarrow> pmem s' x = pmem s x)"
proof -
  define D where "D k = the (xlate s (a + of_nat k))" for k :: nat
  define S where "S k = the (xlate s (data + of_nat off + of_nat k))" for k :: nat
  have D: "xlate s (a + of_nat k) = Some (D k)" "page_down (D k) \<in> F" "data_frame s (page_down (D k))"
    "dir_index (a + of_nat k) < 1023" if "k < n" for k
    using dst [OF that] ownsD(4) [OF ow] private_page_dir by (auto simp: D_def)
  have sh: "data + of_nat off + of_nat k = data + of_nat (off + k)" for k by (simp add: add.assoc)
  have S: "xlate s (data + of_nat off + of_nat k) = Some (S k)" "page_down (S k) \<notin> F"
    "dir_index (data + of_nat off + of_nat k) < 1023" "pmem s (S k) = bs ! (off + k)" if "k < n" for k
    using src [of "off + k"] image_atD [OF im, of "off + k"] that fit
    unfolding S_def sh by auto
  have inj: "inj_on D {..<n}"
  proof (rule inj_onI)
    fix j k assume jk: "j \<in> {..<n}" "k \<in> {..<n}" "D j = D k"
    then have j: "j < n" "k < n" by auto
    have "page_down (a + of_nat j) = page_down (a + of_nat k)"
      using ownsD(5) [OF ow _ _ D(1) [OF j(1)] D(1) [OF j(2)]] dst j jk(3) by simp
    moreover have "(a + of_nat j) AND 0xFFF = (a + of_nat k) AND 0xFFF"
      using xlate_page_offset(1) [OF D(1) [OF j(1)]] xlate_page_offset(1) [OF D(1) [OF j(2)]] jk(3)
      by (metis add_left_cancel)
    ultimately have "a + of_nat j = a + of_nat k" by (metis page_plus_offset)
    then have "unat (a + of_nat j) = unat (a + of_nat k)" by simp
    then show "j = k" using dst [OF j(1)] dst [OF j(2)] by simp
  qed
  have "\<exists>s'. vmemcpy s a (data + of_nat off) n = Some s' \<and> data_only s s' \<and>
      (\<forall>k < n. pmem s' (D k) = pmem s (S k)) \<and> (\<forall>x. x \<notin> D ` {..<n} \<longrightarrow> pmem s' x = pmem s x)"
  proof (rule vmemcpy_run [OF _ _ inj])
    show "D j \<noteq> S k" if "j < n" "k < n" for j k using D(2) [OF that(1)] S(2) [OF that(2)] by auto
  qed (use D S in auto)
  then obtain s' where s': "vmemcpy s a (data + of_nat off) n = Some s'" "data_only s s'"
    "\<And>k. k < n \<Longrightarrow> pmem s' (D k) = pmem s (S k)" "\<And>x. x \<notin> D ` {..<n} \<Longrightarrow> pmem s' x = pmem s x" by blast
  have "vread8 s' (a + of_nat k) = Some (bs ! (off + k))" if "k < n" for k
    using data_only_walk(1) [OF s'(2) D(4) [OF that]] D(1) [OF that] s'(3) [OF that] S(4) [OF that]
    by (simp add: vread8_def)
  moreover have "pmem s' x = pmem s x" if "\<forall>k < n. xlate s (a + of_nat k) \<noteq> Some x" for x
    using that D(1) by (intro s'(4)) auto
  ultimately show ?thesis using s'(1,2) by blast
qed

text \<open>A loadable program header at offset \<open>h\<close> of the file.\<close>

definition load_header :: "u8 list \<Rightarrow> nat \<Rightarrow> u32 \<Rightarrow> u32 \<Rightarrow> u32 \<Rightarrow> u32 \<Rightarrow> bool" where
  "load_header bs h off vaddr filesz memsz \<longleftrightarrow> h + 32 \<le> length bs \<and>
     le32 bs h = PT_LOAD \<and> le32 bs (h + 4) = off \<and> le32 bs (h + 8) = vaddr \<and>
     le32 bs (h + 16) = filesz \<and> le32 bs (h + 20) = memsz"

lemma header_reads:
  assumes "image_at s data bs" "load_header bs h off vaddr filesz memsz"
  shows "p_type (data + of_nat h) s = Some 1" "p_offset (data + of_nat h) s = Some off"
    "p_vaddr (data + of_nat h) s = Some vaddr" "p_filesz (data + of_nat h) s = Some filesz"
    "p_memsz (data + of_nat h) s = Some memsz"
proof -
  have r: "vread32 s (data + of_nat h + of_nat j) = Some (le32 bs (h + j))" if "j + 4 \<le> 32" for j
    using vread32_image [OF assms(1), of "h + j"] assms(2) that by (simp add: load_header_def add.assoc)
  show "p_type (data + of_nat h) s = Some 1" "p_offset (data + of_nat h) s = Some off"
    "p_vaddr (data + of_nat h) s = Some vaddr" "p_filesz (data + of_nat h) s = Some filesz"
    "p_memsz (data + of_nat h) s = Some memsz"
    using r [of 0] r [of 4] r [of 8] r [of 16] r [of 20] assms(2)
    by (simp_all add: load_header_def p_type_def p_offset_def p_vaddr_def p_filesz_def p_memsz_def)
qed

text \<open>The memory a segment promises: the file's bytes, then zeros, open to ring 3.\<close>

definition segment_loaded :: "u8 list \<Rightarrow> u32 \<Rightarrow> nat \<Rightarrow> u32 \<Rightarrow> u32 \<Rightarrow> mm_state \<Rightarrow> bool" where
  "segment_loaded bs a off filesz memsz s \<longleftrightarrow>
     (\<forall>k < unat memsz. user_accessible s (a + of_nat k) \<and>
        vread8 s (a + of_nat k) = Some (if k < unat filesz then bs ! (off + k) else 0))"

lemma load_segment_run:
  assumes ow: "owns s" and im: "image_at s data bs"
    and hd: "phdr ph i = data + of_nat h" "load_header bs h off vaddr filesz memsz"
    and rng: "1 \<le> dir_index (base + vaddr)" "unat (base + vaddr) + unat memsz \<le> 0xFF800000"
    and sz: "filesz \<le> memsz" "unat off + unat filesz \<le> length bs"
    and mem: "2 * segment_pages (base + vaddr) memsz \<le> card (avail (pmm s))"
  shows "\<exists>s'. load_segment data base ph i (highest, s) =
      Some (True, max highest (page_up (base + vaddr + memsz)), s') \<and>
    owns s' \<and> cr3 s' = cr3 s \<and> image_at s' data bs \<and>
    segment_loaded bs (base + vaddr) (unat off) filesz memsz s' \<and>
    (\<forall>va. dir_index va < 1023 \<longrightarrow> \<not> (page_down (base + vaddr) \<le> va \<and> va < page_up (base + vaddr + memsz)) \<longrightarrow> xlate s' va = xlate s va)"
proof -
  let ?a = "base + vaddr"
  obtain as where as: "page_addrs (page_down ?a) (page_up (?a + memsz)) = Some as"
    "length as = segment_pages ?a memsz" "\<forall>p \<in> set as. private_page p \<and> page_down p = p"
    "\<And>va. page_down va \<in> page_down ` set as \<longleftrightarrow> page_down ?a \<le> va \<and> va < page_up (?a + memsz)"
    "\<And>k. k < unat memsz \<Longrightarrow> page_down (?a + of_nat k) \<in> page_down ` set as"
    "\<And>k. k < unat memsz \<Longrightarrow> unat (?a + of_nat k) = unat ?a + k \<and> private_page (?a + of_nat k)"
    using segment_range [OF rng] by blast
  have "2 * length as \<le> card (avail (pmm s))" using mem as(2) by simp
  from elf_loop.loop_added [OF ow as(3) this]
  obtain s1 where s1: "try_each load_page as s = Some (True, s1)" "pages_added 6 (Some 0) as s s1" by blast
  note P = pages_addedD [OF s1(2)]
  have pages: "page_down va \<in> set as" if "page_down va \<in> page_down ` set as" for va
    using that as(3) by auto
  have zero_dir: "xlate s1 va = xlate s va" if "dir_index va = 0" for va
  proof (rule P(9))
    show "dir_index va < 1023" using that by simp
    show "page_down va \<notin> page_down ` set as"
      using that pages [of va] as(3) private_page_def dir_index_page [of va] by force
  qed
  have im1: "image_at s1 data bs" by (rule image_keep [OF im P(6) zero_dir])
  have fit: "unat off + unat filesz \<le> length bs" by (rule sz(2))
  have lt: "k < unat memsz" if "k < unat filesz" for k using that sz(1) by (simp add: word_le_nat_alt)
  have "\<exists>s2. vmemcpy s1 ?a (data + of_nat (unat off)) (unat filesz) = Some s2 \<and> data_only s1 s2 \<and>
    (\<forall>k < unat filesz. vread8 s2 (?a + of_nat k) = Some (bs ! (unat off + k))) \<and>
    (\<forall>x. (\<forall>k < unat filesz. xlate s1 (?a + of_nat k) \<noteq> Some x) \<longrightarrow> pmem s2 x = pmem s1 x)"
  proof (rule copy_segment [OF P(1) im1 fit, where F = "avail (pmm s)"])
    show "private_page (?a + of_nat k) \<and> unat (?a + of_nat k) = unat ?a + k \<and>
        (\<exists>pa. xlate s1 (?a + of_nat k) = Some pa \<and> page_down pa \<in> avail (pmm s))" if "k < unat filesz" for k
      using as(6) [OF lt [OF that]] P(7) [OF as(5) [OF lt [OF that]]] by blast
    show "\<exists>pa. xlate s1 (data + of_nat k) = Some pa \<and> page_down pa \<notin> avail (pmm s)" if "k < length bs" for k
      using image_atD [OF im that] zero_dir by metis
  qed
  then obtain s2 where s2: "vmemcpy s1 ?a (data + off) (unat filesz) = Some s2" "data_only s1 s2"
    "\<And>k. k < unat filesz \<Longrightarrow> vread8 s2 (?a + of_nat k) = Some (bs ! (unat off + k))"
    "\<And>x. (\<forall>k < unat filesz. xlate s1 (?a + of_nat k) \<noteq> Some x) \<Longrightarrow> pmem s2 x = pmem s1 x"
    by auto
  note W = data_only_walk [OF s2(2)]
  have rest: "vread8 s2 (?a + of_nat k) = Some 0" if k: "k < unat memsz" "\<not> k < unat filesz" for k
  proof -
    obtain pa where pa: "xlate s1 (?a + of_nat k) = Some pa" "pmem s1 pa = 0"
      using P(7) [OF as(5) [OF k(1)]] by auto
    have "xlate s1 (?a + of_nat j) \<noteq> Some pa" if j: "j < unat filesz" for j
    proof
      assume x: "xlate s1 (?a + of_nat j) = Some pa"
      have "page_down (?a + of_nat j) = page_down (?a + of_nat k)"
        using ownsD(5) [OF P(1) _ _ x pa(1)] as(6) [OF lt [OF j]] as(6) [OF k(1)] by simp
      moreover have "(?a + of_nat j) AND 0xFFF = (?a + of_nat k) AND 0xFFF"
        using xlate_page_offset(1) [OF x] xlate_page_offset(1) [OF pa(1)] by (metis add_left_cancel)
      ultimately have "?a + of_nat j = ?a + of_nat k" by (metis page_plus_offset)
      then have "unat (?a + of_nat j) = unat (?a + of_nat k)" by simp
      then show False using as(6) [OF lt [OF j]] as(6) [OF k(1)] j k(2) by simp
    qed
    then have "pmem s2 pa = 0" using s2(4) [of pa] pa(2) by simp
    then show ?thesis
      using W(1) [OF private_page_dir] as(6) [OF k(1)] pa(1) by (simp add: vread8_def)
  qed
  have six: "bit (6::u32) 2"
  proof -
    have "(6::u32) = push_bit 1 1 OR push_bit 2 1" by simp
    then show ?thesis by (simp only: bit_or_iff bit_push_bit_iff bit_1_iff) simp
  qed
  have acc: "user_accessible s2 (?a + of_nat k)" if "k < unat memsz" for k
    using P(8) [OF as(5) [OF that] six] W(2) [OF private_page_dir] as(6) [OF that] by simp
  have loaded: "segment_loaded bs ?a (unat off) filesz memsz s2"
    using s2(3) rest acc by (simp add: segment_loaded_def)
  have im2: "image_at s2 data bs"
    unfolding image_at_def
  proof (intro allI impI conjI)
    fix k assume k: "k < length bs"
    show d: "dir_index (data + of_nat k) = 0" by (rule image_atD(1) [OF im k])
    obtain pa where pa: "xlate s1 (data + of_nat k) = Some pa" "pmem s1 pa = bs ! k"
      "data_frame s1 (page_down pa)" "page_down pa \<notin> avail (pmm s1)"
      using image_atD(2) [OF im1 k] by blast
    have out: "page_down pa \<notin> avail (pmm s)" using image_atD(2) [OF im k] zero_dir [OF d] pa(1) by auto
    have "xlate s1 (?a + of_nat j) \<noteq> Some pa" if "j < unat filesz" for j
      using P(7) [OF as(5) [OF lt [OF that]]] out by auto
    then have "pmem s2 pa = bs ! k" using s2(4) pa(2) by simp
    then show "\<exists>pa. xlate s2 (data + of_nat k) = Some pa \<and> pmem s2 pa = bs ! k \<and>
        data_frame s2 (page_down pa) \<and> page_down pa \<notin> avail (pmm s2)"
      using pa W(1) [of "data + of_nat k"] d data_only_frames(1) [OF s2(2)] s2(2)
      by (auto simp: data_only_def)
  qed
  have hi: "(if page_up (?a + memsz) > highest then page_up (?a + memsz) else highest) =
      max highest (page_up (?a + memsz))" by (auto simp: max_def)
  have run: "load_segment data base ph i (highest, s) = Some (True, max highest (page_up (?a + memsz)), s2)"
    unfolding load_segment_def Let_def hd(1) prod.case
    using header_reads [OF im hd(2)] header_reads(2,4) [OF im1 hd(2)] as(1) s1(1) s2(1)
    by (simp add: hi)
  have "xlate s2 va = xlate s va" if "dir_index va < 1023" "\<not> (page_down ?a \<le> va \<and> va < page_up (?a + memsz))" for va
    using W(1) [OF that(1)] P(9) [OF that(1)] as(4) [of va] that(2) by simp
  moreover have "cr3 s2 = cr3 s" using P(2) s2(2) by (simp add: data_only_def)
  ultimately show ?thesis
    using run loaded im2 P(1) data_only_frames(3) [OF s2(2)] by blast
qed

subsection \<open>Properties\<close>


text \<open>The boot address space with a file of 33 bytes at \<open>0x10000\<close>.\<close>

definition put_bytes :: "u32 \<Rightarrow> u8 list \<Rightarrow> mm_state \<Rightarrow> mm_state" where
  "put_bytes a bs s = s\<lparr>pmem := (\<lambda>x. if unat (x - a) < length bs then bs ! unat (x - a) else pmem s x)\<rparr>"

lemma mm_boot_identity:
  assumes "dir_index va = 0"
  shows "xlate mm_boot va = Some va"
  unfolding mm_boot_def
  using initialize_post [of "0x80000" "0x81000" "\<lparr>pmm = pmm_sample, pmem = (\<lambda>_. 0), cr3 = 0\<rparr>"] assms
  by (simp add: page_down_def pmm_sample_inv low_not_avail)

lemma mm_boot_data_frame:
  assumes "page_down P = P" "P \<noteq> 0x80000" "P \<noteq> 0x81000"
  shows "data_frame mm_boot P"
proof -
  note i = initialize_entries [of "0x80000" "0x81000" _ "\<lparr>pmm = pmm_sample, pmem = (\<lambda>_. 0), cr3 = 0\<rparr>",
      folded mm_boot_def]
  have "table_of mm_boot d \<noteq> P" if "d < 1023" "present (pde mm_boot d)" for d
    using that i(3) [of d] assms by (auto simp: page_down_def table_of_def split: if_splits)
  then show ?thesis using assms i(1) [of 0] by (auto simp: data_frame_def page_down_def)
qed

text \<open>A page of low memory that holds no table can be filled with a file.\<close>

lemma boot_image:
  assumes "length bs \<le> 4096" "page_down a = a" "a \<noteq> 0x80000" "a \<noteq> 0x81000" "unat a < 0x100000"
  shows "owns (put_bytes a bs mm_boot)" "image_at (put_bytes a bs mm_boot) a bs"
    "pmm (put_bytes a bs mm_boot) = pmm mm_boot"
proof -
  have df: "data_frame mm_boot a" by (rule mm_boot_data_frame [OF assms(2-4)])
  have pg: "page_down x = a" if "unat (x - a) < 4096" for x
    using page_down_offset(1) [OF assms(2) that] by simp
  have only: "data_only mm_boot (put_bytes a bs mm_boot)"
    unfolding data_only_def put_bytes_def using df pg assms(1) by auto
  show "owns (put_bytes a bs mm_boot)" using data_only_frames(3) [OF only] mm_boot_owns by simp
  show "pmm (put_bytes a bs mm_boot) = pmm mm_boot" by (simp add: put_bytes_def)
  show "image_at (put_bytes a bs mm_boot) a bs"
    unfolding image_at_def
  proof (intro allI impI conjI)
    fix k assume k: "k < length bs"
    have uk: "unat (of_nat k :: u32) = k" using k assms(1) by (simp add: unat_of_nat)
    have pk: "page_down (a + of_nat k) = a" using pg [of "a + of_nat k"] uk k assms(1) by simp
    have "unat (a + of_nat k) < 4194304"
      using page_down_offset(2) [OF assms(2), of "of_nat k"] uk k assms(1,5) by simp
    then show d: "dir_index (a + of_nat k) = 0"
      by (simp add: word_unat_eq_iff unat_dir_index)
    have "xlate (put_bytes a bs mm_boot) (a + of_nat k) = Some (a + of_nat k)"
      using data_only_walk(1) [OF only] d mm_boot_identity [OF d] by simp
    moreover have "a \<notin> avail (pmm mm_boot)" using low_not_avail [OF assms(5)] mm_boot_facts(2) by simp
    ultimately show "\<exists>pa. xlate (put_bytes a bs mm_boot) (a + of_nat k) = Some pa \<and>
        pmem (put_bytes a bs mm_boot) pa = bs ! k \<and> data_frame (put_bytes a bs mm_boot) (page_down pa) \<and>
        page_down pa \<notin> avail (pmm (put_bytes a bs mm_boot))"
      using df pk uk k data_only_frames(1) [OF only] by (simp add: put_bytes_def)
  qed
qed

definition sample_elf :: "u8 list" where
  "sample_elf = [1, 0, 0, 0, 32, 0, 0, 0, 0, 0, 0, 0x40, 0, 0, 0, 0x40, 1, 0, 0, 0, 2, 0, 0, 0, 6, 0, 0, 0,
     0, 0x10, 0, 0, 0x90]"


text \<open>The header checks, on the bytes of the file.\<close>

definition le16 :: "u8 list \<Rightarrow> nat \<Rightarrow> u32" where
  "le16 bs k = ucast (bs ! k) OR push_bit 8 (ucast (bs ! (k + 1)))"

definition valid_ehdr :: "u8 list \<Rightarrow> bool" where
  "valid_ehdr bs \<longleftrightarrow> 52 \<le> length bs \<and> take 4 bs = [0x7F, 0x45, 0x4C, 0x46] \<and> bs ! 4 = 1 \<and>
     le16 bs 18 = 3 \<and> (le16 bs 16 = ET_EXEC \<or> le16 bs 16 = ET_DYN)"

lemma check_header_spec:
  assumes im: "image_at s data bs" and len: "length bs < 2 ^ 32"
  shows "check_header data (of_nat (length bs)) s =
    Some (if valid_ehdr bs then Some (if le16 bs 16 = ET_DYN then 0x40000000 else 0) else None)"
proof (cases "52 \<le> length bs")
  case False
  then show ?thesis using len by (simp add: check_header_def valid_ehdr_def word_less_nat_alt unat_of_nat)
next
  case True
  have r: "vread8 s (data + of_nat k) = Some (bs ! k)" if "k < 52" for k
    using vread8_image [OF im, of k] True that by simp
  have w: "vread16 s (data + of_nat k) = Some (le16 bs k)" if "k + 1 < 52" for k
    using r [of k] r [of "k + 1"] that by (simp add: vread16_def le16_def ac_simps)
  have t4: "take 4 bs = [bs ! 0, bs ! 1, bs ! 2, bs ! 3]"
    using True by (intro nth_equalityI) (auto simp: less_Suc_eq numeral_eq_Suc)
  have "\<not> of_nat (length bs) < (52 :: u32)" using True len by (simp add: word_less_nat_alt unat_of_nat)
  then show ?thesis
    using True r [of 0] r [of 1] r [of 2] r [of 3] r [of 4] w [of 16] w [of 18]
    by (auto simp: check_header_def valid_ehdr_def t4 e_machine_def e_type_def)
qed

text \<open>
  \<open>elf_load\<close> on a file that is not a valid 32-bit i386 ELF executable (too short, wrong magic,
  class, machine or type) returns 0, stores no break and changes nothing.
\<close>

theorem elf_load_rejects:
  assumes "image_at s data bs" and "length bs < 2 ^ 32" and "\<not> valid_ehdr bs"
  shows "elf_load data (of_nat (length bs)) s = Some ((0, None), s)"
  using check_header_spec [OF assms(1,2)] assms(3) by (simp add: elf_load_def)

theorem elf_load_rejects_witness:
  "elf_load 0x10000 33 (put_bytes 0x10000 sample_elf mm_boot) =
     Some ((0, None), put_bytes 0x10000 sample_elf mm_boot)"
proof -
  have "image_at (put_bytes 0x10000 sample_elf mm_boot) 0x10000 sample_elf"
    by (rule boot_image(2)) (simp_all add: sample_elf_def page_down_def)
  from elf_load_rejects [OF this] show ?thesis by (simp add: valid_ehdr_def sample_elf_def)
qed

lemma reloc_loop_stuck:
  assumes "reloc_loop base rel relsz relent off s = Some s'"
  shows "relent = 0 \<longrightarrow> \<not> off < relsz"
  by (rule reloc_loop.raw_induct [where P = "\<lambda>base rel relsz relent off s s'. relent = 0 \<longrightarrow> \<not> off < relsz", OF _ assms])
    (auto simp: bind_eq_Some_conv split: if_splits)

text \<open>
  C26. The relocation loop trusts \<open>DT_RELENT\<close>: with a relocation table that is not empty and an
  entry size of 0, it never returns, whatever the table holds.
\<close>

theorem reloc_loop_zero_entry_size:
  assumes "0 < relsz"
  shows "reloc_loop base rel relsz 0 0 s = None"
  using reloc_loop_stuck [of base rel relsz 0 0 s] assms by (cases "reloc_loop base rel relsz 0 0 s") auto

theorem reloc_loop_zero_entry_size_witness: "reloc_loop 0x40000000 0 8 0 0 mm_boot = None"
  by (rule reloc_loop_zero_entry_size) simp

end
