(* ===== verification/Process.thy ===== *)
theory Process
  imports Task Initrd Elf
begin

text \<open>
  Processes, \<open>kernel/arch/i386/process.c\<close>: the open file pool, the process table, \<open>fork\<close>,
  \<open>execve\<close>, \<open>exit\<close> and \<open>wait\<close>, and \<open>yield\<close> of \<open>task.c\<close>, which looks up the process of the next
  task.  The kernel state gathers the static variables of these files with the state of the
  components below them.
\<close>

subsection \<open>State\<close>

datatype proc_state = PROC_FREE | PROC_RUN | PROC_ZOMBIE

record open_file =
  of_node :: "node_ref option"
  of_offset :: u32
  refcount :: int

text \<open>
  \<open>struct process\<close>; descriptors are indices into the open file pool.  Its \<open>task\<close> member is
  \<open>Proc_Task i\<close> in the scheduler's store.
\<close>

record process =
  pid :: int
  ppid :: int
  state :: proc_state
  exit_code :: u32
  page_dir :: u32
  kernel_stack :: u32
  brk :: u32
  brk_mapped :: u32
  fds :: "nat option list"

text \<open>Addresses the linker chooses: \<open>fork_trampoline\<close>, \<open>exec_buf\<close>, the end of \<open>halt_stack\<close>.\<close>

record kimage =
  fork_trampoline :: u32
  exec_buf :: u32
  halt_stack_top :: u32

record kernel =
  mm :: mm_state
  heap :: kheap_state
  sched :: sched
  cpu :: cpu
  procs :: "process list"
  files :: "open_file list"
  next_pid :: int
  kernel_dir :: u32
  esp0 :: u32
  fs :: fs_state
  console :: "u8 list"
  image :: kimage

text \<open>\<open>struct registers\<close>, what an interrupt pushes on the kernel stack.\<close>

record int_frame =
  f_ds :: u32
  f_edi :: u32
  f_esi :: u32
  f_ebp :: u32
  f_esp_dummy :: u32
  f_ebx :: u32
  f_edx :: u32
  f_ecx :: u32
  f_eax :: u32
  f_int_no :: u32
  f_err_code :: u32
  f_eip :: u32
  f_cs :: u32
  f_eflags :: u32
  f_useresp :: u32
  f_ss :: u32

abbreviation (input) MAX_FDS :: nat where "MAX_FDS \<equiv> 16"
abbreviation (input) MAX_PROCS :: nat where "MAX_PROCS \<equiv> 16"
abbreviation (input) MAX_OPEN_FILES :: nat where "MAX_OPEN_FILES \<equiv> 32"
abbreviation (input) MAX_COPY_PAGES :: nat where "MAX_COPY_PAGES \<equiv> 1024"
abbreviation (input) EXEC_BUF_SIZE :: u32 where "EXEC_BUF_SIZE \<equiv> 0x20000"
abbreviation (input) USER_STACK_TOP :: u32 where "USER_STACK_TOP \<equiv> 0xB0004000"

text \<open>Error numbers of \<open>errno.h\<close>; a system call returns them negated.\<close>

abbreviation (input) ENOENT :: u32 where "ENOENT \<equiv> 2"
abbreviation (input) E2BIG :: u32 where "E2BIG \<equiv> 7"
abbreviation (input) ENOEXEC :: u32 where "ENOEXEC \<equiv> 8"
abbreviation (input) EBADF :: u32 where "EBADF \<equiv> 9"
abbreviation (input) ECHILD :: u32 where "ECHILD \<equiv> 10"
abbreviation (input) EAGAIN :: u32 where "EAGAIN \<equiv> 11"
abbreviation (input) ENOMEM :: u32 where "ENOMEM \<equiv> 12"
abbreviation (input) EFAULT :: u32 where "EFAULT \<equiv> 14"
abbreviation (input) EINVAL :: u32 where "EINVAL \<equiv> 22"
abbreviation (input) ENFILE :: u32 where "ENFILE \<equiv> 23"
abbreviation (input) EMFILE :: u32 where "EMFILE \<equiv> 24"
abbreviation (input) ENOSYS :: u32 where "ENOSYS \<equiv> 38"

definition upd_proc :: "nat \<Rightarrow> (process \<Rightarrow> process) \<Rightarrow> kernel \<Rightarrow> kernel" where
  "upd_proc i f k = k\<lparr>procs := (procs k)[i := f (procs k ! i)]\<rparr>"

definition upd_file :: "nat \<Rightarrow> (open_file \<Rightarrow> open_file) \<Rightarrow> kernel \<Rightarrow> kernel" where
  "upd_file i f k = k\<lparr>files := (files k)[i := f (files k ! i)]\<rparr>"

definition upd_task :: "task_ref \<Rightarrow> (task \<Rightarrow> task) \<Rightarrow> kernel \<Rightarrow> kernel" where
  "upd_task t f k = k\<lparr>sched := set_task t f (sched k)\<rparr>"

definition zero_process :: process where
  "zero_process = \<lparr>pid = 0, ppid = 0, state = PROC_FREE, exit_code = 0, page_dir = 0, kernel_stack = 0,
     brk = 0, brk_mapped = 0, fds = replicate MAX_FDS None\<rparr>"

definition zero_file :: open_file where
  "zero_file = \<lparr>of_node = None, of_offset = 0, refcount = 0\<rparr>"

definition zero_task :: task where
  "zero_task = \<lparr>task_regs = zero_regs, task_next = None\<rparr>"

subsection \<open>The open file pool\<close>

definition open_file_alloc :: "node_ref \<Rightarrow> kernel \<Rightarrow> nat option \<times> kernel" where
  "open_file_alloc node k =
     (case find (\<lambda>i. refcount (files k ! i) = 0) [0 ..< MAX_OPEN_FILES] of
        None \<Rightarrow> (None, k)
      | Some i \<Rightarrow> (Some i, upd_file i (\<lambda>_. \<lparr>of_node = Some node, of_offset = 0, refcount = 1\<rparr>) k))"

definition open_file_release :: "nat option \<Rightarrow> kernel \<Rightarrow> kernel" where
  "open_file_release f k =
     (case f of
        None \<Rightarrow> k
      | Some i \<Rightarrow>
          (let k = upd_file i (\<lambda>x. x\<lparr>refcount := refcount x - 1\<rparr>) k
           in if refcount (files k ! i) \<le> 0 then upd_file i (\<lambda>_. zero_file) k else k))"

subsection \<open>The process table\<close>

definition process_initialize :: "u32 \<Rightarrow> kernel \<Rightarrow> kernel" where
  "process_initialize kernel_stack_top k =
     (let k = k\<lparr>procs := replicate MAX_PROCS zero_process, files := replicate MAX_OPEN_FILES zero_file\<rparr>;
          k = fold (\<lambda>i. upd_task (Proc_Task i) (\<lambda>_. zero_task)) [0 ..< MAX_PROCS] k;
          k = k\<lparr>kernel_dir := paging_current_directory (mm k)\<rparr>
      in upd_proc 0 (\<lambda>p. p\<lparr>pid := 0, ppid := 0, state := PROC_RUN, page_dir := kernel_dir k,
           kernel_stack := kernel_stack_top, brk := 0, brk_mapped := 0, fds := replicate MAX_FDS None\<rparr>) k)"

definition process_kernel_directory :: "kernel \<Rightarrow> u32" where
  "process_kernel_directory k = kernel_dir k"

definition process_of_task :: "task_ref \<Rightarrow> kernel \<Rightarrow> nat option" where
  "process_of_task t k =
     find (\<lambda>i. state (procs k ! i) \<noteq> PROC_FREE \<and> Proc_Task i = t) [0 ..< MAX_PROCS]"

definition process_current :: "kernel \<Rightarrow> nat" where
  "process_current k = (case process_of_task (running (sched k)) k of Some i \<Rightarrow> i | None \<Rightarrow> 0)"

definition process_create :: "kernel \<Rightarrow> nat option \<times> kernel" where
  "process_create k =
     (case find (\<lambda>i. state (procs k ! i) = PROC_FREE) [1 ..< MAX_PROCS] of
        None \<Rightarrow> (None, k)
      | Some i \<Rightarrow>
          (let k = upd_task (Proc_Task i) (\<lambda>_. zero_task) (upd_proc i (\<lambda>_. zero_process) k);
               (stack, h) = kmalloc_aligned 4096 (heap k);
               k = upd_proc i (\<lambda>p. p\<lparr>kernel_stack := stack\<rparr>) (k\<lparr>heap := h\<rparr>)
           in if stack = 0 then (None, k)
              else
                (let k = upd_proc i (\<lambda>p. p\<lparr>kernel_stack := stack + 4096, pid := next_pid k, state := PROC_RUN\<rparr>) k
                 in (Some i, k\<lparr>next_pid := next_pid k + 1\<rparr>))))"

definition process_by_pid :: "int \<Rightarrow> kernel \<Rightarrow> nat option" where
  "process_by_pid n k =
     find (\<lambda>i. state (procs k ! i) \<noteq> PROC_FREE \<and> pid (procs k ! i) = n) [0 ..< MAX_PROCS]"

definition process_set_brk :: "u32 \<Rightarrow> kernel \<Rightarrow> kernel" where
  "process_set_brk b k =
     upd_proc (process_current k) (\<lambda>p. p\<lparr>brk := page_up b, brk_mapped := page_up b\<rparr>) k"

subsection \<open>Yield\<close>

definition yield :: "kernel \<Rightarrow> kernel option" where
  "yield k = do {
     let prev = running (sched k);
     s \<leftarrow> advance (sched k);
     let k = k\<lparr>sched := s\<rparr>;
     if prev = running s then Some k
     else
       (let k = (case process_of_task (running s) k of
                   None \<Rightarrow> k
                 | Some np \<Rightarrow> k\<lparr>esp0 := kernel_stack (procs k ! np)\<rparr>);
            (s, c) = switch_task prev (running s) (sched k, (cpu k)\<lparr>c_cr3 := cr3 (mm k)\<rparr>)
        in Some (k\<lparr>sched := s, cpu := c, mm := (mm k)\<lparr>cr3 := c_cr3 c\<rparr>\<rparr>))
   }"

subsection \<open>Fork\<close>

text \<open>\<open>copy_list\<close>: pages copied so far, as (virt, frame, flags).\<close>

type_synonym copy_list = "(u32 \<times> u32 \<times> u32) list"

definition fork_copy_page :: "u32 \<Rightarrow> u32 \<Rightarrow> copy_list \<times> mm_state \<Rightarrow> (bool \<times> copy_list \<times> mm_state) option" where
  "fork_copy_page d t st = do {
     let (cl, s) = st;
     pte \<leftarrow> vread32 s (PT_VIRT d + 4 * t);
     if pte AND PAGE_PRESENT = 0 \<or> pte AND PAGE_USER = 0 then Some (True, cl, s)
     else if length cl \<ge> MAX_COPY_PAGES then Some (False, cl, s)
     else do {
       let virt = push_bit 22 d OR push_bit 12 t;
       let (frame, s) = mm_alloc s;
       if frame = 0 then Some (False, cl, s)
       else do {
         s \<leftarrow> paging_tmp_map frame s;
         s \<leftarrow> vmemcpy s TMP_VIRT virt 4096;
         Some (True, cl @ [(virt, frame, pte AND 0xFFF)], s)
       }
     }
   }"

definition fork_copy_table :: "u32 \<Rightarrow> copy_list \<times> mm_state \<Rightarrow> (bool \<times> copy_list \<times> mm_state) option" where
  "fork_copy_table d st = do {
     let (cl, s) = st;
     e \<leftarrow> vread32 s (PD_VIRT d);
     if e AND PAGE_PRESENT = 0 then Some (True, cl, s)
     else try_each (fork_copy_page d) (map of_nat [0 ..< 1024]) (cl, s)
   }"

definition fork_copy :: "mm_state \<Rightarrow> (bool \<times> copy_list \<times> mm_state) option" where
  "fork_copy s = try_each fork_copy_table (map of_nat [0 ..< 768]) ([], s)"

text \<open>Phase 2: the copies are installed from inside the child's address space.\<close>

definition fork_install :: "u32 \<Rightarrow> copy_list \<Rightarrow> mm_state \<Rightarrow> mm_state option" where
  "fork_install dir cl s = do {
     let saved = paging_current_directory s;
     let s = paging_switch_directory dir s;
     s \<leftarrow> for_each (\<lambda>(virt, frame, flags). paging_map virt frame flags) cl s;
     Some (paging_switch_directory saved s)
   }"

text \<open>The child shares the parent's open files.\<close>

definition fork_share_fd :: "nat \<Rightarrow> nat \<Rightarrow> nat \<Rightarrow> kernel \<Rightarrow> kernel" where
  "fork_share_fd parent child i k =
     (let f = fds (procs k ! parent) ! i;
          k = upd_proc child (\<lambda>p. p\<lparr>fds := (fds p)[i := f]\<rparr>) k
      in case f of None \<Rightarrow> k | Some j \<Rightarrow> upd_file j (\<lambda>x. x\<lparr>refcount := refcount x + 1\<rparr>) k)"

definition frame_words :: "int_frame \<Rightarrow> u32 list" where
  "frame_words r = [f_ds r, f_edi r, f_esi r, f_ebp r, f_esp_dummy r, f_ebx r, f_edx r, f_ecx r, f_eax r,
     f_int_no r, f_err_code r, f_eip r, f_cs r, f_eflags r, f_useresp r, f_ss r]"

definition write_frame :: "u32 \<Rightarrow> int_frame \<Rightarrow> mm_state \<Rightarrow> mm_state option" where
  "write_frame a r s = for_each (\<lambda>(i, w). (\<lambda>s. vwrite32 s (a + 4 * of_nat i) w)) (enumerate 0 (frame_words r)) s"

text \<open>Where \<open>fork\<close> ends when it runs out of frames or slots.\<close>

definition fork_undo :: "nat \<Rightarrow> copy_list \<Rightarrow> kernel \<Rightarrow> kernel option" where
  "fork_undo child cl k = do {
     let m = fold (\<lambda>(virt, frame, flags). mm_free frame) cl (mm k);
     m \<leftarrow> paging_free_directory (page_dir (procs k ! child)) m;
     Some (upd_proc child (\<lambda>p. p\<lparr>state := PROC_FREE\<rparr>) (k\<lparr>mm := m\<rparr>))
   }"

text \<open>The child's resume state, built on its kernel stack.\<close>

definition fork_resume :: "nat \<Rightarrow> int_frame \<Rightarrow> kernel \<Rightarrow> kernel option" where
  "fork_resume child regs k = do {
     let k = upd_task (Proc_Task child) (\<lambda>_. zero_task) k;
     let frame_addr = kernel_stack (procs k ! child) - 64;
     m \<leftarrow> write_frame frame_addr (regs\<lparr>f_eax := 0\<rparr>) (mm k);
     let k = k\<lparr>mm := m\<rparr>;
     Some (upd_task (Proc_Task child) (\<lambda>x. x\<lparr>task_regs := (task_regs x)\<lparr>t_esp := frame_addr,
       t_eip := fork_trampoline (image k), t_eflags := 2, t_cr3 := page_dir (procs k ! child)\<rparr>\<rparr>) k)
   }"

definition process_fork :: "int_frame \<Rightarrow> kernel \<Rightarrow> (u32 \<times> kernel) option" where
  "process_fork regs k =
     (let parent = process_current k;
          (created, k) = process_create k
      in case created of
        None \<Rightarrow> Some (- EAGAIN, k)
      | Some child \<Rightarrow> do {
          let pp = procs k ! parent;
          let k = upd_proc child (\<lambda>p. p\<lparr>ppid := pid pp, brk := brk pp, brk_mapped := brk_mapped pp\<rparr>) k;
          (dir, m) \<leftarrow> paging_new_directory (mm k);
          let k = upd_proc child (\<lambda>p. p\<lparr>page_dir := dir\<rparr>) (k\<lparr>mm := m\<rparr>);
          if dir = 0 then Some (- ENOMEM, upd_proc child (\<lambda>p. p\<lparr>state := PROC_FREE\<rparr>) k)
          else do {
            (ok, cl, m) \<leftarrow> fork_copy (mm k);
            let k = k\<lparr>mm := m\<rparr>;
            if \<not> ok then map_option (Pair (- ENOMEM)) (fork_undo child cl k)
            else do {
              m \<leftarrow> fork_install dir cl (mm k);
              let k = k\<lparr>mm := m\<rparr>;
              let k = fold (fork_share_fd parent child) [0 ..< MAX_FDS] k;
              k \<leftarrow> fork_resume child regs k;
              let k = k\<lparr>sched := task_add (Proc_Task child) (sched k)\<rparr>;
              Some (word_of_int (pid (procs k ! child)), k)
            }
          }
        })"

subsection \<open>Execve\<close>

datatype exec_result = Exec_Failed u32 | Exec_Entered u32 u32

text \<open>The body of the user stack loop; the frame is not checked.\<close>

definition stack_page :: "u32 \<Rightarrow> mm_state \<Rightarrow> mm_state option" where
  "stack_page a s = (let (frame, s) = mm_alloc s in paging_map a frame (PAGE_USER OR PAGE_WRITE) s)"

definition process_execve :: "cstring \<Rightarrow> kernel \<Rightarrow> (exec_result \<times> kernel) option" where
  "process_execve path k =
     (case vfs_finddir (fs k) (fs_root (fs k)) path of
        None \<Rightarrow> Some (Exec_Failed (- ENOENT), k)
      | Some prog \<Rightarrow>
          let len = node_length (node_of (fs k) prog) in
          if len > EXEC_BUF_SIZE then Some (Exec_Failed (- E2BIG), k)
          else do {
            let buf = exec_buf (image k);
            (got, m) \<leftarrow> vfs_read (\<lambda>dst src n m. vmemcpy m dst src n) (fs k) (Some prog) 0 len buf (mm k);
            let p = process_current k;
            let old_dir = page_dir (procs k ! p);
            (new_dir, m) \<leftarrow> paging_new_directory m;
            if new_dir = 0 then Some (Exec_Failed (- ENOMEM), k\<lparr>mm := m\<rparr>)
            else do {
              ((entry, out), m) \<leftarrow> elf_load buf len (paging_switch_directory new_dir m);
              let b = (case out of None \<Rightarrow> 0 | Some b \<Rightarrow> b);
              if entry = 0 then do {
                m \<leftarrow> paging_free_directory new_dir (paging_switch_directory old_dir m);
                Some (Exec_Failed (- ENOEXEC), k\<lparr>mm := m\<rparr>)
              }
              else do {
                let k = upd_proc p (\<lambda>x. x\<lparr>page_dir := new_dir\<rparr>) (k\<lparr>mm := m\<rparr>);
                let set_cr3 = (\<lambda>x. x\<lparr>task_regs := (task_regs x)\<lparr>t_cr3 := new_dir\<rparr>\<rparr>);
                let k = upd_task (Proc_Task p) set_cr3 (upd_task (running (sched k)) set_cr3 k);
                m \<leftarrow> (if old_dir \<noteq> kernel_dir k then paging_free_directory old_dir (mm k) else Some (mm k));
                let k = upd_proc p (\<lambda>x. x\<lparr>brk := page_up b, brk_mapped := page_up b\<rparr>) (k\<lparr>mm := m\<rparr>);
                m \<leftarrow> for_each stack_page (map (\<lambda>i. USER_STACK_TOP - (of_nat i + 1) * 0x1000) [0 ..< 4]) (mm k);
                let k = k\<lparr>mm := m, esp0 := kernel_stack (procs k ! p)\<rparr>;
                Some (Exec_Entered entry USER_STACK_TOP, k)
              }
            }
          })"

subsection \<open>Exit\<close>

datatype exit_result = Halted | Yielded

definition close_fd :: "nat \<Rightarrow> nat \<Rightarrow> kernel \<Rightarrow> kernel" where
  "close_fd p i k =
     (let k = open_file_release (fds (procs k ! p) ! i) k
      in upd_proc p (\<lambda>x. x\<lparr>fds := (fds x)[i := None]\<rparr>) k)"

definition reparent :: "int \<Rightarrow> process \<Rightarrow> process" where
  "reparent n c = (if state c \<noteq> PROC_FREE \<and> ppid c = n then c\<lparr>ppid := 0\<rparr> else c)"

text \<open>Everything up to and including \<open>task_remove\<close>.\<close>

definition exit_teardown :: "nat \<Rightarrow> u32 \<Rightarrow> kernel \<Rightarrow> kernel option" where
  "exit_teardown p code k = do {
     let k = fold (close_fd p) [0 ..< MAX_FDS] k;
     let k = k\<lparr>procs := map (reparent (pid (procs k ! p))) (procs k)\<rparr>;
     let k = upd_proc p (\<lambda>x. x\<lparr>exit_code := code, state := PROC_ZOMBIE\<rparr>) k;
     let dir = page_dir (procs k ! p);
     let k = k\<lparr>mm := paging_switch_directory (kernel_dir k) (mm k)\<rparr>;
     let k = upd_proc p (\<lambda>x. x\<lparr>page_dir := kernel_dir k\<rparr>) k;
     let set_cr3 = (\<lambda>x. x\<lparr>task_regs := (task_regs x)\<lparr>t_cr3 := kernel_dir k\<rparr>\<rparr>);
     let k = upd_task (running (sched k)) set_cr3 (upd_task (Proc_Task p) set_cr3 k);
     m \<leftarrow> (if dir \<noteq> kernel_dir k then paging_free_directory dir (mm k) else Some (mm k));
     s \<leftarrow> task_remove (Proc_Task p) (sched k);
     Some (k\<lparr>mm := m, sched := s\<rparr>)
   }"

definition process_exit :: "u32 \<Rightarrow> kernel \<Rightarrow> (exit_result \<times> kernel) option" where
  "process_exit code k =
     (let p = process_current k in
      if pid (procs k ! p) = 0 then Some (Halted, k\<lparr>esp0 := halt_stack_top (image k)\<rparr>)
      else do {
        k \<leftarrow> exit_teardown p code k;
        map_option (Pair Yielded) (yield k)
      })"

subsection \<open>Wait\<close>

datatype wait_result = Reaped int | No_Child | Must_Yield

definition children :: "nat \<Rightarrow> kernel \<Rightarrow> nat list" where
  "children self k =
     filter (\<lambda>i. state (procs k ! i) \<noteq> PROC_FREE \<and> ppid (procs k ! i) = pid (procs k ! self) \<and> i \<noteq> self)
       [0 ..< MAX_PROCS]"

text \<open>One pass of the loop; \<open>status\<close> is the user's pointer, 0 for none.\<close>

definition wait_scan :: "u32 \<Rightarrow> kernel \<Rightarrow> (wait_result \<times> kernel) option" where
  "wait_scan status k =
     (let cs = children (process_current k) k in
      case find (\<lambda>i. state (procs k ! i) = PROC_ZOMBIE) cs of
        Some i \<Rightarrow> do {
          m \<leftarrow> (if status \<noteq> 0 then vwrite32 (mm k) status (exit_code (procs k ! i)) else Some (mm k));
          Some (Reaped (pid (procs k ! i)),
            upd_proc i (\<lambda>c. c\<lparr>state := PROC_FREE, kernel_stack := 0\<rparr>) (k\<lparr>mm := m\<rparr>))
        }
      | None \<Rightarrow> Some (if cs = [] then No_Child else Must_Yield, k))"

end
