(* ===== verification/Process_Inv.thy ===== *)
theory Process_Inv
  imports Process
begin

text \<open>
  The invariants of the process bookkeeping: reference counts of open files, process identifiers
  and parents, and the processes in the scheduler ring.  Each has a lemma per operation of theory
  \<open>Process\<close>; what the operations do to memory does not matter here.
\<close>

subsection \<open>Field updates\<close>

lemma upd_proc_simps [simp]:
  "mm (upd_proc i f k) = mm k" "heap (upd_proc i f k) = heap k" "sched (upd_proc i f k) = sched k"
  "cpu (upd_proc i f k) = cpu k" "files (upd_proc i f k) = files k" "next_pid (upd_proc i f k) = next_pid k"
  "kernel_dir (upd_proc i f k) = kernel_dir k" "esp0 (upd_proc i f k) = esp0 k" "fs (upd_proc i f k) = fs k"
  "image (upd_proc i f k) = image k" "console (upd_proc i f k) = console k"
  "procs (upd_proc i f k) = (procs k)[i := f (procs k ! i)]"
  by (simp_all add: upd_proc_def)

lemma upd_file_simps [simp]:
  "mm (upd_file i g k) = mm k" "heap (upd_file i g k) = heap k" "sched (upd_file i g k) = sched k"
  "cpu (upd_file i g k) = cpu k" "procs (upd_file i g k) = procs k" "next_pid (upd_file i g k) = next_pid k"
  "kernel_dir (upd_file i g k) = kernel_dir k" "esp0 (upd_file i g k) = esp0 k" "fs (upd_file i g k) = fs k"
  "image (upd_file i g k) = image k" "console (upd_file i g k) = console k"
  "files (upd_file i g k) = (files k)[i := g (files k ! i)]"
  by (simp_all add: upd_file_def)

lemma upd_task_simps [simp]:
  "mm (upd_task t h k) = mm k" "heap (upd_task t h k) = heap k" "sched (upd_task t h k) = set_task t h (sched k)"
  "cpu (upd_task t h k) = cpu k" "procs (upd_task t h k) = procs k" "next_pid (upd_task t h k) = next_pid k"
  "kernel_dir (upd_task t h k) = kernel_dir k" "esp0 (upd_task t h k) = esp0 k" "fs (upd_task t h k) = fs k"
  "image (upd_task t h k) = image k" "console (upd_task t h k) = console k"
  "files (upd_task t h k) = files k"
  by (simp_all add: upd_task_def)

subsection \<open>Open files\<close>

text \<open>How many descriptors of the processes \<open>ps\<close> refer to open file \<open>j\<close>.\<close>

definition holders :: "nat \<Rightarrow> process list \<Rightarrow> nat" where
  "holders j ps = sum_list (map (\<lambda>p. count_list (fds p) (Some j)) ps)"

lemma count_list_update:
  "i < length xs \<Longrightarrow> count_list (xs[i := x]) y + (if xs ! i = y then 1 else 0) =
     count_list xs y + (if x = y then 1 else 0)"
proof (induction xs arbitrary: i)
  case (Cons a xs)
  show ?case
  proof (cases i)
    case (Suc m)
    then show ?thesis using Cons.IH [of m] Cons.prems by (auto split: if_splits)
  qed auto
qed simp

lemma holders_update:
  "i < length ps \<Longrightarrow> holders j (ps[i := p]) + count_list (fds (ps ! i)) (Some j) =
     holders j ps + count_list (fds p) (Some j)"
proof (induction ps arbitrary: i)
  case (Cons a ps)
  then show ?case by (cases i) (auto simp: holders_def)
qed simp

lemma holders_set_fd:
  assumes "i < length ps" "fd < length (fds (ps ! i))"
  shows "holders j (ps[i := (ps ! i)\<lparr>fds := (fds (ps ! i))[fd := f]\<rparr>]) + (if fds (ps ! i) ! fd = Some j then 1 else 0) =
    holders j ps + (if f = Some j then 1 else 0)"
  using holders_update [OF assms(1), of j "(ps ! i)\<lparr>fds := (fds (ps ! i))[fd := f]\<rparr>"]
    count_list_update [OF assms(2), of f "Some j"] by simp

lemma holders_same: "map fds ps = map fds ps' \<Longrightarrow> holders j ps = holders j ps'"
proof -
  have "holders j qs = sum_list (map (\<lambda>f. count_list f (Some j)) (map fds qs))" for qs
    by (induction qs) (auto simp: holders_def)
  then show "map fds ps = map fds ps' \<Longrightarrow> holders j ps = holders j ps'" by (simp del: map_map)
qed

text \<open>
  The reference count of every open file is the number of descriptors that refer to it, an open
  file has a node exactly while it is referred to, and only running processes have descriptors.
\<close>

definition fds_ok :: "process list \<Rightarrow> open_file list \<Rightarrow> bool" where
  "fds_ok ps fl \<longleftrightarrow> length ps = MAX_PROCS \<and> length fl = MAX_OPEN_FILES \<and>
     (\<forall>i < MAX_PROCS. length (fds (ps ! i)) = MAX_FDS \<and>
        (\<forall>fd < MAX_FDS. \<forall>j. fds (ps ! i) ! fd = Some j \<longrightarrow> j < MAX_OPEN_FILES) \<and>
        (state (ps ! i) \<noteq> PROC_RUN \<longrightarrow> (\<forall>fd < MAX_FDS. fds (ps ! i) ! fd = None))) \<and>
     (\<forall>j < MAX_OPEN_FILES. refcount (fl ! j) = int (holders j ps) \<and>
        (of_node (fl ! j) = None \<longleftrightarrow> refcount (fl ! j) = 0))"

lemma fds_okD:
  assumes "fds_ok ps fl"
  shows "length ps = 16" "length fl = 32" "\<And>i. i < 16 \<Longrightarrow> length (fds (ps ! i)) = 16"
    "\<And>i fd j. i < 16 \<Longrightarrow> fd < 16 \<Longrightarrow> fds (ps ! i) ! fd = Some j \<Longrightarrow> j < 32"
    "\<And>i fd. i < 16 \<Longrightarrow> fd < 16 \<Longrightarrow> state (ps ! i) \<noteq> PROC_RUN \<Longrightarrow> fds (ps ! i) ! fd = None"
    "\<And>j. j < 32 \<Longrightarrow> refcount (fl ! j) = int (holders j ps)"
    "\<And>j. j < 32 \<Longrightarrow> of_node (fl ! j) = None \<longleftrightarrow> refcount (fl ! j) = 0"
  using assms unfolding fds_ok_def by blast+

text \<open>Changes to a process that leave its descriptors alone.\<close>

lemma fds_ok_proc:
  assumes "fds_ok ps fl" "fds p = fds (ps ! i)" "state p \<noteq> PROC_RUN \<longrightarrow> (\<forall>fd < 16. fds p ! fd = None)"
  shows "fds_ok (ps[i := p]) fl"
proof (cases "i < length ps")
  case True
  note D = fds_okD [OF assms(1)]
  have "map fds (ps[i := p]) = map fds ps"
    using assms(2) True by (metis list_update_id map_update nth_map)
  then have h: "holders j (ps[i := p]) = holders j ps" for j by (rule holders_same)
  show ?thesis
    unfolding fds_ok_def h
    using D assms(2,3) True by (auto simp: nth_list_update)
next
  case False
  then show ?thesis using assms(1) by (simp add: list_update_beyond)
qed

lemma fds_ok_map:
  assumes "fds_ok ps fl" "\<And>p. fds (f p) = fds p" "\<And>p. state (f p) = state p"
  shows "fds_ok (map f ps) fl"
proof -
  have "holders j (map f ps) = holders j ps" for j by (rule holders_same) (simp add: assms(2))
  then show ?thesis using fds_okD [OF assms(1)] by (simp add: fds_ok_def assms(2,3))
qed

text \<open>A descriptor of a running process that was empty is set to an open file.\<close>

lemma fds_ok_acquire:
  assumes ok: "fds_ok ps fl" and i: "i < 16" "fd < 16" and j: "j < 32"
    and run: "state (ps ! i) = PROC_RUN" and none: "fds (ps ! i) ! fd = None"
    and f: "refcount f = refcount (fl ! j) + 1" "of_node f \<noteq> None"
  shows "fds_ok (ps[i := (ps ! i)\<lparr>fds := (fds (ps ! i))[fd := Some j]\<rparr>]) (fl[j := f])"
proof -
  note D = fds_okD [OF ok]
  let ?ps = "ps[i := (ps ! i)\<lparr>fds := (fds (ps ! i))[fd := Some j]\<rparr>]"
  have h: "holders j' ?ps = holders j' ps + (if j' = j then 1 else 0)" for j'
    using holders_set_fd [of i ps fd j' "Some j"] D(1,3) i none by simp
  show ?thesis
    unfolding fds_ok_def h
    using D i j run f by (auto simp: nth_list_update)
qed

text \<open>A descriptor is cleared and its open file released.\<close>

definition drop_ref :: "open_file \<Rightarrow> open_file" where
  "drop_ref f = (if refcount f - 1 \<le> 0 then zero_file else f\<lparr>refcount := refcount f - 1\<rparr>)"

lemma fds_ok_release:
  assumes ok: "fds_ok ps fl" and i: "i < 16" "fd < 16" and some: "fds (ps ! i) ! fd = Some j"
  shows "fds_ok (ps[i := (ps ! i)\<lparr>fds := (fds (ps ! i))[fd := None]\<rparr>]) (fl[j := drop_ref (fl ! j)])"
proof -
  note D = fds_okD [OF ok]
  have j: "j < 32" by (rule D(4) [OF i some])
  let ?ps = "ps[i := (ps ! i)\<lparr>fds := (fds (ps ! i))[fd := None]\<rparr>]"
  have h: "holders j' ?ps + (if j' = j then 1 else 0) = holders j' ps" for j'
    using holders_set_fd [of i ps fd j' None] D(1,3) i some by auto
  have hj: "holders j ps = Suc (holders j ?ps)" using h [of j] by simp
  have other: "j' \<noteq> j \<Longrightarrow> holders j' ?ps = holders j' ps" for j' using h [of j'] by simp
  have fr: "refcount (drop_ref (fl ! j)) = int (holders j ?ps)"
    "of_node (drop_ref (fl ! j)) = None \<longleftrightarrow> refcount (drop_ref (fl ! j)) = 0"
    using D(6,7) [OF j] hj by (auto simp: drop_ref_def zero_file_def split: if_splits)
  show ?thesis
    unfolding fds_ok_def
    using D i j fr other by (auto simp: nth_list_update)
qed

subsection \<open>Identifiers and parents\<close>

text \<open>
  Process 0 runs; live processes have different identifiers below \<open>next_pid\<close>; and every live
  process but 0 has a running parent.
\<close>

definition pids_ok :: "process list \<Rightarrow> int \<Rightarrow> bool" where
  "pids_ok ps n \<longleftrightarrow> length ps = MAX_PROCS \<and> 0 < n \<and> state (ps ! 0) = PROC_RUN \<and> pid (ps ! 0) = 0 \<and>
     (\<forall>i < MAX_PROCS. 0 < i \<longrightarrow> state (ps ! i) \<noteq> PROC_FREE \<longrightarrow> 0 < pid (ps ! i) \<and> pid (ps ! i) < n \<and>
        (\<exists>j < MAX_PROCS. state (ps ! j) = PROC_RUN \<and> pid (ps ! j) = ppid (ps ! i))) \<and>
     (\<forall>i < MAX_PROCS. \<forall>j < MAX_PROCS. state (ps ! i) \<noteq> PROC_FREE \<longrightarrow> state (ps ! j) \<noteq> PROC_FREE \<longrightarrow>
        pid (ps ! i) = pid (ps ! j) \<longrightarrow> i = j)"

lemma pids_okD:
  assumes "pids_ok ps n"
  shows "length ps = 16" "0 < n" "state (ps ! 0) = PROC_RUN" "pid (ps ! 0) = 0"
    "\<And>i. i < 16 \<Longrightarrow> 0 < i \<Longrightarrow> state (ps ! i) \<noteq> PROC_FREE \<Longrightarrow> 0 < pid (ps ! i) \<and> pid (ps ! i) < n"
    "\<And>i. i < 16 \<Longrightarrow> 0 < i \<Longrightarrow> state (ps ! i) \<noteq> PROC_FREE \<Longrightarrow>
       \<exists>j < 16. state (ps ! j) = PROC_RUN \<and> pid (ps ! j) = ppid (ps ! i)"
    "\<And>i j. i < 16 \<Longrightarrow> j < 16 \<Longrightarrow> state (ps ! i) \<noteq> PROC_FREE \<Longrightarrow> state (ps ! j) \<noteq> PROC_FREE \<Longrightarrow>
        pid (ps ! i) = pid (ps ! j) \<Longrightarrow> i = j"
  using assms unfolding pids_ok_def by blast+

lemma pids_okI:
  assumes "length ps = 16" "0 < n" "state (ps ! 0) = PROC_RUN" "pid (ps ! 0) = 0"
    "\<And>i. i < 16 \<Longrightarrow> 0 < i \<Longrightarrow> state (ps ! i) \<noteq> PROC_FREE \<Longrightarrow> 0 < pid (ps ! i) \<and> pid (ps ! i) < n"
    "\<And>i. i < 16 \<Longrightarrow> 0 < i \<Longrightarrow> state (ps ! i) \<noteq> PROC_FREE \<Longrightarrow>
       \<exists>j < 16. state (ps ! j) = PROC_RUN \<and> pid (ps ! j) = ppid (ps ! i)"
    "\<And>i j. i < 16 \<Longrightarrow> j < 16 \<Longrightarrow> state (ps ! i) \<noteq> PROC_FREE \<Longrightarrow> state (ps ! j) \<noteq> PROC_FREE \<Longrightarrow>
        pid (ps ! i) = pid (ps ! j) \<Longrightarrow> i = j"
  shows "pids_ok ps n"
  using assms unfolding pids_ok_def by blast

text \<open>Changes to a process that keep identifier, parent and state.\<close>

lemma pids_ok_proc:
  assumes "pids_ok ps n" "pid p = pid (ps ! i)" "ppid p = ppid (ps ! i)" "state p = state (ps ! i)"
  shows "pids_ok (ps[i := p]) n"
proof -
  have "pid (ps[i := p] ! j) = pid (ps ! j)" "ppid (ps[i := p] ! j) = ppid (ps ! j)"
    "state (ps[i := p] ! j) = state (ps ! j)" for j
    using assms(2-4) by (cases "i < length ps"; cases "j = i"; simp add: list_update_beyond)+
  then show ?thesis using assms(1) by (simp add: pids_ok_def)
qed

text \<open>A free slot becomes a process of a running parent, with a fresh identifier.\<close>

lemma pids_ok_new:
  assumes ok: "pids_ok ps n" and i: "0 < i" "i < 16" and free: "state (ps ! i) = PROC_FREE"
    and p: "pid p = n" "\<exists>j < 16. state (ps ! j) = PROC_RUN \<and> pid (ps ! j) = ppid p"
  shows "pids_ok (ps[i := p]) (n + 1)"
proof -
  note D = pids_okD [OF ok]
  obtain j where j: "j < 16" "state (ps ! j) = PROC_RUN" "pid (ps ! j) = ppid p" using p(2) by blast
  then have ji: "j \<noteq> i" using free by auto
  have nth: "(ps[i := p]) ! m = (if m = i then p else ps ! m)" for m using D(1) i by (simp add: nth_list_update)
  have low: "m < 16 \<Longrightarrow> state (ps ! m) \<noteq> PROC_FREE \<Longrightarrow> pid (ps ! m) < n" for m
    using D(2) D(4) D(5) [of m] by (cases "m = 0") auto
  show ?thesis
  proof (rule pids_okI, unfold nth)
    fix m assume m: "m < 16" "0 < m" "state (if m = i then p else ps ! m) \<noteq> PROC_FREE"
    show "0 < pid (if m = i then p else ps ! m) \<and> pid (if m = i then p else ps ! m) < n + 1"
      using m D(2) D(5) [of m] p(1) by auto
    show "\<exists>j < 16. state (if j = i then p else ps ! j) = PROC_RUN \<and>
        pid (if j = i then p else ps ! j) = ppid (if m = i then p else ps ! m)"
    proof (cases "m = i")
      case True
      then show ?thesis using j ji by (intro exI [of _ j]) simp
    next
      case False
      then obtain j' where j': "j' < 16" "state (ps ! j') = PROC_RUN" "pid (ps ! j') = ppid (ps ! m)"
        using D(6) m by auto
      then have "j' \<noteq> i" using free by auto
      then show ?thesis using j' False by (intro exI [of _ j']) simp
    qed
  next
    fix a b assume ab: "a < 16" "b < 16" "state (if a = i then p else ps ! a) \<noteq> PROC_FREE"
      "state (if b = i then p else ps ! b) \<noteq> PROC_FREE"
      "pid (if a = i then p else ps ! a) = pid (if b = i then p else ps ! b)"
    have "a \<noteq> i \<Longrightarrow> b \<noteq> i \<Longrightarrow> a = b" using ab D(7) [of a b] by simp
    moreover have "a = i \<Longrightarrow> b \<noteq> i \<Longrightarrow> False" using ab low [of b] p(1) by simp
    moreover have "a \<noteq> i \<Longrightarrow> b = i \<Longrightarrow> False" using ab low [of a] p(1) by simp
    ultimately show "a = b" by blast
  qed (use D i in auto)
qed

text \<open>A process gets another running process as its parent.\<close>

lemma pids_ok_parent:
  assumes ok: "pids_ok ps n" and p: "pid p = pid (ps ! i)" "state p = state (ps ! i)"
    and par: "\<exists>j < 16. state (ps ! j) = PROC_RUN \<and> pid (ps ! j) = ppid p"
  shows "pids_ok (ps[i := p]) n"
proof (cases "i < 16")
  case True
  note D = pids_okD [OF ok]
  have same: "pid (ps[i := p] ! m) = pid (ps ! m)" "state (ps[i := p] ! m) = state (ps ! m)"
    "m \<noteq> i \<Longrightarrow> ppid (ps[i := p] ! m) = ppid (ps ! m)" for m
    using p True D(1) by (cases "m = i"; simp)+
  have pi: "ppid (ps[i := p] ! i) = ppid p" using True D(1) by simp
  show ?thesis
  proof (rule pids_okI, unfold same(1,2))
    fix m assume m: "m < 16" "0 < m" "state (ps ! m) \<noteq> PROC_FREE"
    show "\<exists>j < 16. state (ps ! j) = PROC_RUN \<and> pid (ps ! j) = ppid (ps[i := p] ! m)"
      using D(6) [OF m] par pi same(3) [of m] by (cases "m = i") auto
  qed (use D in auto)
next
  case False
  then show ?thesis using ok pids_okD(1) [OF ok] by (simp add: list_update_beyond)
qed

text \<open>A zombie's slot is freed.\<close>

lemma pids_ok_free:
  assumes ok: "pids_ok ps n" and st: "state (ps ! i) \<noteq> PROC_RUN" and p: "state p = PROC_FREE"
  shows "pids_ok (ps[i := p]) n"
proof (cases "i < 16")
  case True
  note D = pids_okD [OF ok]
  have i0: "0 < i" using st D(3) by (cases i) auto
  have nth: "(ps[i := p]) ! m = (if m = i then p else ps ! m)" for m using D(1) True by (simp add: nth_list_update)
  show ?thesis
  proof (rule pids_okI, unfold nth)
    fix m assume m: "m < 16" "0 < m" "state (if m = i then p else ps ! m) \<noteq> PROC_FREE"
    then have mi: "m \<noteq> i" using p by auto
    then show "0 < pid (if m = i then p else ps ! m) \<and> pid (if m = i then p else ps ! m) < n"
      using m D(5) by simp
    obtain j where j: "j < 16" "state (ps ! j) = PROC_RUN" "pid (ps ! j) = ppid (ps ! m)"
      using D(6) m mi by auto
    then have "j \<noteq> i" using st by auto
    then show "\<exists>j < 16. state (if j = i then p else ps ! j) = PROC_RUN \<and>
        pid (if j = i then p else ps ! j) = ppid (if m = i then p else ps ! m)"
      using j mi by (intro exI [of _ j]) simp
  qed (use D i0 p in \<open>auto split: if_splits\<close>)
next
  case False
  then show ?thesis using ok pids_okD(1) [OF ok] by (simp add: list_update_beyond)
qed

lemma reparent_simps [simp]:
  "pid (reparent n c) = pid c" "state (reparent n c) = state c" "fds (reparent n c) = fds c"
  "ppid (reparent n c) = (if state c \<noteq> PROC_FREE \<and> ppid c = n then 0 else ppid c)"
  by (simp_all add: reparent_def)

text \<open>A process dies: its children are handed to process 0.\<close>

lemma pids_ok_exit:
  assumes ok: "pids_ok ps n" and i: "0 < i" "i < 16" and run: "state (ps ! i) \<noteq> PROC_FREE"
    and ps': "ps' = map (reparent (pid (ps ! i))) ps"
    and p: "pid p = pid (ps' ! i)" "ppid p = ppid (ps' ! i)" "state p = PROC_ZOMBIE"
  shows "pids_ok (ps'[i := p]) n"
proof -
  note D = pids_okD [OF ok]
  have nth: "ps' ! m = reparent (pid (ps ! i)) (ps ! m)" if "m < 16" for m
    using that D(1) by (simp add: ps')
  have len: "length ps' = 16" using D(1) by (simp add: ps')
  have same: "pid (ps'[i := p] ! m) = pid (ps ! m)"
    "state (ps'[i := p] ! m) = (if m = i then PROC_ZOMBIE else state (ps ! m))"
    "ppid (ps'[i := p] ! m) = (if state (ps ! m) \<noteq> PROC_FREE \<and> ppid (ps ! m) = pid (ps ! i) then 0 else ppid (ps ! m))"
    if "m < 16" for m
    using that len i(2) by (simp_all add: nth_list_update nth [OF that] p nth [OF i(2)])
  show ?thesis
  proof (rule pids_okI)
    fix m assume m: "m < 16" "0 < m" "state (ps'[i := p] ! m) \<noteq> PROC_FREE"
    then have live: "state (ps ! m) \<noteq> PROC_FREE" using same(2) [OF m(1)] run by (auto split: if_splits)
    show "0 < pid (ps'[i := p] ! m) \<and> pid (ps'[i := p] ! m) < n"
      using D(5) [OF m(1,2) live] same(1) [OF m(1)] by simp
    show "\<exists>j < 16. state (ps'[i := p] ! j) = PROC_RUN \<and> pid (ps'[i := p] ! j) = ppid (ps'[i := p] ! m)"
    proof (cases "ppid (ps ! m) = pid (ps ! i)")
      case True
      then have "ppid (ps'[i := p] ! m) = 0" using same(3) [OF m(1)] live by simp
      then show ?thesis using same [of 0] D(3,4) i(1) by (intro exI [of _ 0]) auto
    next
      case False
      obtain j where j: "j < 16" "state (ps ! j) = PROC_RUN" "pid (ps ! j) = ppid (ps ! m)"
        using D(6) [OF m(1,2) live] by blast
      then have "j \<noteq> i" using False by auto
      then show ?thesis using j same [OF j(1)] same(3) [OF m(1)] False by (intro exI [of _ j]) auto
    qed
  next
    fix a b assume h: "a < 16" "b < 16" "state (ps'[i := p] ! a) \<noteq> PROC_FREE" "state (ps'[i := p] ! b) \<noteq> PROC_FREE"
      "pid (ps'[i := p] ! a) = pid (ps'[i := p] ! b)"
    have "state (ps ! a) \<noteq> PROC_FREE" using h(3) same(2) [OF h(1)] run by (cases "a = i") simp_all
    moreover have "state (ps ! b) \<noteq> PROC_FREE" using h(4) same(2) [OF h(2)] run by (cases "b = i") simp_all
    moreover have "pid (ps ! a) = pid (ps ! b)" using h(5) unfolding same(1) [OF h(1)] same(1) [OF h(2)] .
    ultimately show "a = b" by (rule D(7) [OF h(1,2)])
  next
    show "length (ps'[i := p]) = 16" using len by simp
    show "state (ps'[i := p] ! 0) = PROC_RUN" "pid (ps'[i := p] ! 0) = 0"
      using same(1,2) [of 0] D(3,4) i by simp_all
  qed (rule D(2))
qed

end
