(* ===== verification/Syscall.thy ===== *)
theory Syscall
  imports Process_Inv
begin

text \<open>
  The system call layer, \<open>kernel/arch/i386/syscall.c\<close>: validation of user pointers, one handler
  per call and the dispatcher, with \<open>process_wait\<close>.  The handlers that hand the processor to
  somebody else say so in their result instead of returning a number.
\<close>

abbreviation (input) USER_LIMIT :: u32 where "USER_LIMIT \<equiv> 0xC0000000"
abbreviation (input) USER_BRK_LIMIT :: u32 where "USER_BRK_LIMIT \<equiv> 0xB0000000"

subsection \<open>User pointers\<close>

fun all_user :: "u32 list \<Rightarrow> mm_state \<Rightarrow> bool option" where
  "all_user [] s = Some True"
| "all_user (a # as) s = do {
     u \<leftarrow> paging_is_user a s;
     if u then all_user as s else Some False
   }"

definition user_range_ok :: "u32 \<Rightarrow> u32 \<Rightarrow> mm_state \<Rightarrow> bool option" where
  "user_range_ok addr len s =
     (if len = 0 then Some True
      else if addr \<ge> USER_LIMIT \<or> addr + len < addr \<or> addr + len > USER_LIMIT then Some False
      else do {
        as \<leftarrow> page_addrs (page_down addr) (addr + len);
        all_user as s
      })"

fun user_string_ok :: "u32 \<Rightarrow> nat \<Rightarrow> mm_state \<Rightarrow> bool option" where
  "user_string_ok a 0 s = Some False"
| "user_string_ok a (Suc n) s = do {
     ok \<leftarrow> user_range_ok a 1 s;
     if \<not> ok then Some False
     else do {
       b \<leftarrow> vread8 s a;
       if b = 0 then Some True else user_string_ok (a + 1) n s
     }
   }"

text \<open>\<open>fd\<close> is a machine word the handlers convert to \<open>int\<close>.\<close>

definition get_fd :: "u32 \<Rightarrow> kernel \<Rightarrow> nat option" where
  "get_fd fd k =
     (if sint fd < 0 \<or> sint fd \<ge> int MAX_FDS then None
      else fds (procs k ! process_current k) ! unat fd)"

subsection \<open>Handlers\<close>

text \<open>
  \<open>Sys_Return v\<close>: the call returns \<open>v\<close> in \<open>eax\<close>.  \<open>Sys_Enter\<close>: \<open>execve\<close> jumped to user mode.
  \<open>Sys_Exit\<close>: the process is gone.  \<open>Sys_Again\<close>: \<open>wait\<close> yielded and scans again when it is resumed.
\<close>

datatype sys_result = Sys_Return u32 | Sys_Enter u32 u32 | Sys_Exit exit_result | Sys_Again

definition ret :: "u32 \<Rightarrow> kernel \<Rightarrow> (sys_result \<times> kernel) option" where
  "ret v k = Some (Sys_Return v, k)"

definition sys_exit :: "u32 \<Rightarrow> kernel \<Rightarrow> (sys_result \<times> kernel) option" where
  "sys_exit code k = map_option (\<lambda>(r, k). (Sys_Exit r, k)) (process_exit code k)"

text \<open>\<open>printf("%c", c)\<close> is one byte on the console.\<close>

definition put_console :: "u8 list \<Rightarrow> kernel \<Rightarrow> kernel" where
  "put_console bs k = k\<lparr>console := console k @ bs\<rparr>"

definition sys_write :: "u32 \<Rightarrow> u32 \<Rightarrow> u32 \<Rightarrow> kernel \<Rightarrow> (sys_result \<times> kernel) option" where
  "sys_write fd buf len k =
     (if fd \<noteq> 1 \<and> fd \<noteq> 2 then ret (- EBADF) k
      else do {
        ok \<leftarrow> user_range_ok buf len (mm k);
        if \<not> ok then ret (- EFAULT) k
        else do {
          bs \<leftarrow> read_bytes (vread8 (mm k)) buf (unat len);
          ret len (put_console bs k)
        }
      })"

definition sys_read :: "u32 \<Rightarrow> u32 \<Rightarrow> u32 \<Rightarrow> kernel \<Rightarrow> (sys_result \<times> kernel) option" where
  "sys_read fd buf len k =
     (case get_fd fd k of
        None \<Rightarrow> ret (- EBADF) k
      | Some j \<Rightarrow> do {
          ok \<leftarrow> user_range_ok buf len (mm k);
          if \<not> ok then ret (- EFAULT) k
          else do {
            (got, m) \<leftarrow> vfs_read (\<lambda>dst src n m. vmemcpy m dst src n) (fs k) (of_node (files k ! j))
              (of_offset (files k ! j)) len buf (mm k);
            ret got (upd_file j (\<lambda>f. f\<lparr>of_offset := of_offset f + got\<rparr>) (k\<lparr>mm := m\<rparr>))
          }
        })"

definition sys_open :: "u32 \<Rightarrow> kernel \<Rightarrow> (sys_result \<times> kernel) option" where
  "sys_open path k = do {
     ok \<leftarrow> user_string_ok path 256 (mm k);
     if \<not> ok then ret (- EFAULT) k
     else do {
       name \<leftarrow> read_cstr (vread8 (mm k)) path 256;
       case vfs_finddir (fs k) (fs_root (fs k)) name of
         None \<Rightarrow> ret (- ENOENT) k
       | Some node \<Rightarrow>
           (let p = process_current k in
            case find (\<lambda>i. fds (procs k ! p) ! i = None) [3 ..< MAX_FDS] of
              None \<Rightarrow> ret (- EMFILE) k
            | Some fd \<Rightarrow>
                (case open_file_alloc node k of
                   (None, k) \<Rightarrow> ret (- ENFILE) k
                 | (Some j, k) \<Rightarrow> ret (of_nat fd) (upd_proc p (\<lambda>x. x\<lparr>fds := (fds x)[fd := Some j]\<rparr>) k)))
     }
   }"

definition sys_close :: "u32 \<Rightarrow> kernel \<Rightarrow> (sys_result \<times> kernel) option" where
  "sys_close fd k =
     (case get_fd fd k of
        None \<Rightarrow> ret (- EBADF) k
      | Some j \<Rightarrow>
          ret 0 (open_file_release (Some j)
            (upd_proc (process_current k) (\<lambda>x. x\<lparr>fds := (fds x)[unat fd := None]\<rparr>) k)))"

definition sys_getpid :: "kernel \<Rightarrow> (sys_result \<times> kernel) option" where
  "sys_getpid k = ret (word_of_int (pid (procs k ! process_current k))) k"

text \<open>One page of growing: \<open>(False, _)\<close> is the return of \<open>-ENOMEM\<close> from the loop.\<close>

definition grow_page :: "u32 \<Rightarrow> mm_state \<Rightarrow> (bool \<times> mm_state) option" where
  "grow_page a s = do {
     phys \<leftarrow> paging_virt_to_phys a s;
     if phys \<noteq> 0xFFFFFFFF then Some (True, s)
     else
       (let (frame, s) = mm_alloc s in
        if frame = 0 then Some (False, s)
        else do {
          s \<leftarrow> paging_map a frame (PAGE_USER OR PAGE_WRITE) s;
          s \<leftarrow> vmemset s a 0 0x1000;
          Some (True, s)
        })
   }"

definition shrink_page :: "u32 \<Rightarrow> mm_state \<Rightarrow> mm_state option" where
  "shrink_page a s = do {
     phys \<leftarrow> paging_virt_to_phys a s;
     if phys = 0xFFFFFFFF then Some s
     else do {
       s \<leftarrow> paging_unmap a s;
       Some (mm_free (page_down phys) s)
     }
   }"

definition sys_sbrk :: "u32 \<Rightarrow> kernel \<Rightarrow> (sys_result \<times> kernel) option" where
  "sys_sbrk increment k =
     (let p = process_current k; old = brk (procs k ! p); want = old + increment in
      if sint increment = 0 then ret old k
      else if sint increment > 0 then
        (if want < old \<or> want > USER_BRK_LIMIT then ret (- ENOMEM) k
         else do {
           as \<leftarrow> page_addrs (page_down old) want;
           (ok, m) \<leftarrow> try_each grow_page as (mm k);
           if \<not> ok then ret (- ENOMEM) (k\<lparr>mm := m\<rparr>)
           else ret old (upd_proc p (\<lambda>x. x\<lparr>brk := want\<rparr>) (k\<lparr>mm := m\<rparr>))
         })
      else
        (if want > old then ret (- EINVAL) k
         else do {
           as \<leftarrow> page_addrs (page_up want) old;
           m \<leftarrow> for_each shrink_page as (mm k);
           ret old (upd_proc p (\<lambda>x. x\<lparr>brk := want\<rparr>) (k\<lparr>mm := m\<rparr>))
         }))"

definition sys_execve :: "u32 \<Rightarrow> kernel \<Rightarrow> (sys_result \<times> kernel) option" where
  "sys_execve path k = do {
     ok \<leftarrow> user_string_ok path 256 (mm k);
     if \<not> ok then ret (- EFAULT) k
     else do {
       name \<leftarrow> read_cstr (vread8 (mm k)) path 256;
       (r, k) \<leftarrow> process_execve name k;
       Some (case r of Exec_Failed e \<Rightarrow> Sys_Return e | Exec_Entered entry stack \<Rightarrow> Sys_Enter entry stack, k)
     }
   }"

text \<open>\<open>process_wait\<close> up to its return or to its call of \<open>yield\<close>.\<close>

definition process_wait :: "u32 \<Rightarrow> kernel \<Rightarrow> (sys_result \<times> kernel) option" where
  "process_wait status k = do {
     (r, k) \<leftarrow> wait_scan status k;
     case r of
       Reaped n \<Rightarrow> ret (word_of_int n) k
     | No_Child \<Rightarrow> ret (- ECHILD) k
     | Must_Yield \<Rightarrow> map_option (Pair Sys_Again) (yield k)
   }"

definition sys_wait :: "u32 \<Rightarrow> kernel \<Rightarrow> (sys_result \<times> kernel) option" where
  "sys_wait status k = do {
     ok \<leftarrow> (if status \<noteq> 0 then user_range_ok status 4 (mm k) else Some True);
     if \<not> ok then ret (- EFAULT) k else process_wait status k
   }"

subsection \<open>Dispatch\<close>

text \<open>The table of \<open>sys/syscall.h\<close>; number 7 is \<open>fork\<close>, which needs the whole frame.\<close>

definition syscall_handler :: "int_frame \<Rightarrow> kernel \<Rightarrow> (sys_result \<times> kernel) option" where
  "syscall_handler regs k =
     (let n = f_eax regs; a = f_ebx regs; b = f_ecx regs; c = f_edx regs in
      if n = 7 then map_option (\<lambda>(v, k). (Sys_Return v, k)) (process_fork regs k)
      else if n = 0 then sys_exit a k
      else if n = 1 then sys_write a b c k
      else if n = 2 then sys_read a b c k
      else if n = 3 then sys_open a k
      else if n = 4 then sys_close a k
      else if n = 5 then sys_getpid k
      else if n = 6 then sys_sbrk a k
      else if n = 8 then sys_execve a k
      else if n = 9 then sys_wait a k
      else ret (- ENOSYS) k)"

end
