(* ===== verification/Kernel_Inv.thy ===== *)
theory Kernel_Inv
  imports Syscall
begin

text \<open>
  The invariant of the whole process layer and a lemma per system call that it is kept: open
  files, identifiers and parents (theory \<open>Process_Inv\<close>) and the scheduler's ring, which holds
  \<open>main_task\<close> and the tasks of exactly the running processes other than process 0.
\<close>

subsection \<open>The ring and the process table\<close>

definition ring_has :: "sched \<Rightarrow> nat set \<Rightarrow> bool" where
  "ring_has s D \<longleftrightarrow> (\<exists>xs. ring s xs \<and> set xs = insert Main_Task (Proc_Task ` D))"

definition runners :: "process list \<Rightarrow> nat set" where
  "runners ps = {i. 0 < i \<and> i < MAX_PROCS \<and> state (ps ! i) = PROC_RUN}"

lemma ring_hasI: "ring s xs \<Longrightarrow> set xs = insert Main_Task (Proc_Task ` D) \<Longrightarrow> ring_has s D"
  unfolding ring_has_def by blast

lemma ring_hasE:
  assumes "ring_has s D"
  obtains r xs where "ring s (r # xs)" "set (r # xs) = insert Main_Task (Proc_Task ` D)"
  using assms by (metis ring.elims(2) ring_has_def)

lemma ring_has_task:
  assumes "ring_has s D" "\<And>x. task_next (f x) = task_next x"
  shows "ring_has (set_task t f s) D"
proof -
  obtain r xs where xs: "ring s (r # xs)" "set (r # xs) = insert Main_Task (Proc_Task ` D)"
    using assms(1) by (rule ring_hasE)
  have "ring (set_task t f s) (r # xs)" by (rule ring_cong [OF xs(1)]) (simp_all add: next_of_def assms(2))
  then show ?thesis using xs(2) by (rule ring_hasI)
qed

lemma ring_has_reset:
  assumes "ring_has s D" "i \<notin> D"
  shows "ring_has (set_task (Proc_Task i) f s) D"
proof -
  obtain r xs where xs: "ring s (r # xs)" "set (r # xs) = insert Main_Task (Proc_Task ` D)"
    using assms(1) by (rule ring_hasE)
  have "Proc_Task i \<notin> set (r # xs)" unfolding xs(2) using assms(2) by auto
  then have "ring (set_task (Proc_Task i) f s) (r # xs)"
    by (intro ring_cong [OF xs(1)]) (auto simp: next_of_def)
  then show ?thesis using xs(2) by (rule ring_hasI)
qed

lemma ring_has_add:
  assumes "ring_has s D" "i \<notin> D"
  shows "ring_has (task_add (Proc_Task i) s) (insert i D)"
proof -
  obtain r xs where xs: "ring s (r # xs)" "set (r # xs) = insert Main_Task (Proc_Task ` D)"
    using assms(1) by (rule ring_hasE)
  have "Proc_Task i \<notin> set (r # xs)" unfolding xs(2) using assms(2) by auto
  then have "ring (task_add (Proc_Task i) s) (r # Proc_Task i # xs)" by (intro ring_add [OF xs(1)])
  then show ?thesis by (rule ring_hasI) (use xs(2) in auto)
qed

lemma ring_has_advance:
  assumes "ring_has s D"
  shows "\<exists>s'. advance s = Some s' \<and> ring_has s' D"
proof -
  obtain r xs where xs: "ring s (r # xs)" "set (r # xs) = insert Main_Task (Proc_Task ` D)"
    using assms by (rule ring_hasE)
  obtain s' where "advance s = Some s'" "ring s' (xs @ [r])" using ring_advance [OF xs(1)] by blast
  moreover have "ring_has s' D" by (rule ring_hasI [OF \<open>ring s' _\<close>]) (use xs(2) in auto)
  ultimately show ?thesis by blast
qed

text \<open>The running task is removed, then somebody else runs.\<close>

lemma ring_has_leave:
  assumes "ring_has s D" "running s = Proc_Task p"
  shows "\<exists>s' s''. task_remove (Proc_Task p) s = Some s' \<and> running s' = Proc_Task p \<and> advance s' = Some s'' \<and>
    ring_has s'' (D - {p}) \<and> running s'' \<noteq> Proc_Task p"
proof -
  obtain r xs where xs: "ring s (r # xs)" "set (r # xs) = insert Main_Task (Proc_Task ` D)"
    using assms(1) by (rule ring_hasE)
  have r: "r = Proc_Task p" using xs(1) assms(2) by simp
  then obtain x ys where ys: "xs = x # ys" using xs(2) by (cases xs) auto
  obtain s' s'' where s: "task_remove r s = Some s'" "running s' = r" "advance s' = Some s''" "ring s'' (x # ys)"
    using ring_remove_running [of s r x ys] xs(1) ys by blast
  have d: "r \<notin> set xs" using xs(1) by simp
  then have "set xs = set (r # xs) - {r}" by auto
  then have "set xs = insert Main_Task (Proc_Task ` (D - {p}))" unfolding xs(2) by (auto simp: r)
  then have "ring_has s'' (D - {p})" using ring_hasI [OF s(4)] ys by simp
  moreover have "running s'' \<noteq> Proc_Task p" using s(4) d r ys by auto
  ultimately show ?thesis using s(1-3) r by (intro exI [of _ s'] exI [of _ s'']) simp
qed

lemma ring_has_running:
  assumes "ring_has s D"
  shows "running s = Main_Task \<or> (\<exists>i \<in> D. running s = Proc_Task i)"
proof -
  obtain r xs where "ring s (r # xs)" "set (r # xs) = insert Main_Task (Proc_Task ` D)"
    using assms by (rule ring_hasE)
  then show ?thesis by auto
qed

subsection \<open>The invariant\<close>

definition kinv :: "kernel \<Rightarrow> bool" where
  "kinv k \<longleftrightarrow> fds_ok (procs k) (files k) \<and> pids_ok (procs k) (next_pid k) \<and> ring_has (sched k) (runners (procs k))"

lemma kinvD:
  assumes "kinv k"
  shows "fds_ok (procs k) (files k)" "pids_ok (procs k) (next_pid k)" "ring_has (sched k) (runners (procs k))"
    "length (procs k) = 16" "length (files k) = 32"
  using assms fds_okD(1,2) [of "procs k" "files k"] by (simp_all add: kinv_def)

lemma kinvI:
  "fds_ok (procs k) (files k) \<Longrightarrow> pids_ok (procs k) (next_pid k) \<Longrightarrow> ring_has (sched k) (runners (procs k)) \<Longrightarrow> kinv k"
  by (simp add: kinv_def)

lemma runners_update:
  "i < length ps \<Longrightarrow> (state p = PROC_RUN) = (state (ps ! i) = PROC_RUN) \<Longrightarrow> runners (ps[i := p]) = runners ps"
  by (auto simp: runners_def nth_list_update)

lemma runners_insert:
  "length ps = 16 \<Longrightarrow> 0 < i \<Longrightarrow> i < 16 \<Longrightarrow> state p = PROC_RUN \<Longrightarrow> runners (ps[i := p]) = insert i (runners ps)"
  by (auto simp: runners_def nth_list_update)

lemma runners_remove:
  "length ps = 16 \<Longrightarrow> state p \<noteq> PROC_RUN \<Longrightarrow> runners (ps[i := p]) = runners ps - {i}"
  by (cases "i < 16") (auto simp: runners_def nth_list_update list_update_beyond)

text \<open>The process the kernel works for.\<close>

lemma current_runs:
  assumes "kinv k"
  shows "process_current k < 16" "state (procs k ! process_current k) = PROC_RUN"
    "process_current k \<noteq> 0 \<Longrightarrow> running (sched k) = Proc_Task (process_current k)"
proof -
  let ?P = "\<lambda>i. state (procs k ! i) \<noteq> PROC_FREE \<and> Proc_Task i = running (sched k)"
  have "process_current k < 16 \<and> state (procs k ! process_current k) = PROC_RUN \<and>
    (process_current k \<noteq> 0 \<longrightarrow> running (sched k) = Proc_Task (process_current k))"
  proof (cases "find ?P [0 ..< 16]")
    case None
    then show ?thesis
      using pids_okD(3) [OF kinvD(2) [OF assms]] by (simp add: process_current_def process_of_task_def)
  next
    case (Some i)
    then have i: "i < 16" "running (sched k) = Proc_Task i" by (auto simp: find_Some_iff)
    then have "i \<in> runners (procs k)" using ring_has_running [OF kinvD(3) [OF assms]] by auto
    then show ?thesis using Some i by (simp add: process_current_def process_of_task_def runners_def)
  qed
  then show "process_current k < 16" "state (procs k ! process_current k) = PROC_RUN"
    "process_current k \<noteq> 0 \<Longrightarrow> running (sched k) = Proc_Task (process_current k)" by blast+
qed

text \<open>Steps that change a process without touching its place in the tables.\<close>

lemma kinv_proc:
  assumes "kinv k" "\<And>p. fds (f p) = fds p" "\<And>p. pid (f p) = pid p" "\<And>p. ppid (f p) = ppid p"
    "\<And>p. state (f p) = state p"
  shows "kinv (upd_proc i f k)"
proof (cases "i < 16")
  case True
  note D = kinvD [OF assms(1)]
  have "fds_ok ((procs k)[i := f (procs k ! i)]) (files k)"
    by (rule fds_ok_proc [OF D(1)]) (use fds_okD(5) [OF D(1) True] assms(2,5) in auto)
  moreover have "pids_ok ((procs k)[i := f (procs k ! i)]) (next_pid k)"
    by (rule pids_ok_proc [OF D(2)]) (simp_all add: assms(3-5))
  ultimately show ?thesis
    using D(3,4) True by (intro kinvI) (simp_all add: runners_update assms(5))
next
  case False
  then show ?thesis using assms(1) kinvD(4) [OF assms(1)] by (simp add: upd_proc_def list_update_beyond)
qed

lemma kinv_task: "kinv k \<Longrightarrow> (\<And>x. task_next (f x) = task_next x) \<Longrightarrow> kinv (upd_task t f k)"
  by (simp add: kinv_def ring_has_task)

lemma kinv_fields [simp]:
  "kinv (k\<lparr>mm := m\<rparr>) = kinv k" "kinv (k\<lparr>heap := h\<rparr>) = kinv k" "kinv (k\<lparr>esp0 := e\<rparr>) = kinv k"
  "kinv (k\<lparr>console := c\<rparr>) = kinv k" "kinv (k\<lparr>cpu := u\<rparr>) = kinv k"
  by (simp_all add: kinv_def)

subsection \<open>Yield\<close>

lemma yield_shape:
  assumes adv: "advance (sched k) = Some s"
  shows "\<exists>k' f. yield k = Some k' \<and> sched k' = set_task (running (sched k)) f s \<and> (\<forall>x. task_next (f x) = task_next x) \<and>
    procs k' = procs k \<and> files k' = files k \<and> next_pid k' = next_pid k \<and>
    esp0 k' = (if running (sched k) = running s then esp0 k
      else case process_of_task (running s) k of None \<Rightarrow> esp0 k | Some np \<Rightarrow> kernel_stack (procs k ! np))"
proof (cases "running (sched k) = running s")
  case True
  have "set_task t (\<lambda>x. x) s = s" for t by (simp add: set_task_def)
  then show ?thesis using adv True by (intro exI [of _ "k\<lparr>sched := s\<rparr>"] exI [of _ "\<lambda>x. x"]) (simp add: yield_def)
next
  case False
  have pt: "process_of_task (running s) (k\<lparr>sched := s\<rparr>) = process_of_task (running s) k"
    by (simp add: process_of_task_def)
  define k1 where "k1 = (case process_of_task (running s) k of
     None \<Rightarrow> k\<lparr>sched := s\<rparr> | Some np \<Rightarrow> k\<lparr>sched := s, esp0 := kernel_stack (procs k ! np)\<rparr>)"
  have k1: "sched k1 = s" "procs k1 = procs k" "files k1 = files k" "next_pid k1 = next_pid k"
    "esp0 k1 = (case process_of_task (running s) k of None \<Rightarrow> esp0 k | Some np \<Rightarrow> kernel_stack (procs k ! np))"
    by (simp_all add: k1_def split: option.splits)
  let ?c = "(cpu k1)\<lparr>c_cr3 := cr3 (mm k1)\<rparr>"
  let ?f = "\<lambda>x. x\<lparr>task_regs := save_context ?c (task_regs x)\<rparr>"
  obtain c' where sw: "switch_task (running (sched k)) (running s) (s, ?c) = (set_task (running (sched k)) ?f s, c')"
    by (simp add: switch_task_def Let_def)
  have "yield k = Some (k1\<lparr>sched := set_task (running (sched k)) ?f s, cpu := c', mm := (mm k1)\<lparr>cr3 := c_cr3 c'\<rparr>\<rparr>)"
    using adv False sw unfolding k1_def
    by (cases "process_of_task (running s) k") (simp_all add: yield_def pt Let_def)
  then show ?thesis
    using False k1
    by (intro exI [of _ "k1\<lparr>sched := set_task (running (sched k)) ?f s, cpu := c', mm := (mm k1)\<lparr>cr3 := c_cr3 c'\<rparr>\<rparr>"]
        exI [of _ ?f]) simp
qed

lemma yield_from:
  assumes adv: "advance (sched k) = Some s" and inv: "kinv (k\<lparr>sched := s\<rparr>)"
  shows "\<exists>k'. yield k = Some k' \<and> kinv k'"
  using yield_shape [OF adv] inv by (auto simp: kinv_def intro!: ring_has_task)

lemma kinv_yield:
  assumes "kinv k"
  shows "\<exists>k'. yield k = Some k' \<and> kinv k'"
proof -
  obtain s where s: "advance (sched k) = Some s" "ring_has s (runners (procs k))"
    using ring_has_advance [OF kinvD(3) [OF assms]] by blast
  then show ?thesis using yield_from [OF s(1)] assms by (auto simp: kinv_def)
qed

subsection \<open>Opening and closing files\<close>

lemma kinv_open:
  assumes inv: "kinv k" and p: "p < 16" "state (procs k ! p) = PROC_RUN"
    and fd: "fd < 16" "fds (procs k ! p) ! fd = None" and al: "open_file_alloc node k = (Some j, k')"
  shows "kinv (upd_proc p (\<lambda>x. x\<lparr>fds := (fds x)[fd := Some j]\<rparr>) k')"
proof -
  note D = kinvD [OF inv]
  have j: "j < 32" "refcount (files k ! j) = 0"
    and k': "k' = upd_file j (\<lambda>_. \<lparr>of_node = Some node, of_offset = 0, refcount = 1\<rparr>) k"
    using al by (auto simp: open_file_alloc_def find_Some_iff split: option.splits)
  have "fds_ok ((procs k)[p := (procs k ! p)\<lparr>fds := (fds (procs k ! p))[fd := Some j]\<rparr>])
      ((files k)[j := \<lparr>of_node = Some node, of_offset = 0, refcount = 1\<rparr>])"
    using j by (intro fds_ok_acquire [OF D(1) p(1) fd(1) j(1) p(2) fd(2)]) simp_all
  moreover have "pids_ok ((procs k)[p := (procs k ! p)\<lparr>fds := (fds (procs k ! p))[fd := Some j]\<rparr>]) (next_pid k)"
    by (rule pids_ok_proc [OF D(2)]) simp_all
  ultimately show ?thesis
    using D(3,4) p(1) by (intro kinvI) (simp_all add: k' runners_update)
qed

text \<open>Closing a descriptor, in either order of clearing and releasing.\<close>

lemma release_files:
  "j < length (files k) \<Longrightarrow> open_file_release (Some j) k = k\<lparr>files := (files k)[j := drop_ref (files k ! j)]\<rparr>"
  by (simp add: open_file_release_def upd_file_def drop_ref_def Let_def)

lemma fds_ok_current:
  assumes "fds_ok ps fl" "i < 16" "fd < 16" "fds (ps ! i) ! fd = Some j"
  shows "j < length fl" "0 < refcount (fl ! j)" "of_node (fl ! j) \<noteq> None"
proof -
  note D = fds_okD [OF assms(1)]
  have j: "j < 32" by (rule D(4) [OF assms(2-4)])
  then show "j < length fl" using D(2) by simp
  have "Some j \<in> set (fds (ps ! i))" using assms(3,4) D(3) [OF assms(2)] by (metis nth_mem)
  then have "count_list (fds (ps ! i)) (Some j) \<noteq> 0" by (simp add: count_list_0_iff)
  moreover have "count_list (fds (ps ! i)) (Some j) \<le> holders j ps"
    unfolding holders_def using assms(2) D(1) by (intro member_le_sum_list) auto
  ultimately show "0 < refcount (fl ! j)" using D(6) [OF j] by simp
  then show "of_node (fl ! j) \<noteq> None" using D(7) [OF j] by simp
qed

lemma close_fd_ok:
  assumes ok: "fds_ok (procs k) (files k)" and p: "p < 16" "fd < 16"
  shows "\<exists>fl. close_fd p fd k = k\<lparr>files := fl, procs := (procs k)[p := (procs k ! p)\<lparr>fds := (fds (procs k ! p))[fd := None]\<rparr>]\<rparr> \<and>
    fds_ok ((procs k)[p := (procs k ! p)\<lparr>fds := (fds (procs k ! p))[fd := None]\<rparr>]) fl"
proof (cases "fds (procs k ! p) ! fd")
  case None
  have "(fds (procs k ! p))[fd := None] = fds (procs k ! p)" using None by (metis list_update_id)
  then show ?thesis
    using ok None by (intro exI [of _ "files k"]) (simp add: close_fd_def open_file_release_def upd_proc_def)
next
  case (Some j)
  note c = fds_ok_current [OF ok p Some]
  show ?thesis
    using fds_ok_release [OF ok p Some] Some c(1)
    by (intro exI [of _ "(files k)[j := drop_ref (files k ! j)]"]) (simp add: close_fd_def release_files upd_proc_def)
qed

lemma kinv_close:
  assumes inv: "kinv k" and p: "p < 16" and fd: "fd < 16" "fds (procs k ! p) ! fd = Some j"
  shows "kinv (open_file_release (Some j) (upd_proc p (\<lambda>x. x\<lparr>fds := (fds x)[fd := None]\<rparr>) k))"
proof -
  note D = kinvD [OF inv]
  note c = fds_ok_current [OF D(1) p fd]
  have "pids_ok ((procs k)[p := (procs k ! p)\<lparr>fds := (fds (procs k ! p))[fd := None]\<rparr>]) (next_pid k)"
    by (rule pids_ok_proc [OF D(2)]) simp_all
  then show ?thesis
    using fds_ok_release [OF D(1) p fd] D(3,4) p c(1)
    by (intro kinvI) (simp_all add: release_files runners_update)
qed

text \<open>Closing all descriptors of a process.\<close>

lemma close_all:
  assumes "fds_ok (procs k) (files k)" "p < 16" "n \<le> 16"
  shows "\<exists>fl q. fold (close_fd p) [0 ..< n] k = k\<lparr>files := fl, procs := (procs k)[p := q]\<rparr> \<and>
    fds_ok ((procs k)[p := q]) fl \<and> q = (procs k ! p)\<lparr>fds := fds q\<rparr> \<and> (\<forall>fd < n. fds q ! fd = None)"
  using assms
proof (induction n)
  case 0
  then show ?case by (intro exI [of _ "files k"] exI [of _ "procs k ! p"]) simp
next
  case (Suc n)
  note D = fds_okD [OF Suc.prems(1)]
  obtain fl q where q: "fold (close_fd p) [0 ..< n] k = k\<lparr>files := fl, procs := (procs k)[p := q]\<rparr>"
    "fds_ok ((procs k)[p := q]) fl" "q = (procs k ! p)\<lparr>fds := fds q\<rparr>" "\<forall>fd < n. fds q ! fd = None"
    using Suc by auto
  have nth: "(procs k)[p := q] ! p = q" using D(1) Suc.prems(2) by simp
  let ?k = "k\<lparr>files := fl, procs := (procs k)[p := q]\<rparr>"
  let ?q = "q\<lparr>fds := (fds q)[n := None]\<rparr>"
  obtain fl' where fl': "close_fd p n ?k = ?k\<lparr>files := fl', procs := (procs k)[p := ?q]\<rparr>"
    "fds_ok ((procs k)[p := ?q]) fl'"
    using close_fd_ok [of ?k p n] q(2) Suc.prems(2,3) nth by auto
  have "length (fds q) = 16" using fds_okD(3) [OF q(2) Suc.prems(2)] nth by simp
  then have "\<forall>fd < Suc n. fds ?q ! fd = None" using q(4) Suc.prems(3) by (auto simp: nth_list_update less_Suc_eq)
  moreover have "fold (close_fd p) [0 ..< Suc n] k = k\<lparr>files := fl', procs := (procs k)[p := ?q]\<rparr>"
    using q(1) fl'(1) by simp
  moreover have "?q = (procs k ! p)\<lparr>fds := fds ?q\<rparr>" by (subst q(3)) simp
  ultimately show ?case using fl'(2) by (intro exI [of _ fl'] exI [of _ ?q]) simp
qed

subsection \<open>Exit and wait\<close>

text \<open>A process that is not running has no descriptors; its entry can change state.\<close>

lemma kinv_exit_tables:
  assumes inv: "kinv k" and p: "0 < p" "p < 16" "state (procs k ! p) = PROC_RUN"
  shows "\<exists>fl q. fold (close_fd p) [0 ..< 16] k = k\<lparr>files := fl, procs := (procs k)[p := q]\<rparr> \<and>
    q = (procs k ! p)\<lparr>fds := fds q\<rparr> \<and> (\<forall>fd < 16. fds q ! fd = None) \<and>
    (let ps = (map (reparent (pid q)) ((procs k)[p := q]))[p := (reparent (pid q) q)\<lparr>exit_code := code, state := PROC_ZOMBIE, page_dir := dir\<rparr>]
     in fds_ok ps fl \<and> pids_ok ps (next_pid k) \<and> runners ps = runners (procs k) - {p})"
proof -
  note D = kinvD [OF inv]
  obtain fl q where q: "fold (close_fd p) [0 ..< 16] k = k\<lparr>files := fl, procs := (procs k)[p := q]\<rparr>"
    "fds_ok ((procs k)[p := q]) fl" "q = (procs k ! p)\<lparr>fds := fds q\<rparr>" "\<forall>fd < 16. fds q ! fd = None"
    using close_all [OF D(1) p(2), of 16] by auto
  have f: "pid q = pid (procs k ! p)" "ppid q = ppid (procs k ! p)" "state q = state (procs k ! p)"
    "page_dir q = page_dir (procs k ! p)"
    by (subst q(3), simp)+
  let ?k = "(procs k)[p := q]"
  let ?ps = "map (reparent (pid q)) ?k"
  let ?z = "(reparent (pid q) q)\<lparr>exit_code := code, state := PROC_ZOMBIE, page_dir := dir\<rparr>"
  have len: "length ?k = 16" using D(4) by simp
  have nth: "?k ! p = q" "?ps ! p = reparent (pid q) q" using len p(2) D(4) by simp_all
  have pids: "pids_ok ?k (next_pid k)" by (rule pids_ok_proc [OF D(2)]) (simp_all add: f)
  have "fds_ok ?ps fl" by (rule fds_ok_map [OF q(2)]) simp_all
  then have "fds_ok (?ps[p := ?z]) fl" by (rule fds_ok_proc) (use nth q(4) in simp_all)
  moreover have "pids_ok (?ps[p := ?z]) (next_pid k)"
    by (rule pids_ok_exit [OF pids p(1,2)]) (use p(3) f nth in simp_all)
  moreover have "state (?ps ! i) = state (procs k ! i)" if "i < 16" for i
    using that len D(4) by (cases "i = p") (simp_all add: f)
  then have "runners ?ps = runners (procs k)" by (auto simp: runners_def)
  then have "runners (?ps[p := ?z]) = runners (procs k) - {p}"
    using runners_remove [of ?ps ?z p] len by simp
  ultimately show ?thesis using q(1,3,4) f by (intro exI [of _ fl] exI [of _ q]) (simp add: Let_def)
qed

text \<open>What a process that can exit leaves behind.\<close>

definition exited :: "nat \<Rightarrow> u32 \<Rightarrow> u32 \<Rightarrow> process \<Rightarrow> process list \<Rightarrow> process list" where
  "exited p code dir q ps = (map (reparent (pid q)) (ps[p := q]))[p :=
     (reparent (pid q) q)\<lparr>exit_code := code, state := PROC_ZOMBIE, page_dir := dir\<rparr>]"

lemma exit_effect:
  assumes inv: "kinv k" and ex: "process_exit code k = Some (r, k')" and np: "pid (procs k ! process_current k) \<noteq> 0"
  shows "r = Yielded \<and> (\<exists>q. q = (procs k ! process_current k)\<lparr>fds := fds q\<rparr> \<and> (\<forall>fd < 16. fds q ! fd = None) \<and>
    procs k' = exited (process_current k) code (kernel_dir k) q (procs k)) \<and>
    process_current k < 16 \<and> ring_has (sched k') (runners (procs k) - {process_current k}) \<and> kinv k'"
proof -
  note D = kinvD [OF inv]
  let ?p = "process_current k"
  have p: "0 < ?p" "?p < 16" "state (procs k ! ?p) = PROC_RUN" "running (sched k) = Proc_Task ?p"
    using current_runs [OF inv] np pids_okD(4) [OF D(2)] by (cases "?p = 0"; simp)+
  obtain fl q where q: "fold (close_fd ?p) [0 ..< 16] k = k\<lparr>files := fl, procs := (procs k)[?p := q]\<rparr>"
    "q = (procs k ! ?p)\<lparr>fds := fds q\<rparr>" "\<forall>fd < 16. fds q ! fd = None"
    and tables: "let ps = (map (reparent (pid q)) ((procs k)[?p := q]))[?p := (reparent (pid q) q)\<lparr>exit_code := code, state := PROC_ZOMBIE, page_dir := kernel_dir k\<rparr>]
     in fds_ok ps fl \<and> pids_ok ps (next_pid k) \<and> runners ps = runners (procs k) - {?p}"
    using kinv_exit_tables [OF inv p(1-3), of "kernel_dir k" code] by blast
  define ps where "ps = exited ?p code (kernel_dir k) q (procs k)"
  have ps: "fds_ok ps fl" "pids_ok ps (next_pid k)" "runners ps = runners (procs k) - {?p}"
    using tables by (simp_all add: ps_def exited_def Let_def)
  define set_cr3 :: "task \<Rightarrow> task" where "set_cr3 = (\<lambda>x. x\<lparr>task_regs := (task_regs x)\<lparr>t_cr3 := kernel_dir k\<rparr>\<rparr>)"
  define sc where "sc = set_task (running (sched k)) set_cr3 (set_task (Proc_Task ?p) set_cr3 (sched k))"
  have sc: "ring_has sc (runners (procs k))" "running sc = Proc_Task ?p"
    using D(3) p(4) by (simp_all add: sc_def set_cr3_def ring_has_task)
  obtain s' s'' where s: "task_remove (Proc_Task ?p) sc = Some s'" "running s' = Proc_Task ?p" "advance s' = Some s''"
    "ring_has s'' (runners (procs k) - {?p})" using ring_has_leave [OF sc] by blast
  have nth: "(procs k)[?p := q] ! ?p = q" "length (procs k) = 16" using D(4) p(2) by simp_all
  obtain kt where kt: "exit_teardown ?p code k = Some kt" "yield kt = Some k'" and r: "r = Yielded"
    using ex np by (auto simp: process_exit_def Let_def bind_eq_Some_conv)
  have "\<exists>m. kt = k\<lparr>files := fl, procs := ps, mm := m, sched := s'\<rparr>"
    using kt(1) s(1) nth p(2)
    by (auto simp: exit_teardown_def q(1) ps_def exited_def Let_def bind_eq_Some_conv sc_def set_cr3_def nth_list_update
        upd_proc_def upd_task_def comp_def)
  then obtain m where m: "kt = k\<lparr>files := fl, procs := ps, mm := m, sched := s'\<rparr>" by blast
  have adv: "advance (sched kt) = Some s''" using s(3) m by simp
  obtain f where "sched k' = set_task (running (sched kt)) f s''" "\<And>x. task_next (f x) = task_next x"
    and k': "procs k' = ps" "files k' = fl" "next_pid k' = next_pid k"
    using yield_shape [OF adv] kt(2) m by auto
  then have ring: "ring_has (sched k') (runners (procs k) - {?p})" using s(4) by (simp add: ring_has_task)
  then have "kinv k'" using ps k' by (intro kinvI) simp_all
  then show ?thesis using r q(2,3) k'(1) p(2) ring by (auto simp: ps_def)
qed

text \<open>A process in the kernel's own address space can always exit.\<close>

lemma exit_in_kernel_space:
  assumes inv: "kinv k" and dir: "page_dir (procs k ! process_current k) = kernel_dir k"
  shows "\<exists>r k'. process_exit code k = Some (r, k')"
proof (cases "pid (procs k ! process_current k) = 0")
  case True
  then show ?thesis by (simp add: process_exit_def Let_def)
next
  case False
  note D = kinvD [OF inv]
  let ?p = "process_current k"
  have p: "0 < ?p" "?p < 16" "state (procs k ! ?p) = PROC_RUN" "running (sched k) = Proc_Task ?p"
    using current_runs [OF inv] False pids_okD(4) [OF D(2)] by (cases "?p = 0"; simp)+
  obtain fl q where q: "fold (close_fd ?p) [0 ..< 16] k = k\<lparr>files := fl, procs := (procs k)[?p := q]\<rparr>"
    "q = (procs k ! ?p)\<lparr>fds := fds q\<rparr>"
    using kinv_exit_tables [OF inv p(1-3), of "kernel_dir k" code] by blast
  have qd: "page_dir q = kernel_dir k" by (subst q(2)) (simp add: dir)
  let ?f = "\<lambda>x. x\<lparr>task_regs := (task_regs x)\<lparr>t_cr3 := kernel_dir k\<rparr>\<rparr> :: task"
  define sc where "sc = set_task (running (sched k)) ?f (set_task (Proc_Task ?p) ?f (sched k))"
  have sc: "ring_has sc (runners (procs k))" "running sc = Proc_Task ?p"
    using D(3) p(4) by (simp_all add: sc_def ring_has_task)
  obtain s' s'' where s: "task_remove (Proc_Task ?p) sc = Some s'" "advance s' = Some s''"
    using ring_has_leave [OF sc] by blast
  have nth: "(procs k)[?p := q] ! ?p = q" "length (procs k) = 16" using D(4) p(2) by simp_all
  have "\<exists>kt. exit_teardown ?p code k = Some kt \<and> sched kt = s'"
    using s(1) nth p(2) qd
    by (auto simp: exit_teardown_def q(1) Let_def sc_def nth_list_update upd_proc_def upd_task_def reparent_def)
  then obtain kt where "exit_teardown ?p code k = Some kt" "sched kt = s'" by blast
  moreover have "\<exists>k'. yield kt = Some k'" using yield_shape [of kt s''] s(2) \<open>sched kt = s'\<close> by blast
  ultimately show ?thesis using False by (auto simp: process_exit_def Let_def)
qed

lemma kinv_exit:
  assumes inv: "kinv k" and ex: "process_exit code k = Some (r, k')"
  shows "kinv k'"
proof (cases "pid (procs k ! process_current k) = 0")
  case True
  then show ?thesis using assms by (auto simp: process_exit_def Let_def)
qed (use exit_effect [OF inv ex] in blast)

lemma kinv_wait:
  assumes inv: "kinv k" and w: "wait_scan status k = Some (r, k')"
  shows "kinv k'"
proof (cases r)
  case (Reaped n)
  note D = kinvD [OF inv]
  obtain i m where f: "find (\<lambda>i. state (procs k ! i) = PROC_ZOMBIE) (children (process_current k) k) = Some i"
    and k': "k' = upd_proc i (\<lambda>c. c\<lparr>state := PROC_FREE, kernel_stack := 0\<rparr>) (k\<lparr>mm := m\<rparr>)"
  proof (cases "find (\<lambda>i. state (procs k ! i) = PROC_ZOMBIE) (children (process_current k) k)")
    case (Some i)
    then show ?thesis using w Reaped that by (auto simp: wait_scan_def Let_def bind_eq_Some_conv)
  qed (use w Reaped in \<open>auto simp: wait_scan_def Let_def split: if_splits\<close>)
  have i: "i < 16" "state (procs k ! i) = PROC_ZOMBIE"
    using find_SomeD [OF f] by (simp_all add: children_def)
  have "fds_ok ((procs k)[i := (procs k ! i)\<lparr>state := PROC_FREE, kernel_stack := 0\<rparr>]) (files k)"
    by (rule fds_ok_proc [OF D(1)]) (use fds_okD(5) [OF D(1) i(1)] i(2) in simp_all)
  moreover have "pids_ok ((procs k)[i := (procs k ! i)\<lparr>state := PROC_FREE, kernel_stack := 0\<rparr>]) (next_pid k)"
    by (rule pids_ok_free [OF D(2)]) (simp_all add: i)
  ultimately show ?thesis using D(3,4) i by (intro kinvI) (simp_all add: k' runners_update)
qed (use w inv in \<open>auto simp: wait_scan_def Let_def bind_eq_Some_conv split: option.splits if_splits\<close>)

subsection \<open>Fork\<close>

text \<open>
  While \<open>fork\<close> works on the child, the tables differ from those before it in the child's slot
  only, the ring holds the tasks it held, and the identifier may have been taken.
\<close>

definition slot_taken :: "nat \<Rightarrow> kernel \<Rightarrow> process \<Rightarrow> kernel \<Rightarrow> bool" where
  "slot_taken i k q k' \<longleftrightarrow> procs k' = (procs k)[i := q] \<and> files k' = files k \<and> fds q = replicate 16 None \<and>
     ring_has (sched k') (runners (procs k)) \<and> running (sched k') = running (sched k) \<and>
     (next_pid k' = next_pid k \<or> next_pid k' = next_pid k + 1)"

lemma slot_takenD:
  assumes "slot_taken i k q k'"
  shows "procs k' = (procs k)[i := q]" "files k' = files k" "fds q = replicate 16 None"
    "ring_has (sched k') (runners (procs k))" "running (sched k') = running (sched k)"
    "next_pid k' = next_pid k \<or> next_pid k' = next_pid k + 1"
  using assms unfolding slot_taken_def by blast+

lemma pids_ok_mono: "pids_ok ps n \<Longrightarrow> n \<le> n' \<Longrightarrow> pids_ok ps n'"
  unfolding pids_ok_def by (auto intro: less_le_trans order_less_le_trans)

lemma fds_none: "fds_ok ps fl \<Longrightarrow> i < 16 \<Longrightarrow> state (ps ! i) \<noteq> PROC_RUN \<Longrightarrow> fds (ps ! i) = replicate 16 None"
  by (rule nth_equalityI) (simp_all add: fds_okD(3,5))

lemma slot_returned:
  assumes "kinv k" "0 < i" "i < 16" "state (procs k ! i) = PROC_FREE" "slot_taken i k q k'" "state q = PROC_FREE"
  shows "kinv k'"
proof -
  note D = kinvD [OF assms(1)] and T = slot_takenD [OF assms(5)]
  have "fds_ok ((procs k)[i := q]) (files k)" by (rule fds_ok_proc [OF D(1)]) (simp_all add: T(3) fds_none [OF D(1) assms(3)] assms(4))
  moreover have "pids_ok ((procs k)[i := q]) (next_pid k')"
    by (rule pids_ok_mono [OF pids_ok_free [OF D(2)]]) (use assms(4,6) T(6) in auto)
  moreover have "runners ((procs k)[i := q]) = runners (procs k)"
    by (rule runners_update) (use D(4) assms in simp_all)
  ultimately show ?thesis using T by (intro kinvI) simp_all
qed

lemma process_create_slot:
  assumes inv: "kinv k" and cr: "process_create k = (r, k')"
  shows "case r of None \<Rightarrow> kinv k'
    | Some i \<Rightarrow> 0 < i \<and> i < 16 \<and> state (procs k ! i) = PROC_FREE \<and> next_pid k' = next_pid k + 1 \<and>
        (\<exists>q. slot_taken i k q k' \<and> state q = PROC_RUN \<and> pid q = next_pid k)"
proof (cases "find (\<lambda>i. state (procs k ! i) = PROC_FREE) [1 ..< MAX_PROCS]")
  case None
  then show ?thesis using inv cr by (auto simp: process_create_def)
next
  case (Some i)
  note D = kinvD [OF inv]
  have i: "0 < i" "i < 16" "state (procs k ! i) = PROC_FREE" using find_SomeD [OF Some] by auto
  have notin: "i \<notin> runners (procs k)" using i(3) by (simp add: runners_def)
  obtain stack h where kh: "kmalloc_aligned 4096 (heap k) = (stack, h)" by (cases "kmalloc_aligned 4096 (heap k)")
  let ?sc = "set_task (Proc_Task i) (\<lambda>_. zero_task) (sched k)"
  have sc: "ring_has ?sc (runners (procs k))" by (rule ring_has_reset [OF D(3) notin])
  have nth: "(procs k)[i := z] ! i = z" for z using i(2) D(4) by simp
  show ?thesis
  proof (cases "stack = 0")
    case True
    let ?q = "zero_process\<lparr>kernel_stack := 0\<rparr>"
    have "slot_taken i k ?q k'" "r = None"
      using cr Some kh True sc nth
      by (auto simp: process_create_def slot_taken_def zero_process_def Let_def)
    then show ?thesis using slot_returned [OF inv i] by (simp add: zero_process_def)
  next
    case False
    let ?q = "zero_process\<lparr>kernel_stack := stack + 4096, pid := next_pid k, state := PROC_RUN\<rparr>"
    have "slot_taken i k ?q k'" "r = Some i" "next_pid k' = next_pid k + 1"
      using cr Some kh False sc nth
      by (auto simp: process_create_def slot_taken_def zero_process_def Let_def)
    then show ?thesis using i by (intro option.case_eq_if [THEN iffD2]) (auto intro!: exI [of _ ?q])
  qed
qed

lemma create_failed:
  assumes "kinv k" "process_create k = (None, k')"
  shows "files k' = files k \<and> running (sched k') = running (sched k) \<and>
    (\<forall>i < 16. if state (procs k ! i) \<noteq> PROC_FREE then procs k' ! i = procs k ! i else state (procs k' ! i) = PROC_FREE)"
proof (cases "find (\<lambda>i. state (procs k ! i) = PROC_FREE) [1 ..< MAX_PROCS]")
  case None
  then show ?thesis using assms(2) by (simp add: process_create_def)
next
  case (Some i)
  then have "i < 16" "state (procs k ! i) = PROC_FREE" using find_SomeD [OF Some] by auto
  then show ?thesis
    using assms(2) Some kinvD(4) [OF assms(1)]
    by (auto simp: process_create_def Let_def nth_list_update zero_process_def split: prod.splits if_splits)
qed

text \<open>Steps on the child's slot.\<close>

lemma slot_proc:
  assumes "slot_taken i k q k'" "i < length (procs k)" "\<And>p. fds (f p) = fds p"
  shows "slot_taken i k (f q) (upd_proc i f k')"
  using assms by (simp add: slot_taken_def)

lemma slot_task: "slot_taken i k q k' \<Longrightarrow> i \<notin> runners (procs k) \<Longrightarrow> slot_taken i k q (upd_task (Proc_Task i) f k')"
  by (simp add: slot_taken_def ring_has_reset)

lemma slot_fields [simp]:
  "slot_taken i k q (k'\<lparr>mm := m\<rparr>) = slot_taken i k q k'"
  by (simp add: slot_taken_def)

text \<open>Sharing the descriptors: a fold over the parent's.\<close>

lemma share_all:
  assumes inv: "kinv k" and c: "0 < c" "c < 16" "state (procs k ! c) = PROC_FREE"
    and par: "par < 16" "par \<noteq> c"
    and st: "slot_taken c k q k'" "state q = PROC_RUN" and n: "n \<le> 16"
  shows "\<exists>fl q'. fold (fork_share_fd par c) [0 ..< n] k' = k'\<lparr>procs := (procs k)[c := q'], files := fl\<rparr> \<and>
    fds_ok ((procs k)[c := q']) fl \<and> q' = q\<lparr>fds := fds q'\<rparr> \<and>
    (\<forall>i < 16. fds q' ! i = (if i < n then fds (procs k ! par) ! i else None))"
  using n
proof (induction n)
  case 0
  note D = kinvD [OF inv] and T = slot_takenD [OF st(1)]
  have "fds_ok ((procs k)[c := q]) (files k)"
    by (rule fds_ok_proc [OF D(1)]) (simp_all add: T(3) fds_none [OF D(1) c(2)] c(3))
  then show ?case using T by (intro exI [of _ "files k"] exI [of _ q]) simp
next
  case (Suc n)
  note D = kinvD [OF inv]
  obtain fl q' where q': "fold (fork_share_fd par c) [0 ..< n] k' = k'\<lparr>procs := (procs k)[c := q'], files := fl\<rparr>"
    "fds_ok ((procs k)[c := q']) fl" "q' = q\<lparr>fds := fds q'\<rparr>"
    "\<forall>i < 16. fds q' ! i = (if i < n then fds (procs k ! par) ! i else None)" using Suc by auto
  have nth: "(procs k)[c := z] ! c = z" "(procs k)[c := z] ! par = procs k ! par" for z using c par D(4) by simp_all
  have len: "length (fds q') = 16" using fds_okD(3) [OF q'(2) c(2)] nth by simp
  have run: "state q' = PROC_RUN" by (subst q'(3)) (simp add: st(2))
  let ?f = "fds (procs k ! par) ! n"
  let ?q = "q'\<lparr>fds := (fds q')[n := ?f]\<rparr>"
  have q: "?q = q\<lparr>fds := fds ?q\<rparr>" by (subst q'(3)) simp
  have val: "\<forall>i < 16. fds ?q ! i = (if i < Suc n then fds (procs k ! par) ! i else None)"
    using q'(4) len by (auto simp: nth_list_update less_Suc_eq)
  have n: "n < 16" "fds q' ! n = None" using Suc.prems q'(4) by simp_all
  show ?case
  proof (cases ?f)
    case None
    have "(fds q')[n := None] = fds q'" using n(2) by (metis list_update_id)
    then have qq: "?q = q'" using None by simp
    have "fold (fork_share_fd par c) [0 ..< Suc n] k' = k'\<lparr>procs := (procs k)[c := ?q], files := fl\<rparr>"
      using q'(1) None nth by (simp add: fork_share_fd_def upd_proc_def)
    then show ?thesis using q val q'(2) qq by (intro exI [of _ fl] exI [of _ ?q]) simp
  next
    case (Some j)
    have cur: "j < length fl" "0 < refcount (fl ! j)" "of_node (fl ! j) \<noteq> None"
      using fds_ok_current [OF q'(2) par(1) n(1)] Some nth by auto
    let ?fl = "fl[j := (fl ! j)\<lparr>refcount := refcount (fl ! j) + 1\<rparr>]"
    have "fds_ok ((procs k)[c := ?q]) ?fl"
      using fds_ok_acquire [OF q'(2) c(2) n(1), of j "(fl ! j)\<lparr>refcount := refcount (fl ! j) + 1\<rparr>"]
        cur fds_okD(2) [OF q'(2)] run n(2) nth Some by simp
    moreover have "fold (fork_share_fd par c) [0 ..< Suc n] k' = k'\<lparr>procs := (procs k)[c := ?q], files := ?fl\<rparr>"
      using q'(1) Some nth by (simp add: fork_share_fd_def upd_proc_def upd_file_def)
    ultimately show ?thesis using q val by (intro exI [of _ ?fl] exI [of _ ?q]) simp
  qed
qed

lemma fork_resume_tables:
  assumes "fork_resume c regs k = Some k'" "ring_has (sched k) D" "c \<notin> D"
  shows "procs k' = procs k" "files k' = files k" "next_pid k' = next_pid k" "ring_has (sched k') D"
  using assms by (auto simp: fork_resume_def Let_def bind_eq_Some_conv intro!: ring_has_reset)

lemma fork_undo_tables:
  assumes "fork_undo c cl k = Some k'"
  shows "\<exists>m. k' = upd_proc c (\<lambda>p. p\<lparr>state := PROC_FREE\<rparr>) (k\<lparr>mm := m\<rparr>)"
  using assms by (auto simp: fork_undo_def Let_def bind_eq_Some_conv)

text \<open>What \<open>fork\<close> leaves behind, when it fails and when it succeeds.\<close>

definition fork_failed :: "u32 \<Rightarrow> kernel \<Rightarrow> kernel \<Rightarrow> bool" where
  "fork_failed v k k' \<longleftrightarrow> (v = - EAGAIN \<or> v = - ENOMEM) \<and> files k' = files k \<and> running (sched k') = running (sched k) \<and>
     (\<forall>i < 16. if state (procs k ! i) \<noteq> PROC_FREE then procs k' ! i = procs k ! i else state (procs k' ! i) = PROC_FREE)"

definition fork_done :: "nat \<Rightarrow> u32 \<Rightarrow> kernel \<Rightarrow> kernel \<Rightarrow> bool" where
  "fork_done c v k k' \<longleftrightarrow> (let par = procs k ! process_current k; child = procs k' ! c; r = task_regs (tasks (sched k') (Proc_Task c)) in
     0 < c \<and> c < 16 \<and> state (procs k ! c) = PROC_FREE \<and> v = word_of_int (next_pid k) \<and> next_pid k' = next_pid k + 1 \<and>
     state child = PROC_RUN \<and> pid child = next_pid k \<and> ppid child = pid par \<and> brk child = brk par \<and>
     brk_mapped child = brk_mapped par \<and> (\<forall>i < 16. fds child ! i = fds par ! i) \<and>
     (\<forall>i < 16. i \<noteq> c \<longrightarrow> procs k' ! i = procs k ! i) \<and>
     (\<forall>j < 32. refcount (files k' ! j) = refcount (files k ! j) + int (count_list (fds par) (Some j))) \<and>
     next_of (sched k') (running (sched k)) = Some (Proc_Task c) \<and> running (sched k') = running (sched k) \<and>
     t_eip r = fork_trampoline (image k') \<and> t_cr3 r = page_dir child \<and> t_esp r = kernel_stack child - 64)"

lemma fork_effect:
  assumes inv: "kinv k" and fork: "process_fork regs k = Some (v, k')"
  shows "kinv k' \<and> (fork_failed v k k' \<or> (\<exists>c. fork_done c v k k'))"
proof (cases "process_create k")
  case (Pair r k1)
  note D = kinvD [OF inv] and create = process_create_slot [OF inv Pair]
  show ?thesis
  proof (cases r)
    case None
    then have "k1 = k'" "v = - 11" using fork Pair by (simp_all add: process_fork_def)
    then show ?thesis using create create_failed [OF inv] Pair None by (simp add: fork_failed_def)
  next
    case (Some c)
    let ?par = "process_current k"
    obtain q1 where c: "0 < c" "c < 16" "state (procs k ! c) = PROC_FREE" and next1: "next_pid k1 = next_pid k + 1"
      and q1: "slot_taken c k q1 k1" "state q1 = PROC_RUN" "pid q1 = next_pid k" using create Some by auto
    have par: "?par < 16" "state (procs k ! ?par) = PROC_RUN" "?par \<noteq> c"
      using current_runs [OF inv] c(3) by auto
    have notin: "c \<notin> runners (procs k)" using c(3) by (simp add: runners_def)
    have len: "c < length (procs k)" using c(2) D(4) by simp
    define pp where "pp = procs k ! ?par"
    have pp: "procs k1 ! ?par = pp" using slot_takenD(1) [OF q1(1)] par(3) by (simp add: pp_def)
    define k2 where "k2 = upd_proc c (\<lambda>p. p\<lparr>ppid := pid pp, brk := brk pp, brk_mapped := brk_mapped pp\<rparr>) k1"
    define q2 where "q2 = q1\<lparr>ppid := pid pp, brk := brk pp, brk_mapped := brk_mapped pp\<rparr>"
    have k2: "slot_taken c k q2 k2" unfolding k2_def q2_def by (rule slot_proc [OF q1(1) len]) simp
    obtain dir m where nd: "paging_new_directory (mm k2) = Some (dir, m)"
      using fork Pair Some pp by (auto simp: process_fork_def k2_def Let_def bind_eq_Some_conv)
    define k3 where "k3 = upd_proc c (\<lambda>p. p\<lparr>page_dir := dir\<rparr>) (k2\<lparr>mm := m\<rparr>)"
    define q3 where "q3 = q2\<lparr>page_dir := dir\<rparr>"
    have k3: "slot_taken c k q3 k3" unfolding k3_def q3_def by (rule slot_proc [OF _ len]) (simp_all add: k2)
    have q3: "state q3 = PROC_RUN" "pid q3 = next_pid k" "ppid q3 = pid pp" by (simp_all add: q3_def q2_def q1)
    have slot: "slot_taken c k (q3\<lparr>state := PROC_FREE\<rparr>) (upd_proc c (\<lambda>p. p\<lparr>state := PROC_FREE\<rparr>) (k3\<lparr>mm := m'\<rparr>))" for m'
      by (rule slot_proc [OF _ len]) (simp_all add: k3)
    have free: "kinv (upd_proc c (\<lambda>p. p\<lparr>state := PROC_FREE\<rparr>) (k3\<lparr>mm := m'\<rparr>)) \<and>
        fork_failed (- 12) k (upd_proc c (\<lambda>p. p\<lparr>state := PROC_FREE\<rparr>) (k3\<lparr>mm := m'\<rparr>))" for m'
      using slot_returned [OF inv c slot] slot_takenD [OF slot [of m']] c D(4)
      by (simp add: fork_failed_def nth_list_update)
    have run: "(if dir = 0 then Some (- 12, upd_proc c (\<lambda>p. p\<lparr>state := PROC_FREE\<rparr>) k3)
       else do {
         (ok, cl, m) \<leftarrow> fork_copy (mm k3);
         let k = k3\<lparr>mm := m\<rparr>;
         if \<not> ok then map_option (Pair (- 12)) (fork_undo c cl k)
         else do {
           m \<leftarrow> fork_install dir cl (mm k);
           let k = k\<lparr>mm := m\<rparr>;
           let k = fold (fork_share_fd ?par c) [0 ..< 16] k;
           k \<leftarrow> fork_resume c regs k;
           let k = k\<lparr>sched := task_add (Proc_Task c) (sched k)\<rparr>;
           Some (word_of_int (pid (procs k ! c)), k)
         }
       }) = Some (v, k')"
      using fork unfolding process_fork_def Let_def Pair Some prod.case option.case pp k2_def [symmetric] nd
        Option.bind.bind_lunit k3_def [symmetric] .
    show ?thesis
    proof (cases "dir = 0")
      case True
      then show ?thesis using run free [of "mm k3"] by simp
    next
      case False
      then obtain ok cl m1 where cp: "fork_copy (mm k3) = Some (ok, cl, m1)"
        using run by (auto simp: bind_eq_Some_conv)
      show ?thesis
      proof (cases ok)
        case False
        then have "map_option (Pair (- 12)) (fork_undo c cl (k3\<lparr>mm := m1\<rparr>)) = Some (v, k')"
          using run \<open>dir \<noteq> 0\<close> cp by simp
        then have "\<exists>m. k' = upd_proc c (\<lambda>p. p\<lparr>state := PROC_FREE\<rparr>) (k3\<lparr>mm := m\<rparr>)"
          and "v = - 12" using fork_undo_tables [of c cl "k3\<lparr>mm := m1\<rparr>" k'] by auto
        then show ?thesis using free by auto
      next
        case True
        then obtain m2 where m2: "fork_install dir cl m1 = Some m2"
          using run \<open>dir \<noteq> 0\<close> cp by (auto simp: bind_eq_Some_conv Let_def)
        obtain fl q' where sh: "fold (fork_share_fd ?par c) [0 ..< 16] (k3\<lparr>mm := m2\<rparr>) =
            k3\<lparr>mm := m2\<rparr>\<lparr>procs := (procs k)[c := q'], files := fl\<rparr>"
          "fds_ok ((procs k)[c := q']) fl" "q' = q3\<lparr>fds := fds q'\<rparr>"
          "\<forall>i < 16. fds q' ! i = fds (procs k ! ?par) ! i"
          using share_all [OF inv c par(1,3), of q3 "k3\<lparr>mm := m2\<rparr>" 16] k3 q3(1) by auto
        define k4 where "k4 = k3\<lparr>mm := m2\<rparr>\<lparr>procs := (procs k)[c := q'], files := fl\<rparr>"
        have q': "state q' = PROC_RUN" "pid q' = next_pid k" "ppid q' = pid pp"
          by (subst sh(3), simp add: q3)+
        obtain k5 where k5: "fork_resume c regs k4 = Some k5"
          "k' = k5\<lparr>sched := task_add (Proc_Task c) (sched k5)\<rparr>"
          using run \<open>dir \<noteq> 0\<close> cp True m2 sh(1) by (auto simp: bind_eq_Some_conv Let_def k4_def)
        have v: "v = word_of_int (pid (procs k5 ! c))"
          using run \<open>dir \<noteq> 0\<close> cp True m2 sh(1) k5(1) by (auto simp: bind_eq_Some_conv Let_def k4_def)
        have ring: "ring_has (sched k4) (runners (procs k))" using slot_takenD(4) [OF k3] by (simp add: k4_def)
        note R = fork_resume_tables [OF k5(1) ring notin]
        have "pids_ok ((procs k)[c := q']) (next_pid k + 1)"
          by (rule pids_ok_new [OF D(2) c q'(2)]) (use par q'(3) in \<open>auto simp: pp_def\<close>)
        moreover have n3: "next_pid k3 = next_pid k + 1" by (simp add: k3_def k2_def next1)
        moreover have "runners ((procs k)[c := q']) = insert c (runners (procs k))"
          by (rule runners_insert) (use D(4) c q'(1) in simp_all)
        ultimately have kinv': "kinv k'"
          using sh(2) R ring_has_add [OF R(4) notin] by (intro kinvI) (simp_all add: k5(2) k4_def)
        have nth: "procs k4 ! c = q'" "i \<noteq> c \<Longrightarrow> procs k4 ! i = procs k ! i" for i using len by (simp_all add: k4_def)
        have shape: "t_eip r = fork_trampoline (image k')" "t_cr3 r = page_dir q'" "t_esp r = kernel_stack q' - 64"
          if "r = task_regs (tasks (sched k5) (Proc_Task c))" for r
          using k5 nth(1) by (auto simp: that fork_resume_def Let_def bind_eq_Some_conv upd_task_def)
        have run5: "running (sched k5) = running (sched k)"
          using k5(1) slot_takenD(5) [OF k3] by (auto simp: fork_resume_def Let_def bind_eq_Some_conv k4_def)
        have rc: "running (sched k) \<noteq> Proc_Task c" using ring_has_running [OF D(3)] notin by auto
        have "count_list (fds q') (Some j) = count_list (fds pp) (Some j)" for j
        proof -
          have "fds q' = fds pp"
            using sh(4) fds_okD(3) [OF sh(2) c(2)] fds_okD(3) [OF D(1) par(1)] len
            by (intro nth_equalityI) (simp_all add: pp_def)
          then show ?thesis by simp
        qed
        moreover have "count_list (fds (procs k ! c)) (Some j) = 0" for j
          using fds_none [OF D(1) c(2)] c(3) by (simp add: count_list_0_iff)
        ultimately have "holders j ((procs k)[c := q']) = holders j (procs k) + count_list (fds pp) (Some j)" for j
          using holders_update [OF len, of j q'] by simp
        then have refs: "\<forall>j < 32. refcount (fl ! j) = refcount (files k ! j) + int (count_list (fds pp) (Some j))"
          using fds_okD(6) [OF sh(2)] fds_okD(6) [OF D(1)] by simp
        have q'brk: "brk q' = brk pp" "brk_mapped q' = brk_mapped pp"
          by (subst sh(3), simp add: q3_def q2_def)+
        have "fork_done c v k k'"
          using c q' q'brk sh(4) refs R n3 nth v run5 rc shape [OF refl] next1
          by (auto simp: fork_done_def Let_def k5(2) pp_def k4_def task_add_def)
        then show ?thesis using kinv' by blast
      qed
    qed
  qed
qed

lemma kinv_fork: "kinv k \<Longrightarrow> process_fork regs k = Some (v, k') \<Longrightarrow> kinv k'"
  using fork_effect by blast

subsection \<open>Execve and the system calls\<close>

lemma kinv_execve:
  assumes inv: "kinv k" and ex: "process_execve path k = Some (r, k')"
  shows "kinv k'"
  using assms
  by (auto simp: process_execve_def Let_def bind_eq_Some_conv split: option.splits if_splits prod.splits
      intro!: kinv_proc kinv_task)

lemma kinv_sbrk: "kinv k \<Longrightarrow> sys_sbrk inc k = Some (r, k') \<Longrightarrow> kinv k'"
  by (auto simp: sys_sbrk_def ret_def Let_def bind_eq_Some_conv split: if_splits intro!: kinv_proc)

lemma open_file_alloc_none: "open_file_alloc node k = (None, k1) \<Longrightarrow> k1 = k"
  by (auto simp: open_file_alloc_def split: option.splits)

lemma kinv_sys_open:
  assumes inv: "kinv k" and op: "sys_open path k = Some (r, k')"
  shows "kinv k'"
proof -
  note run = current_runs(1,2) [OF inv]
  let ?p = "process_current k"
  obtain ok where ok: "user_string_ok path 256 (mm k) = Some ok"
    using op by (auto simp: sys_open_def bind_eq_Some_conv)
  show ?thesis
  proof (cases ok)
    case True
    then obtain name where name: "read_cstr (vread8 (mm k)) path 256 = Some name"
      using op ok by (auto simp: sys_open_def bind_eq_Some_conv)
    show ?thesis
    proof (cases "vfs_finddir (fs k) (fs_root (fs k)) name")
      case (Some node)
      show ?thesis
      proof (cases "find (\<lambda>i. fds (procs k ! ?p) ! i = None) [3 ..< 16]")
        case fd: (Some fd)
        obtain r1 k1 where al: "open_file_alloc node k = (r1, k1)" by (cases "open_file_alloc node k")
        have "fd < 16" "fds (procs k ! ?p) ! fd = None" using find_SomeD [OF fd] by auto
        with kinv_open [OF inv run] al op ok True name Some fd open_file_alloc_none [of node k k1] inv
        show ?thesis by (cases r1) (auto simp: sys_open_def ret_def)
      qed (use op ok True name Some inv in \<open>auto simp: sys_open_def ret_def\<close>)
    qed (use op ok True name inv in \<open>auto simp: sys_open_def ret_def\<close>)
  qed (use op ok inv in \<open>auto simp: sys_open_def ret_def\<close>)
qed

lemma get_fd_bound:
  assumes "get_fd fd k = Some j"
  shows "unat fd < 16" "fds (procs k ! process_current k) ! unat fd = Some j"
proof -
  have "0 \<le> sint fd" "sint fd < 16" using assms by (auto simp: get_fd_def split: if_splits)
  then show "unat fd < 16" using uint_nonneg [of fd] by (simp add: unat_eq_nat_uint)
  show "fds (procs k ! process_current k) ! unat fd = Some j"
    using assms by (simp add: get_fd_def split: if_splits)
qed

lemma kinv_offset:
  assumes "kinv k" "\<And>f. refcount (g f) = refcount f" "\<And>f. of_node (g f) = of_node f"
  shows "kinv (upd_file j g k)"
proof -
  note D = fds_okD [OF kinvD(1) [OF assms(1)]]
  have "refcount ((files k)[j := g (files k ! j)] ! i) = refcount (files k ! i)"
    "of_node ((files k)[j := g (files k ! j)] ! i) = of_node (files k ! i)" if "i < 32" for i
    using that D(2) assms(2,3) by (cases "i = j"; simp)+
  then have "fds_ok (procs k) ((files k)[j := g (files k ! j)])"
    using D unfolding fds_ok_def by simp
  then show ?thesis using kinvD(2,3) [OF assms(1)] by (intro kinvI) simp_all
qed

lemma kinv_yield_some: "kinv k \<Longrightarrow> yield k = Some k' \<Longrightarrow> kinv k'"
  using kinv_yield [of k] by auto

lemma kinv_process_wait:
  assumes inv: "kinv k" and w: "process_wait st k = Some (r, k')"
  shows "kinv k'"
proof -
  obtain a k1 where a: "wait_scan st k = Some (a, k1)" using w by (auto simp: process_wait_def bind_eq_Some_conv)
  with kinv_wait [OF inv a] w kinv_yield_some show ?thesis by (cases a) (auto simp: process_wait_def ret_def)
qed

lemma kinv_sys:
  assumes inv: "kinv k"
  shows "sys_write fd buf len k = Some (r, k') \<Longrightarrow> kinv k'" "sys_read fd buf len k = Some (r, k') \<Longrightarrow> kinv k'"
    "sys_close fd k = Some (r, k') \<Longrightarrow> kinv k'" "sys_getpid k = Some (r, k') \<Longrightarrow> kinv k'"
    "sys_execve path k = Some (r, k') \<Longrightarrow> kinv k'" "sys_wait st k = Some (r, k') \<Longrightarrow> kinv k'"
    "sys_exit code k = Some (r, k') \<Longrightarrow> kinv k'"
proof -
  show "sys_write fd buf len k = Some (r, k') \<Longrightarrow> kinv k'"
    using inv by (auto simp: sys_write_def ret_def put_console_def bind_eq_Some_conv split: if_splits)
  show "sys_read fd buf len k = Some (r, k') \<Longrightarrow> kinv k'"
    using inv by (auto simp: sys_read_def ret_def bind_eq_Some_conv split: if_splits option.splits intro!: kinv_offset)
  show "sys_close fd k = Some (r, k') \<Longrightarrow> kinv k'"
    using inv kinv_close [OF inv current_runs(1) [OF inv] get_fd_bound]
    by (auto simp: sys_close_def ret_def split: option.splits)
  show "sys_getpid k = Some (r, k') \<Longrightarrow> kinv k'" using inv by (simp add: sys_getpid_def ret_def)
  show "sys_execve path k = Some (r, k') \<Longrightarrow> kinv k'"
    using inv kinv_execve [OF inv] by (auto simp: sys_execve_def ret_def bind_eq_Some_conv split: if_splits)
  show "sys_wait st k = Some (r, k') \<Longrightarrow> kinv k'"
    using inv kinv_process_wait [OF inv] by (auto simp: sys_wait_def ret_def bind_eq_Some_conv split: if_splits)
  show "sys_exit code k = Some (r, k') \<Longrightarrow> kinv k'"
    using kinv_exit [OF inv] by (auto simp: sys_exit_def)
qed

lemma kinv_syscall:
  assumes inv: "kinv k" and call: "syscall_handler regs k = Some (r, k')"
  shows "kinv k'"
  using call inv
  by (auto simp: syscall_handler_def ret_def Let_def split: if_splits
      dest: kinv_fork kinv_sys [OF inv] kinv_sbrk kinv_sys_open)

end
