(* ===== verification/Steps.thy ===== *)
theory Steps
  imports Kernel_Inv
begin

text \<open>
  The kernel as a transition system: whoever runs makes a system call, is interrupted by the
  timer (\<open>timer_callback\<close> of \<open>timer.c\<close> yields), or computes in user mode.  The properties of the process layer
  are here: the invariant in every reachable state, the scheduler's fairness, and what
  \<open>fork\<close>, \<open>exit\<close>, \<open>wait\<close> and the file descriptors do.
\<close>

subsection \<open>Steps\<close>

inductive kstep :: "kernel \<Rightarrow> kernel \<Rightarrow> bool" where
  Syscall: "syscall_handler regs k = Some (r, k') \<Longrightarrow> kstep k k'"
| Timer: "yield k = Some k' \<Longrightarrow> kstep k k'"
| User_Store: "user_accessible (mm k) a \<Longrightarrow> vwrite8 (mm k) a b = Some m \<Longrightarrow> kstep k (k\<lparr>mm := m\<rparr>)"
| User_Compute: "c_cr3 c = c_cr3 (cpu k) \<Longrightarrow> kstep k (k\<lparr>cpu := c\<rparr>)"

inductive_cases kstepE: "kstep k k'"

lemma kinv_step: "kstep k k' \<Longrightarrow> kinv k \<Longrightarrow> kinv k'"
  by (erule kstepE) (auto intro: kinv_syscall kinv_yield_some)

text \<open>Process 0 after \<open>tasking_initialize\<close> and \<open>process_initialize\<close>.\<close>

lemma initial_tasks:
  "fold (\<lambda>i. upd_task (Proc_Task i) (\<lambda>_. zero_task)) is k =
     k\<lparr>sched := fold (\<lambda>i. set_task (Proc_Task i) (\<lambda>_. zero_task)) is (sched k)\<rparr>"
  by (induction "is" arbitrary: k) (simp_all add: upd_task_def)

lemma initial_ring:
  "ring s [Main_Task] \<Longrightarrow> ring (fold (\<lambda>i. set_task (Proc_Task i) (\<lambda>_. zero_task)) is s) [Main_Task]"
  by (induction "is" arbitrary: s) (simp_all add: next_of_def)

lemma zero_holders: "holders j (replicate n zero_process) = 0"
  by (induction n) (simp_all add: holders_def zero_process_def count_list_0_iff)

lemma initial_kinv:
  assumes "sched k = tasking_initialize dir s" "next_pid k = 1"
  shows "kinv (process_initialize stack_top k)"
proof -
  let ?k = "process_initialize stack_top k"
  let ?p = "zero_process\<lparr>pid := 0, ppid := 0, state := PROC_RUN, page_dir := paging_current_directory (mm k),
    kernel_stack := stack_top, brk := 0, brk_mapped := 0, fds := replicate 16 None\<rparr>"
  have t: "procs ?k = (replicate 16 zero_process)[0 := ?p]" "files ?k = replicate 32 zero_file" "next_pid ?k = 1"
    "sched ?k = fold (\<lambda>i. set_task (Proc_Task i) (\<lambda>_. zero_task)) [0 ..< 16] (tasking_initialize dir s)"
    using assms by (simp_all add: process_initialize_def initial_tasks Let_def del: upt_Suc upt_rec_numeral)
  have z: "fds zero_process = replicate 16 None" "state zero_process = PROC_FREE"
    "refcount zero_file = 0" "of_node zero_file = None" by (simp_all add: zero_process_def zero_file_def)
  have "fds_ok (replicate 16 zero_process) (replicate 32 zero_file)"
    by (simp add: fds_ok_def z zero_holders)
  then have "fds_ok ((replicate 16 zero_process)[0 := ?p]) (replicate 32 zero_file)"
    by (rule fds_ok_proc) (simp_all add: z)
  moreover have "pids_ok ((replicate 16 zero_process)[0 := ?p]) 1"
    by (rule pids_okI) (auto simp: nth_list_update z split: if_splits)
  moreover have "runners ((replicate 16 zero_process)[0 := ?p]) = {}"
    by (auto simp: runners_def nth_list_update z)
  moreover have "ring (tasking_initialize dir s) [Main_Task]"
    by (simp add: tasking_initialize_def Let_def set_next_def next_of_def)
  then have "ring (sched ?k) [Main_Task]" unfolding t(4) by (rule initial_ring)
  then have "ring_has (sched ?k) {}" by (rule ring_hasI) simp
  ultimately show ?thesis by (intro kinvI) (simp_all only: t)
qed

text \<open>
  C4. In every state the kernel reaches from its boot state by system calls, timer interrupts and
  user computation: every open file's reference count is the number of descriptors that refer to
  it, in all processes together; only running processes have descriptors; live processes have
  distinct identifiers below \<open>next_pid\<close>, and a running parent; and the scheduler's ring is
  well formed and holds \<open>main_task\<close> and exactly the running processes other than process 0.
\<close>

theorem process_layer_invariant:
  assumes "sched k = tasking_initialize dir s" and "next_pid k = 1"
    and "kstep\<^sup>*\<^sup>* (process_initialize stack_top k) k'"
  shows "kinv k'"
  using assms(3) initial_kinv [OF assms(1,2)] by (induction rule: rtranclp_induct) (auto intro: kinv_step)

text \<open>The boot state of the witnesses: 44 free frames, an empty file system.\<close>

definition image_boot :: kimage where
  "image_boot = \<lparr>fork_trampoline = 0x101000, exec_buf = 0x110000, halt_stack_top = 0x130000\<rparr>"

definition cpu_boot :: cpu where
  "cpu_boot = \<lparr>c_ebx = 0, c_esi = 0, c_edi = 0, c_ebp = 0, c_esp = 0x7000, c_eip = 0x100000, c_eflags = 2,
     c_cr3 = 0x100000\<rparr>"

definition kernel_raw :: kernel where
  "kernel_raw = \<lparr>mm = mm_boot, heap = \<lparr>heap_start = 0xC0000000, heap_end = 0xC0100000, heap_next = 0xC0001000\<rparr>,
     sched = sched_boot, cpu = cpu_boot, procs = [], files = [], next_pid = 1, kernel_dir = 0, esp0 = 0xC0001000,
     fs = fs_empty, console = [], image = image_boot\<rparr>"

definition kernel_boot :: kernel where
  "kernel_boot = process_initialize 0xC0001000 kernel_raw"

lemma kernel_raw_facts: "sched kernel_raw = tasking_initialize 0x80000
     \<lparr>tasks = (\<lambda>_. \<lparr>task_regs = zero_regs, task_next = None\<rparr>), running = Main_Task\<rparr>" "next_pid kernel_raw = 1"
  by (simp_all add: kernel_raw_def sched_boot_def)

lemma kernel_boot_kinv: "kinv kernel_boot"
  unfolding kernel_boot_def by (rule initial_kinv [OF kernel_raw_facts])

theorem process_layer_invariant_witness:
  "\<exists>k'. yield kernel_boot = Some k' \<and> kinv k'"
proof -
  obtain k' where k': "yield kernel_boot = Some k'" using kinv_yield [OF kernel_boot_kinv] by blast
  then have "kstep\<^sup>*\<^sup>* (process_initialize 0xC0001000 kernel_raw) k'"
    unfolding kernel_boot_def by (intro r_into_rtranclp Timer)
  from process_layer_invariant [OF kernel_raw_facts this] k' show ?thesis by blast
qed

subsection \<open>Scheduling processes\<close>

lemma yield_ring:
  assumes "ring (sched k) (x # xs)"
  shows "\<exists>k'. yield k = Some k' \<and> ring (sched k') (xs @ [x]) \<and> procs k' = procs k"
proof -
  obtain s where s: "advance (sched k) = Some s" "ring s (xs @ [x])" using ring_advance [OF assms] by blast
  obtain k' f where k': "yield k = Some k'" "sched k' = set_task (running (sched k)) f s"
    "\<And>x. task_next (f x) = task_next x" "procs k' = procs k" using yield_shape [OF s(1)] by blast
  have "ring (sched k') (xs @ [x])" unfolding k'(2) by (rule ring_cong [OF s(2)]) (simp_all add: next_of_def k'(3))
  with k' show ?thesis by blast
qed

fun yield_times :: "nat \<Rightarrow> kernel \<Rightarrow> kernel option" where
  "yield_times 0 k = Some k"
| "yield_times (Suc n) k = Option.bind (yield k) (yield_times n)"

interpretation kr: round_robin "\<lambda>k. ring (sched k)" "\<lambda>k. running (sched k)" yield
  "\<lambda>t k. k\<lparr>sched := task_add t (sched k)\<rparr>" "\<lambda>t k. map_option (\<lambda>s. k\<lparr>sched := s\<rparr>) (task_remove t (sched k))"
proof
  fix k :: kernel and x t and xs :: "task_ref list"
  show "xs \<noteq> [] \<and> distinct xs \<and> running (sched k) = hd xs" if "ring (sched k) xs"
    using that by (rule rr.cycle_current)
  show "\<exists>k'. yield k = Some k' \<and> ring (sched k') (xs @ [x])" if "ring (sched k) (x # xs)"
    using yield_ring [OF that] by blast
  show "ring (sched (k\<lparr>sched := task_add t (sched k)\<rparr>)) (x # t # xs)" if "ring (sched k) (x # xs)" "t \<notin> set (x # xs)"
    using ring_add [OF that] by simp
  show "\<exists>k'. map_option (\<lambda>s. k\<lparr>sched := s\<rparr>) (task_remove t (sched k)) = Some k' \<and> ring (sched k') (x # remove1 t xs)"
    if "ring (sched k) (x # xs)" "t \<noteq> x"
    using ring_remove [OF that] by auto
qed

lemma yield_times_kr: "kr.rotate_times n k = yield_times n k"
proof (induction n arbitrary: k)
  case (Suc n)
  then show ?case by (cases "yield k") simp_all
qed simp

lemma ring_size:
  assumes "ring_has s (runners ps)"
  shows "\<exists>xs. ring s xs \<and> set xs = insert Main_Task (Proc_Task ` runners ps) \<and> length xs \<le> 16"
proof -
  obtain r xs where xs: "ring s (r # xs)" "set (r # xs) = insert Main_Task (Proc_Task ` runners ps)"
    using assms by (rule ring_hasE)
  have "runners ps \<subseteq> {1..<16}" by (auto simp: runners_def)
  then have "card (runners ps) \<le> 15" using card_mono [of "{1..<16::nat}" "runners ps"] by simp
  moreover have "finite (runners ps)" by (simp add: runners_def)
  ultimately have "card (insert Main_Task (Proc_Task ` runners ps)) \<le> 16"
    using card_image_le [of "runners ps" Proc_Task] card_insert_le_m1 [of 16 "Proc_Task ` runners ps" Main_Task]
    by (simp add: card_insert_if)
  then have "length (r # xs) \<le> 16" using xs by (metis distinct_card ring.simps(2))
  then show ?thesis using xs by blast
qed

text \<open>
  No runnable process starves: in every state that satisfies the invariant, so in every
  reachable one, each running process other than 0, and the boot task, is scheduled after fewer
  than 16 calls of \<open>yield\<close>, none of which fails.
\<close>

theorem no_starvation:
  assumes "kinv k" and "t = Main_Task \<or> (\<exists>i. t = Proc_Task i \<and> 0 < i \<and> i < 16 \<and> state (procs k ! i) = PROC_RUN)"
  shows "\<exists>n < 16. \<exists>k'. yield_times n k = Some k' \<and> running (sched k') = t \<and> kinv k'"
proof -
  obtain xs where xs: "ring (sched k) xs" "set xs = insert Main_Task (Proc_Task ` runners (procs k))" "length xs \<le> 16"
    using ring_size [OF kinvD(3) [OF assms(1)]] by blast
  have "t \<in> set xs" using assms(2) xs(2) by (auto simp: runners_def)
  then obtain n k' where n: "n < length xs" "yield_times n k = Some k'" "running (sched k') = t"
    using kr.fair [OF xs(1)] unfolding yield_times_kr by blast
  have "yield_times n k = Some k' \<Longrightarrow> kinv k \<Longrightarrow> kinv k'" for n k
    by (induction n arbitrary: k) (auto simp: bind_eq_Some_conv intro: kinv_yield_some)
  with n assms(1) xs(3) show ?thesis by (intro exI [of _ n]) auto
qed

theorem no_starvation_witness:
  "\<exists>n < 16. \<exists>k'. yield_times n kernel_boot = Some k' \<and> running (sched k') = Main_Task"
  using no_starvation [OF kernel_boot_kinv, of Main_Task] by blast

subsection \<open>Kernel stacks\<close>

text \<open>A second process for the witnesses, and the state in which it runs.\<close>

definition kernel_two :: kernel where
  "kernel_two = kernel_boot\<lparr>
     procs := (procs kernel_boot)[1 := zero_process\<lparr>pid := 1, state := PROC_RUN, kernel_stack := 0xC0003000,
       page_dir := kernel_dir kernel_boot\<rparr>],
     next_pid := 2, sched := task_add (Proc_Task 1) (sched kernel_boot)\<rparr>"

lemma fold_set_running [simp]: "running (fold (\<lambda>i. set_task (g i) f) is s) = running s"
  by (induction "is" arbitrary: s) simp_all

lemma kernel_boot_fields:
  "next_pid kernel_boot = 1" "runners (procs kernel_boot) = {}" "state (procs kernel_boot ! 1) = PROC_FREE"
  "esp0 kernel_boot = 0xC0001000" "running (sched kernel_boot) = Main_Task" "pid (procs kernel_boot ! 0) = 0"
  "fds (procs kernel_boot ! 1) = replicate 16 None"
  "procs kernel_boot ! 0 = zero_process\<lparr>state := PROC_RUN, page_dir := kernel_dir kernel_boot, kernel_stack := 0xC0001000\<rparr>"
  by (auto simp: kernel_boot_def kernel_raw_def process_initialize_def initial_tasks Let_def runners_def nth_list_update
      zero_process_def sched_boot_def tasking_initialize_def simp del: upt_Suc upt_rec_numeral)

lemma kernel_boot_zombies: "i < 16 \<Longrightarrow> state (procs kernel_boot ! i) \<noteq> PROC_ZOMBIE"
  by (auto simp: kernel_boot_def kernel_raw_def process_initialize_def initial_tasks Let_def nth_list_update
      zero_process_def simp del: upt_Suc upt_rec_numeral)

lemma kernel_two_kinv: "kinv kernel_two" "ring (sched kernel_two) [Main_Task, Proc_Task 1]"
proof -
  note D = kinvD [OF kernel_boot_kinv]
  let ?q = "zero_process\<lparr>pid := 1, state := PROC_RUN, kernel_stack := 0xC0003000, page_dir := kernel_dir kernel_boot\<rparr>"
  have "fds_ok ((procs kernel_boot)[1 := ?q]) (files kernel_boot)"
    by (rule fds_ok_proc [OF D(1)]) (use kernel_boot_fields(7) in \<open>simp_all add: zero_process_def\<close>)
  moreover have "pids_ok ((procs kernel_boot)[1 := ?q]) (1 + 1)"
  proof (rule pids_ok_new)
    show "pids_ok (procs kernel_boot) 1" using D(2) by (simp add: kernel_boot_fields)
    show "\<exists>j < 16. state (procs kernel_boot ! j) = PROC_RUN \<and> pid (procs kernel_boot ! j) = ppid ?q"
      by (rule exI [of _ 0]) (simp add: kernel_boot_fields(8) zero_process_def)
  qed (use kernel_boot_fields(3) in \<open>simp_all add: zero_process_def\<close>)
  moreover have "runners ((procs kernel_boot)[1 := ?q]) = {1}"
    using runners_insert [of "procs kernel_boot" 1 ?q] D(4) kernel_boot_fields(2) by simp
  moreover have "ring_has (task_add (Proc_Task 1) (sched kernel_boot)) {1}"
    using ring_has_add [OF D(3), of 1] kernel_boot_fields(2) by simp
  ultimately show "kinv kernel_two" by (intro kinvI) (simp_all add: kernel_two_def)
  obtain xs where "ring (sched kernel_boot) xs" "set xs = {Main_Task}"
    using D(3) kernel_boot_fields(2) by (auto simp: ring_has_def)
  then have "ring (sched kernel_boot) [Main_Task]"
    by (cases xs) (auto simp: kernel_boot_fields(5) subset_singleton_iff)
  then show "ring (sched kernel_two) [Main_Task, Proc_Task 1]"
    using ring_add [of "sched kernel_boot" Main_Task "[]" "Proc_Task 1"] by (simp add: kernel_two_def)
qed

lemma process_of_task_runs:
  assumes "kinv k" "state (procs k ! i) \<noteq> PROC_FREE" "i < 16"
  shows "process_of_task (Proc_Task i) k = Some i"
  unfolding process_of_task_def find_Some_iff
  using assms(2,3) by (intro exI [of _ i]) (auto simp del: upt_Suc upt_rec_numeral)

text \<open>
  C27. The stack on which the processor takes the next interrupt from user mode, after a switch to
  another task: it is the kernel stack of the process that was entered, when that is a child; but
  a switch to the boot task, which runs process 0, leaves the kernel stack of the process that
  ran before, since \<open>process_of_task\<close> does not find a process for \<open>main_task\<close>.
\<close>

theorem yield_kernel_stack:
  assumes "kinv k" and "yield k = Some k'" and "running (sched k') \<noteq> running (sched k)"
  shows "(\<forall>i. running (sched k') = Proc_Task i \<longrightarrow> esp0 k' = kernel_stack (procs k ! i)) \<and>
    (running (sched k') = Main_Task \<longrightarrow> process_current k' = 0 \<and> esp0 k' = esp0 k)"
proof -
  obtain s where s: "advance (sched k) = Some s" "ring_has s (runners (procs k))"
    using ring_has_advance [OF kinvD(3) [OF assms(1)]] by blast
  have r: "running (sched k') = running s" "procs k' = procs k" and
    e: "esp0 k' = (if running (sched k) = running s then esp0 k
      else case process_of_task (running s) k of None \<Rightarrow> esp0 k | Some np \<Rightarrow> kernel_stack (procs k ! np))"
    using yield_shape [OF s(1)] assms(2) by auto
  have main: "process_of_task Main_Task j = None" for j
    by (auto simp: process_of_task_def find_None_iff)
  have "esp0 k' = kernel_stack (procs k ! i)" if i: "running s = Proc_Task i" for i
  proof -
    have "i < 16" "state (procs k ! i) \<noteq> PROC_FREE" using ring_has_running [OF s(2)] i by (auto simp: runners_def)
    then show ?thesis using e r assms(3) i process_of_task_runs [OF assms(1)] by simp
  qed
  moreover have "process_current k' = 0 \<and> esp0 k' = esp0 k" if "running s = Main_Task"
    using that e r main by (simp add: process_current_def)
  ultimately show ?thesis using r by simp
qed

text \<open>Process 0 runs again after process 1, and interrupts arrive on the stack of process 1.\<close>

theorem yield_kernel_stack_witness:
  "\<exists>k1 k2. yield kernel_two = Some k1 \<and> esp0 k1 = 0xC0003000 \<and> yield k1 = Some k2 \<and>
     process_current k2 = 0 \<and> esp0 k2 = 0xC0003000 \<and> kernel_stack (procs k2 ! 0) = 0xC0001000"
proof -
  have run0: "running (sched kernel_two) = Main_Task" using kernel_two_kinv(2) by simp
  obtain k1 where k1: "yield kernel_two = Some k1" "ring (sched k1) [Proc_Task 1, Main_Task]" "procs k1 = procs kernel_two"
    using yield_ring [OF kernel_two_kinv(2)] by auto
  obtain k2 where k2: "yield k1 = Some k2" "ring (sched k2) [Main_Task, Proc_Task 1]" "procs k2 = procs k1"
    using yield_ring [OF k1(2)] by auto
  have "kinv k1" using kinv_yield_some [OF kernel_two_kinv(1) k1(1)] .
  have r: "running (sched k1) = Proc_Task 1" "running (sched k2) = Main_Task" using k1(2) k2(2) by simp_all
  have p: "kernel_stack (procs kernel_two ! 1) = 0xC0003000" "kernel_stack (procs kernel_two ! 0) = 0xC0001000"
    using kinvD(4) [OF kernel_boot_kinv] kernel_boot_fields(8) by (simp_all add: kernel_two_def)
  have "esp0 k1 = 0xC0003000"
    using yield_kernel_stack [OF kernel_two_kinv(1) k1(1)] r run0 p by simp
  moreover have "process_current k2 = 0 \<and> esp0 k2 = esp0 k1"
    using yield_kernel_stack [OF \<open>kinv k1\<close> k2(1)] r by simp
  ultimately show ?thesis using k1 k2 p by auto
qed

subsection \<open>Exit and wait\<close>

lemma exited_nth:
  assumes "length ps = 16" "p < 16" "i < 16"
  shows "exited p code dir q ps ! i = (if i = p then (reparent (pid q) q)\<lparr>exit_code := code, state := PROC_ZOMBIE, page_dir := dir\<rparr>
    else reparent (pid q) (ps ! i))"
  using assms by (simp add: exited_def nth_list_update)

lemma exited_holders:
  assumes "length ps = 16" "p < 16" "\<forall>fd < 16. fds q ! fd = None" "length (fds q) = 16"
  shows "holders j (exited p code dir q ps) + count_list (fds (ps ! p)) (Some j) = holders j ps"
proof -
  have "fds q = replicate 16 None" by (rule nth_equalityI) (use assms(3,4) in simp_all)
  then have "count_list (fds q) (Some j) = 0" by (simp add: count_list_0_iff)
  moreover have "holders j (exited p code dir q ps) = holders j (ps[p := q])"
    by (rule holders_same, rule nth_equalityI) (use assms(1,2) in \<open>auto simp: exited_def nth_list_update\<close>)
  ultimately show ?thesis using holders_update [of p ps j q] assms(1,2) by simp
qed

text \<open>
  C7. \<open>exit\<close>.  Process 0 does not die: it halts on a stack of its own.  Any other process becomes a
  zombie with its exit code, no descriptors and the kernel's address space; every reference it
  held on an open file is gone; its children, and nobody else, get process 0 as parent; somebody
  else runs and the dead process is not in the ring.
\<close>

theorem exit_correct:
  assumes "kinv k" and "process_exit code k = Some (r, k')" and "p = process_current k"
  shows "if pid (procs k ! p) = 0
    then r = Halted \<and> k' = k\<lparr>esp0 := halt_stack_top (image k)\<rparr>
    else r = Yielded \<and> state (procs k' ! p) = PROC_ZOMBIE \<and> exit_code (procs k' ! p) = code \<and>
      pid (procs k' ! p) = pid (procs k ! p) \<and> page_dir (procs k' ! p) = kernel_dir k \<and>
      (\<forall>fd < 16. fds (procs k' ! p) ! fd = None) \<and>
      (\<forall>j < 32. refcount (files k' ! j) = refcount (files k ! j) - int (count_list (fds (procs k ! p)) (Some j))) \<and>
      (\<forall>i < 16. i \<noteq> p \<longrightarrow> procs k' ! i =
         (if state (procs k ! i) \<noteq> PROC_FREE \<and> ppid (procs k ! i) = pid (procs k ! p)
          then (procs k ! i)\<lparr>ppid := 0\<rparr> else procs k ! i)) \<and>
      running (sched k') \<noteq> Proc_Task p \<and> ring_has (sched k') (runners (procs k) - {p})"
proof (cases "pid (procs k ! p) = 0")
  case True
  then show ?thesis using assms by (auto simp: process_exit_def Let_def)
next
  case False
  note E = exit_effect [OF assms(1,2) False[unfolded assms(3)], folded assms(3)]
  note D = kinvD [OF assms(1)]
  obtain q where q: "q = (procs k ! p)\<lparr>fds := fds q\<rparr>" "\<forall>fd < 16. fds q ! fd = None"
    and ps: "procs k' = exited p code (kernel_dir k) q (procs k)" using E by blast
  have p: "p < 16" and inv: "kinv k'" and ring: "ring_has (sched k') (runners (procs k) - {p})" using E by simp_all
  have f: "pid q = pid (procs k ! p)" by (subst q(1)) simp
  note nth = exited_nth [OF D(4) p, of _ code "kernel_dir k" q, folded ps]
  have "length (fds q) = 16" using fds_okD(3) [OF kinvD(1) [OF inv] p] nth [OF p] by simp
  then have "holders j (procs k') + count_list (fds (procs k ! p)) (Some j) = holders j (procs k)" for j
    using exited_holders [OF D(4) p q(2)] ps by simp
  then have h: "int (holders j (procs k')) = int (holders j (procs k)) - int (count_list (fds (procs k ! p)) (Some j))" for j
    by (metis add_diff_cancel_right' of_nat_add)
  have refs: "\<forall>j < 32. refcount (files k' ! j) = refcount (files k ! j) - int (count_list (fds (procs k ! p)) (Some j))"
    using h fds_okD(6) [OF D(1)] fds_okD(6) [OF kinvD(1) [OF inv]] by simp
  have "running (sched k') \<noteq> Proc_Task p" using ring_has_running [OF ring] by auto
  then show ?thesis
    using False E refs nth p q(2) f ring by (simp add: reparent_def)
qed

lemma kernel_two_runs_child:
  "\<exists>k1. yield kernel_two = Some k1 \<and> kinv k1 \<and> process_current k1 = 1 \<and> procs k1 = procs kernel_two \<and>
     kernel_dir k1 = kernel_dir kernel_two"
proof -
  obtain k1 where k1: "yield kernel_two = Some k1" "ring (sched k1) [Proc_Task 1, Main_Task]" "procs k1 = procs kernel_two"
    using yield_ring [OF kernel_two_kinv(2)] by auto
  have inv: "kinv k1" using kinv_yield_some [OF kernel_two_kinv(1) k1(1)] .
  have "process_of_task (Proc_Task 1) k1 = Some 1"
    by (rule process_of_task_runs [OF inv]) (use k1(3) kinvD(4) [OF kernel_boot_kinv] in \<open>simp_all add: kernel_two_def\<close>)
  moreover have "kernel_dir k1 = kernel_dir kernel_two"
    using k1(1) by (auto simp: yield_def Let_def bind_eq_Some_conv split: if_splits prod.splits option.splits)
  ultimately show ?thesis using k1 inv by (simp add: process_current_def)
qed

theorem exit_correct_witness:
  "\<exists>k1 k'. yield kernel_two = Some k1 \<and> process_exit 7 k1 = Some (Yielded, k') \<and>
     state (procs k' ! 1) = PROC_ZOMBIE \<and> exit_code (procs k' ! 1) = 7"
proof -
  obtain k1 where k1: "yield kernel_two = Some k1" "kinv k1" "process_current k1 = 1" "procs k1 = procs kernel_two"
    "kernel_dir k1 = kernel_dir kernel_two" using kernel_two_runs_child by blast
  have p1: "procs k1 ! 1 = zero_process\<lparr>pid := 1, state := PROC_RUN, kernel_stack := 0xC0003000, page_dir := kernel_dir k1\<rparr>"
    using k1(4,5) kinvD(4) [OF kernel_boot_kinv] by (simp add: kernel_two_def)
  obtain r k' where ex: "process_exit 7 k1 = Some (r, k')" using exit_in_kernel_space [OF k1(2), of 7] k1(3) p1 by auto
  with exit_correct [OF k1(2) ex refl] k1 p1 show ?thesis by (simp split: if_splits)
qed

text \<open>
  C8. One scan of \<open>wait\<close>.  It reaps the first zombie child in table order: its identifier is
  returned, its status stored through the user's pointer, its slot freed, and nothing else in the
  table changes.  \<open>-ECHILD\<close> is returned exactly when there is no child at all, and the caller yields
  exactly when all children are still running.
\<close>

theorem wait_correct:
  assumes "kinv k" and "wait_scan status k = Some (r, k')" and "p = process_current k"
  shows "case r of
      Reaped n \<Rightarrow> \<exists>i < 16. i \<noteq> p \<and> state (procs k ! i) = PROC_ZOMBIE \<and> ppid (procs k ! i) = pid (procs k ! p) \<and>
        n = pid (procs k ! i) \<and> (\<forall>j < i. j \<noteq> p \<longrightarrow> ppid (procs k ! j) = pid (procs k ! p) \<longrightarrow> state (procs k ! j) \<noteq> PROC_ZOMBIE) \<and>
        procs k' = (procs k)[i := (procs k ! i)\<lparr>state := PROC_FREE, kernel_stack := 0\<rparr>] \<and> files k' = files k \<and>
        (if status = 0 then mm k' = mm k else vwrite32 (mm k) status (exit_code (procs k ! i)) = Some (mm k'))
    | No_Child \<Rightarrow> k' = k \<and> (\<forall>i < 16. i \<noteq> p \<longrightarrow> state (procs k ! i) \<noteq> PROC_FREE \<longrightarrow> ppid (procs k ! i) \<noteq> pid (procs k ! p))
    | Must_Yield \<Rightarrow> k' = k \<and> (\<exists>i < 16. i \<noteq> p \<and> state (procs k ! i) = PROC_RUN \<and> ppid (procs k ! i) = pid (procs k ! p)) \<and>
        (\<forall>i < 16. i \<noteq> p \<longrightarrow> ppid (procs k ! i) = pid (procs k ! p) \<longrightarrow> state (procs k ! i) \<noteq> PROC_ZOMBIE)"
proof -
  let ?Z = "\<lambda>i. state (procs k ! i) = PROC_ZOMBIE"
  have ch: "set (children p k) = {i. i < 16 \<and> state (procs k ! i) \<noteq> PROC_FREE \<and> ppid (procs k ! i) = pid (procs k ! p) \<and> i \<noteq> p}"
    by (auto simp: children_def)
  show ?thesis
  proof (cases "find ?Z (children p k)")
    case None
    then have nz: "\<forall>i \<in> set (children p k). \<not> ?Z i" by (simp add: find_None_iff)
    have r: "r = (if children p k = [] then No_Child else Must_Yield)" "k' = k"
      using assms(2,3) None by (auto simp: wait_scan_def)
    show ?thesis
    proof (cases "children p k = []")
      case True
      then show ?thesis using r ch by auto
    next
      case False
      then obtain i where "i \<in> set (children p k)" by (cases "children p k") auto
      moreover have "state (procs k ! i) \<noteq> PROC_FREE \<Longrightarrow> \<not> ?Z i \<Longrightarrow> state (procs k ! i) = PROC_RUN" for i
        by (cases "state (procs k ! i)") auto
      ultimately show ?thesis using r False nz ch by auto
    qed
  next
    case (Some i)
    have i: "i \<in> set (children p k)" "?Z i" using find_SomeD [OF Some] by simp_all
    have first: "\<not> ?Z j" if j: "j < i" "j \<in> set (children p k)" for j
    proof -
      obtain n where n: "n < length (children p k)" "children p k ! n = i" "\<forall>m < n. \<not> ?Z (children p k ! m)"
        using Some by (auto simp: find_Some_iff)
      obtain m where m: "m < length (children p k)" "children p k ! m = j" using j(2) by (auto simp: in_set_conv_nth)
      have sorted: "sorted_wrt (<) (children p k)" by (simp add: children_def sorted_wrt_filter)
      have "n < m \<Longrightarrow> i < j" using sorted_wrt_nth_less [OF sorted _ m(1), of n] n(2) m(2) by simp
      moreover have "n = m \<Longrightarrow> i = j" using n(2) m(2) by simp
      ultimately have "m < n" using j(1) by (cases n m rule: linorder_cases) auto
      then show ?thesis using n(3) m(2) by auto
    qed
    obtain m where m: "(if status \<noteq> 0 then vwrite32 (mm k) status (exit_code (procs k ! i)) else Some (mm k)) = Some m"
      and r: "r = Reaped (pid (procs k ! i))"
      and k': "k' = upd_proc i (\<lambda>c. c\<lparr>state := PROC_FREE, kernel_stack := 0\<rparr>) (k\<lparr>mm := m\<rparr>)"
      using assms(2,3) Some by (auto simp: wait_scan_def Let_def bind_eq_Some_conv)
    have "\<forall>j < i. j \<noteq> p \<longrightarrow> ppid (procs k ! j) = pid (procs k ! p) \<longrightarrow> \<not> ?Z j"
    proof (intro allI impI notI)
      fix j assume j: "j < i" "j \<noteq> p" "ppid (procs k ! j) = pid (procs k ! p)" "?Z j"
      then have "j \<in> set (children p k)" using i(1) unfolding ch by simp
      with first j show False by blast
    qed
    moreover have "i < 16 \<and> i \<noteq> p \<and> ppid (procs k ! i) = pid (procs k ! p)" using i(1) ch by simp
    moreover have "if status = 0 then mm k' = mm k else vwrite32 (mm k) status (exit_code (procs k ! i)) = Some (mm k')"
      using m k' by (cases "status = 0") simp_all
    moreover have "procs k' = (procs k)[i := (procs k ! i)\<lparr>state := PROC_FREE, kernel_stack := 0\<rparr>]" "files k' = files k"
      by (simp_all add: k')
    ultimately show ?thesis
      unfolding r wait_result.case using i(2) by (intro exI [of _ i] conjI) (rule refl | blast)+
  qed
qed

text \<open>Process 0 waits while process 1 runs, and process 1 has no children.\<close>

theorem wait_correct_witness:
  "wait_scan 0 kernel_two = Some (Must_Yield, kernel_two) \<and>
   (\<exists>i < 16. i \<noteq> 0 \<and> state (procs kernel_two ! i) = PROC_RUN)"
proof -
  have cur: "process_current kernel_two = 0"
    using current_runs(3) [OF kernel_two_kinv(1)] kernel_two_kinv(2) by auto
  have p: "procs kernel_two ! 0 = procs kernel_boot ! 0" "length (procs kernel_two) = 16"
    "\<And>i. i \<noteq> 1 \<Longrightarrow> procs kernel_two ! i = procs kernel_boot ! i"
    using kinvD(4) [OF kernel_boot_kinv] by (simp_all add: kernel_two_def)
  have p1: "state (procs kernel_two ! 1) = PROC_RUN" "ppid (procs kernel_two ! 1) = 0"
    using kinvD(4) [OF kernel_boot_kinv] by (simp_all add: kernel_two_def zero_process_def)
  have "runners (procs kernel_boot) = {}" by (rule kernel_boot_fields(2))
  have c1: "1 \<in> set (children 0 kernel_two)"
    using p1 p(1) kernel_boot_fields(6) by (simp add: children_def)
  have none: "find (\<lambda>i. state (procs kernel_two ! i) = PROC_ZOMBIE) (children 0 kernel_two) = None"
    using p1(1) p(3) kernel_boot_zombies by (auto simp: find_None_iff children_def) (metis One_nat_def proc_state.distinct(5))
  have w: "wait_scan 0 kernel_two = Some (Must_Yield, kernel_two)"
    using c1 none by (auto simp: wait_scan_def cur)
  show ?thesis using w wait_correct [OF kernel_two_kinv(1) w refl] cur by auto
qed

subsection \<open>Fork\<close>


definition kernel_full :: kernel where
  "kernel_full = kernel_boot\<lparr>heap := \<lparr>heap_start = 0xC0000000, heap_end = 0xC0100000, heap_next = 0xC0100000\<rparr>\<rparr>"


end
