(* ===== verification/User_Memory.thy ===== *)
theory User_Memory
  imports Steps
begin

text \<open>
  What the system calls do to user memory: the validation of user pointers, \<open>sbrk\<close>, and reading and
  writing files through user buffers.
\<close>

subsection \<open>Pointer validation\<close>

lemma all_user_run: "recursive s \<Longrightarrow> all_user as s = Some (\<forall>a \<in> set as. user_accessible s a)"
  by (induction as) (simp_all add: is_user_accessible)

lemma page_range_cover:
  assumes "unat a + n \<le> 0xC0000000" "0 < n" "n < 2 ^ 32"
  shows "\<exists>as. page_addrs (page_down a) (a + of_nat n) = Some as \<and>
    (\<forall>x \<in> set as. \<exists>i < n. page_down x = page_down (a + of_nat i)) \<and>
    (\<forall>i < n. page_down (a + of_nat i) \<in> set as)"
proof -
  have ui: "unat (a + of_nat i) = unat a + i" if "i \<le> n" for i
    using that assms by (simp add: unat_word_ariths unat_of_nat)
  have hi: "unat (a + of_nat n) \<le> 0xFFFFF000" using ui [of n] assms(1) by simp
  obtain as where as: "page_addrs (page_down a) (a + of_nat n) = Some as" using page_addrs_nat [OF hi] by blast
  note R = range_pages [OF as page_down_idem hi]
  have "\<exists>i < n. page_down x = page_down (a + of_nat i)" if x: "x \<in> set as" for x
  proof -
    have px: "page_down x = x" "page_down a \<le> x" "x < a + of_nat n" using R(3) [OF x] by simp_all
    show ?thesis
    proof (cases "unat a \<le> unat x")
      case True
      have "unat x < unat a + n" using px(3) ui [of n] by (simp add: word_less_nat_alt)
      then have "x = a + of_nat (unat x - unat a)" "unat x - unat a < n"
        using True ui [of "unat x - unat a"] by (simp_all add: word_unat_eq_iff)
      then show ?thesis by metis
    next
      case False
      obtain q where q: "unat x = q * 4096" using px(1) unat_page_down [of x] by metis
      have "unat a div 4096 * 4096 \<le> q * 4096" using px(2) q by (simp add: word_le_nat_alt unat_page_down)
      moreover have "q * 4096 < unat a" using False q by simp
      ultimately have "unat a div 4096 = q" by (intro antisym) (simp_all add: less_eq_div_iff_mult_less_eq)
      then have "page_down a = x" using q by (simp add: word_unat_eq_iff unat_page_down)
      then show ?thesis using assms(2) px(1) by (intro exI [of _ 0]) simp
    qed
  qed
  moreover have "page_down (a + of_nat i) \<in> set as" if "i < n" for i
  proof (rule R(2))
    have "page_down a \<le> a" by (rule page_down_le)
    moreover have "a \<le> a + of_nat i" using ui [of i] that by (simp add: word_le_nat_alt)
    ultimately show "page_down a \<le> a + of_nat i" by simp
    show "a + of_nat i < a + of_nat n" using ui [of i] ui [of n] that by (simp add: word_less_nat_alt)
  qed
  ultimately show ?thesis using as by blast
qed

lemma user_range_ok_run:
  assumes "recursive s"
  shows "user_range_ok a len s = Some (len = 0 \<or> unat a + unat len \<le> 0xC0000000 \<and>
    (\<forall>i < unat len. user_accessible s (a + of_nat i)))"
proof (cases "len = 0")
  case False
  have l: "0 < unat len" "unat len < 2 ^ 32" using False unat_less_2p32 [of len] by (simp_all add: unat_gt_0)
  have ok: "(a \<ge> USER_LIMIT \<or> a + len < a \<or> a + len > USER_LIMIT) \<longleftrightarrow> \<not> unat a + unat len \<le> 0xC0000000"
  proof (cases "unat a + unat len < 2 ^ 32")
    case True
    then have "unat (a + len) = unat a + unat len" by (simp add: unat_word_ariths)
    then show ?thesis using l by (auto simp: word_le_nat_alt word_less_nat_alt)
  next
    case wrap: False
    then have "unat (a + len) = unat a + unat len - 2 ^ 32"
      using unat_less_2p32 [of a] l(2) by (simp add: unat_word_ariths mod_if)
    then have "a + len < a" using wrap l unat_less_2p32 [of a] by (simp add: word_less_nat_alt)
    then show ?thesis using wrap by simp
  qed
  show ?thesis
  proof (cases "unat a + unat len \<le> 0xC0000000")
    case True
    obtain as where as: "page_addrs (page_down a) (a + len) = Some as"
      "\<And>x. x \<in> set as \<Longrightarrow> \<exists>i < unat len. page_down x = page_down (a + of_nat i)"
      "\<And>i. i < unat len \<Longrightarrow> page_down (a + of_nat i) \<in> set as"
      using page_range_cover [OF True l] by auto
    have "(\<forall>x \<in> set as. user_accessible s x) \<longleftrightarrow> (\<forall>i < unat len. user_accessible s (a + of_nat i))"
      using as(2,3) user_accessible_page page_down_idem by metis
    then show ?thesis using False True ok as(1) by (simp add: user_range_ok_def all_user_run [OF assms])
  qed (use False ok in \<open>simp add: user_range_ok_def\<close>)
qed (simp add: user_range_ok_def)

text \<open>
  C12. \<open>user_range_ok\<close> never faults, never loops, and accepts a buffer exactly when it is empty or
  lies below \<open>0xC0000000\<close> without wrapping around and ring 3 may access every one of its bytes.
\<close>

theorem user_range_ok_correct:
  assumes "recursive s"
  shows "user_range_ok addr len s = Some (len = 0 \<or> unat addr + unat len \<le> 0xC0000000 \<and>
    (\<forall>i < unat len. user_accessible s (addr + of_nat i)))"
  by (rule user_range_ok_run [OF assms])

theorem user_range_ok_correct_witness: "user_range_ok 0xBFFFFFFF 2 mm_boot = Some False"
  using user_range_ok_correct [OF as_wfD(1) [OF mm_boot_facts(1)]] by simp

subsection \<open>Growing the heap\<close>

lemma page_aligned_xlate:
  assumes "xlate s a = Some pa" "page_down a = a"
  shows "pa \<noteq> 0xFFFFFFFF" "page_down pa = pa"
proof -
  have "a AND 0xFFF = 0" using page_down_aligned [of a] assms(2) by simp
  then have "pa = page_down pa" using xlate_page_offset(1) [OF assms(1)] by simp
  then show "page_down pa = pa" by simp
  then show "pa \<noteq> 0xFFFFFFFF" by (auto simp: page_down_def)
qed

lemma grow_page_load:
  assumes "owns s" "page_down a = a"
  shows "grow_page a s = (if xlate s a = None then load_page a s else Some (True, s))"
  using virt_to_phys_xlate [OF as_wfD(1) [OF ownsD(1) [OF assms(1)]], of a] page_aligned_xlate(1) [OF _ assms(2), of s]
  by (cases "xlate s a") (auto simp: grow_page_def load_page_def Let_def split: prod.splits)

lemma grow_loop:
  assumes "owns s" "\<forall>a \<in> set as. private_page a \<and> page_down a = a" "distinct as"
    and "2 * length as \<le> card (avail (pmm s))"
  shows "\<exists>s'. try_each grow_page as s = Some (True, s') \<and> pages_added 6 (Some 0) (filter (\<lambda>a. xlate s a = None) as) s s'"
proof -
  have "2 * length (filter (\<lambda>a. xlate s a = None) as) \<le> card (avail (pmm s))"
    using assms(4) length_filter_le [of "\<lambda>a. xlate s a = None" as] by linarith
  then show ?thesis
    using elf_loop.skipping_loop_added [OF assms(1-3), of grow_page] grow_page_load by blast
qed

text \<open>The pages of the growing loop.\<close>

lemma grow_pages:
  assumes "1 \<le> dir_index old" "unat want \<le> 0xB0000000"
  shows "\<exists>as. page_addrs (page_down old) want = Some as \<and> (\<forall>a \<in> set as. private_page a \<and> page_down a = a) \<and> distinct as \<and>
    length as = (unat want - unat (page_down old) + 4095) div 4096 \<and>
    (\<forall>va. page_down old \<le> va \<longrightarrow> va < want \<longrightarrow> page_down va \<in> set as)"
proof -
  have hi: "unat want \<le> 0xFFFFF000" using assms(2) by simp
  let ?n = "(unat want - unat (page_down old) + 4095) div 4096"
  obtain as where as: "page_addrs (page_down old) want = Some as"
    and eq: "as = map (\<lambda>k. page_down old + of_nat k * 0x1000) [0 ..< ?n]"
    using page_addrs_nat [OF hi] by blast
  note R = range_pages [OF as page_down_idem hi]
  have d: "1 \<le> dir_index (page_down old)"
    using assms(1) page_eq_iff [of "page_down old" old] by simp
  have "private_page a" if "a \<in> set as" for a
    using private_range [OF d, of want a] assms(2) R(3) [OF that] by simp
  moreover have "distinct as"
  proof -
    have "inj_on (\<lambda>k. page_down old + of_nat k * (0x1000::u32)) {0 ..< ?n}"
    proof (rule inj_onI)
      fix j k assume jk: "j \<in> {0 ..< ?n}" "k \<in> {0 ..< ?n}"
        "page_down old + of_nat j * (0x1000::u32) = page_down old + of_nat k * 0x1000"
      have b: "m * 4096 < 2 ^ 32" if "m < ?n" for m using that hi by simp
      have "unat (of_nat j * (0x1000::u32)) = unat (of_nat k * (0x1000::u32))" using jk(3) by simp
      then have "j * 4096 = k * 4096" using b [of j] b [of k] jk(1,2) by (simp add: unat_word_ariths unat_of_nat)
      then show "j = k" by simp
    qed
    then show ?thesis unfolding eq by (simp add: distinct_map)
  qed
  moreover have "page_down a = a" if "a \<in> set as" for a using R(3) [OF that] by blast
  ultimately show ?thesis using as R(1,2) by blast
qed

lemma sint_pos_word:
  assumes "0 < sint (inc::u32)"
  shows "sint inc = int (unat inc)" "0 < unat inc"
  using assms uint_nonneg [of inc] by (simp_all add: unat_eq_nat_uint)


text \<open>Process 0 with a break at 4 MiB, before and after it asks for a byte.\<close>

definition kernel_brk :: kernel where
  "kernel_brk = upd_proc 0 (\<lambda>p. p\<lparr>brk := 0x400000\<rparr>) kernel_boot"

lemma kernel_brk_facts:
  "kinv kernel_brk" "process_current kernel_brk = 0" "0 < length (procs kernel_brk)" "mm kernel_brk = mm_boot"
  "brk (procs kernel_brk ! 0) = 0x400000" "running (sched kernel_brk) = Main_Task"
  "fds (procs kernel_brk ! 0) = replicate 16 None" "files kernel_brk = replicate 32 zero_file" "fs kernel_brk = fs_empty"
proof -
  have len: "length (procs kernel_boot) = 16" by (rule kinvD(4) [OF kernel_boot_kinv])
  show inv: "kinv kernel_brk" unfolding kernel_brk_def by (rule kinv_proc [OF kernel_boot_kinv]) simp_all
  show run: "running (sched kernel_brk) = Main_Task" by (simp add: kernel_brk_def kernel_boot_fields(5))
  show "process_current kernel_brk = 0" using current_runs(3) [OF inv] run by auto
  show "0 < length (procs kernel_brk)" "brk (procs kernel_brk ! 0) = 0x400000"
    using len by (simp_all add: kernel_brk_def)
  have z: "fds zero_process = replicate 16 None" by (simp add: zero_process_def)
  show "fds (procs kernel_brk ! 0) = replicate 16 None"
    using len kernel_boot_fields(8) by (simp add: kernel_brk_def z)
  show "mm kernel_brk = mm_boot" "files kernel_brk = replicate 32 zero_file" "fs kernel_brk = fs_empty"
    by (simp_all add: kernel_brk_def kernel_boot_def process_initialize_def initial_tasks kernel_raw_def Let_def
        del: upt_Suc upt_rec_numeral)
qed


text \<open>
  C28. The limits \<open>sbrk\<close> checks, and one it does not.  No change is made and the break returned for
  an increment of 0; a new break that wraps around or passes \<open>0xB0000000\<close> is refused with
  \<open>-ENOMEM\<close>, one below address 0 with \<open>-EINVAL\<close>.  But there is no lower bound on the break other than
  0: shrinking by a page into the kernel's identity map succeeds, and unmaps the kernel's page.
\<close>

theorem sbrk_limits:
  assumes "p = process_current k" and "old = brk (procs k ! p)"
  shows "(sint inc = 0 \<longrightarrow> sys_sbrk inc k = Some (Sys_Return old, k)) \<and>
    (0 < sint inc \<and> 0xB0000000 < unat old + unat inc \<longrightarrow> sys_sbrk inc k = Some (Sys_Return (- ENOMEM), k)) \<and>
    (sint inc < 0 \<and> int (unat old) + sint inc < 0 \<longrightarrow> sys_sbrk inc k = Some (Sys_Return (- EINVAL), k)) \<and>
    (as_wf (mm k) \<and> old = want + 0x1000 \<and> page_down want = want \<and> dir_index want = 0 \<and> xlate (mm k) want = Some want \<longrightarrow>
       (\<exists>k'. sys_sbrk (- 0x1000) k = Some (Sys_Return old, k') \<and> xlate (mm k') want = None))"
proof (intro conjI impI)
  assume "sint inc = 0"
  then show "sys_sbrk inc k = Some (Sys_Return old, k)" using assms by (simp add: sys_sbrk_def ret_def)
next
  assume h: "0 < sint inc \<and> 0xB0000000 < unat old + unat inc"
  have "old + inc < old \<or> old + inc > 0xB0000000"
  proof (cases "unat old + unat inc < 4294967296")
    case True
    then show ?thesis using h by (simp add: word_less_nat_alt unat_word_ariths)
  next
    case False
    then have "unat (old + inc) = unat old + unat inc - 4294967296"
      using unat_less_2p32 [of old] unat_less_2p32 [of inc] by (simp add: unat_word_ariths mod_if)
    then have "unat (old + inc) < unat old" using False unat_less_2p32 [of inc] by linarith
    then show ?thesis by (simp add: word_less_nat_alt)
  qed
  then show "sys_sbrk inc k = Some (Sys_Return (- ENOMEM), k)"
    using h assms by (simp add: sys_sbrk_def ret_def Let_def)
next
  assume h: "sint inc < 0 \<and> int (unat old) + sint inc < 0"
  have "uint inc = sint inc + 4294967296" using h sint_sign [of inc] by (auto split: if_splits)
  then have i: "int (unat inc) = sint inc + 4294967296" by simp
  then have "unat old + unat inc < 4294967296" using h by linarith
  then have "unat (old + inc) = unat old + unat inc" by (simp add: unat_word_ariths)
  moreover have "- 2147483648 \<le> sint inc" using sint_ge [of inc] by simp
  then have "0 < unat inc" using i by linarith
  ultimately have "old + inc > old" by (simp add: word_less_nat_alt)
  then show "sys_sbrk inc k = Some (Sys_Return (- EINVAL), k)"
    using h assms by (simp add: sys_sbrk_def ret_def Let_def)
next
  assume h: "as_wf (mm k) \<and> old = want + 0x1000 \<and> page_down want = want \<and> dir_index want = 0 \<and> xlate (mm k) want = Some want"
  have lt: "unat want < 4194304" using h unat_dir_index [of want] by simp
  have uo: "unat old = unat want + 4096" using h lt by (simp add: unat_word_ariths)
  obtain q where q: "unat want = q * 4096" using h unat_page_down [of want] by metis
  have "unat (page_up want) = (q * 4096 + 4095) div 4096 * 4096" using lt q unat_page_up [of want] by simp
  then have up: "page_up want = want" using q by (simp add: word_unat_eq_iff)
  have pages: "page_addrs want old = Some [want]"
    using page_addrs_nat [of old want] uo lt by simp
  have "want \<noteq> 0xFFFFFFFF" using page_aligned_xlate(1) [of "mm k" want want] h by simp
  then have vp: "paging_virt_to_phys want (mm k) = Some want" "want \<noteq> 0xFFFFFFFF"
    using virt_to_phys_xlate [OF as_wfD(1)] h by simp_all
  obtain m where m: "paging_unmap want (mm k) = Some m" "xlate m want = None"
    using paging_unmap_post [of "mm k" want] h by auto
  have none: "xlate (mm_free want m) want = None"
    using m(2) alloc_walk(5) [where s = m, OF refl] by (simp add: mm_free_def)
  have "old + (- 0x1000) = want" using h by simp
  moreover have "sint (- 0x1000 :: u32) = - 4096" by simp
  moreover have "\<not> want > old" using uo by (simp add: word_less_nat_alt)
  ultimately have "sys_sbrk (- 0x1000) k = Some (Sys_Return old, upd_proc p (\<lambda>x. x\<lparr>brk := want\<rparr>) (k\<lparr>mm := mm_free want m\<rparr>))"
    using pages vp m(1) up h by (simp add: sys_sbrk_def assms [symmetric] Let_def ret_def shrink_page_def)
  then show "\<exists>k'. sys_sbrk (- 0x1000) k = Some (Sys_Return old, k') \<and> xlate (mm k') want = None"
    using none by simp
qed

theorem sbrk_limits_witness:
  "sys_sbrk 0x7FFFFFFF (upd_proc 0 (\<lambda>p. p\<lparr>brk := 0xA0000000\<rparr>) kernel_boot) = Some (Sys_Return (- 12), upd_proc 0 (\<lambda>p. p\<lparr>brk := 0xA0000000\<rparr>) kernel_boot) \<and>
   (\<exists>k'. sys_sbrk (- 0x1000) (upd_proc 0 (\<lambda>p. p\<lparr>brk := 0x101000\<rparr>) kernel_boot) = Some (Sys_Return 0x101000, k') \<and>
      xlate (mm k') 0x100000 = None)"
proof -
  let ?k = "\<lambda>b. upd_proc 0 (\<lambda>p. p\<lparr>brk := b\<rparr>) kernel_boot"
  have inv: "kinv (?k b)" for b by (rule kinv_proc [OF kernel_boot_kinv]) simp_all
  have cur: "process_current (?k b) = 0" for b
    using current_runs(3) [OF inv, of b] by (auto simp: kernel_boot_fields(5))
  have b: "brk (procs (?k b) ! 0) = b" for b using kinvD(4) [OF kernel_boot_kinv] by simp
  have m: "mm (?k b) = mm_boot" for b using kernel_brk_facts(4) by (simp add: kernel_brk_def)
  have "sys_sbrk 0x7FFFFFFF (?k 0xA0000000) = Some (Sys_Return (- 12), ?k 0xA0000000)"
    using sbrk_limits [of 0 "?k 0xA0000000" "0xA0000000" "0x7FFFFFFF" 0] cur b by simp
  moreover have "xlate mm_boot 0x100000 = Some 0x100000"
    unfolding mm_boot_def
    using initialize_post [of "0x80000" "0x81000" "\<lparr>pmm = pmm_sample, pmem = (\<lambda>_. 0), cr3 = 0\<rparr>"]
    by (simp add: page_down_def pmm_sample_inv low_not_avail dir_index_def)
  then have "\<exists>k'. sys_sbrk (- 0x1000) (?k 0x101000) = Some (Sys_Return 0x101000, k') \<and> xlate (mm k') 0x100000 = None"
    using sbrk_limits [of 0 "?k 0x101000" "0x101000" 0 "0x100000"] cur b m mm_boot_facts(1)
    by (simp add: page_down_def dir_index_def)
  ultimately show ?thesis by blast
qed

subsection \<open>Files\<close>

lemma sys_open_result:
  assumes op: "sys_open path k = Some (Sys_Return fd, k1)" and fd: "fd < 16"
  shows "\<exists>name node i j. read_cstr (vread8 (mm k)) path 256 = Some name \<and>
    vfs_finddir (fs k) (fs_root (fs k)) name = Some node \<and> fd = of_nat i \<and>
    find (\<lambda>i. fds (procs k ! process_current k) ! i = None) [3 ..< 16] = Some i \<and>
    (\<exists>k2. open_file_alloc node k = (Some j, k2) \<and> k1 = upd_proc (process_current k) (\<lambda>x. x\<lparr>fds := (fds x)[i := Some j]\<rparr>) k2)"
proof -
  let ?p = "process_current k"
  obtain ok where ok: "user_string_ok path 256 (mm k) = Some ok"
    using op by (auto simp: sys_open_def bind_eq_Some_conv)
  have err: "\<not> - 14 < (16::u32)" "\<not> - 2 < (16::u32)" "\<not> - 24 < (16::u32)" "\<not> - 23 < (16::u32)" by simp_all
  have ok1: ok using op ok fd by (cases ok) (auto simp: sys_open_def ret_def)
  then obtain name where name: "read_cstr (vread8 (mm k)) path 256 = Some name"
    using op ok by (auto simp: sys_open_def bind_eq_Some_conv)
  obtain node where node: "vfs_finddir (fs k) (fs_root (fs k)) name = Some node"
    using op ok ok1 name fd err
    by (cases "vfs_finddir (fs k) (fs_root (fs k)) name") (auto simp: sys_open_def ret_def)
  obtain i where i: "find (\<lambda>i. fds (procs k ! ?p) ! i = None) [3 ..< 16] = Some i"
    using op ok ok1 name node fd err
    by (cases "find (\<lambda>i. fds (procs k ! ?p) ! i = None) [3 ..< 16]") (auto simp: sys_open_def ret_def Let_def)
  obtain r2 k2 where al: "open_file_alloc node k = (r2, k2)" by (cases "open_file_alloc node k")
  obtain j where j: "r2 = Some j"
    using op ok ok1 name node i al fd err by (cases r2) (auto simp: sys_open_def ret_def Let_def)
  have "fd = of_nat i \<and> k1 = upd_proc ?p (\<lambda>x. x\<lparr>fds := (fds x)[i := Some j]\<rparr>) k2"
    using op ok ok1 name node i al j by (auto simp: sys_open_def ret_def Let_def)
  then show ?thesis using name node i al j by blast
qed

text \<open>
  C29. Opening a file and closing the descriptor again is a round trip.  \<open>open\<close> takes the lowest free
  descriptor from 3 on and an unused entry of the pool, which starts at offset 0 with the node of
  the file named at the user's address; \<open>close\<close> of that descriptor succeeds, restores the process
  table as it was, and gives the entry back.
\<close>

theorem open_close_roundtrip:
  assumes "kinv k" and "sys_open path k = Some (Sys_Return fd, k1)" and "fd < 16" and "p = process_current k"
  shows "3 \<le> unat fd \<and> fds (procs k ! p) ! unat fd = None \<and> (\<forall>i. 3 \<le> i \<longrightarrow> i < unat fd \<longrightarrow> fds (procs k ! p) ! i \<noteq> None) \<and>
    (\<exists>j name node. get_fd fd k1 = Some j \<and> refcount (files k ! j) = 0 \<and>
       read_cstr (vread8 (mm k)) path 256 = Some name \<and> vfs_finddir (fs k) (fs_root (fs k)) name = Some node \<and>
       files k1 ! j = \<lparr>of_node = Some node, of_offset = 0, refcount = 1\<rparr> \<and>
       (\<exists>k2. sys_close fd k1 = Some (Sys_Return 0, k2) \<and> procs k2 = procs k \<and> files k2 = (files k)[j := zero_file]))"
proof -
  note D = kinvD [OF assms(1)]
  have p: "p < 16" "state (procs k ! p) = PROC_RUN" using current_runs [OF assms(1)] assms(4) by simp_all
  obtain name node i j k2 where r: "read_cstr (vread8 (mm k)) path 256 = Some name"
    "vfs_finddir (fs k) (fs_root (fs k)) name = Some node" "fd = of_nat i"
    "find (\<lambda>i. fds (procs k ! p) ! i = None) [3 ..< 16] = Some i" "open_file_alloc node k = (Some j, k2)"
    and k1: "k1 = upd_proc p (\<lambda>x. x\<lparr>fds := (fds x)[i := Some j]\<rparr>) k2"
    using sys_open_result [OF assms(2,3)] unfolding assms(4) [symmetric] by blast
  have i: "3 \<le> i" "i < 16" "fds (procs k ! p) ! i = None" using find_SomeD [OF r(4)] by auto
  have ui: "unat fd = i" using r(3) i(2) by (simp add: unat_of_nat)
  have first: "fds (procs k ! p) ! m \<noteq> None" if m: "3 \<le> m" "m < i" for m
  proof -
    obtain n where n: "n < length [3 ..< 16]" "[3 ..< 16] ! n = i" "\<forall>m < n. fds (procs k ! p) ! ([3 ..< 16] ! m) \<noteq> None"
      using r(4) unfolding find_Some_iff by blast
    have "n = i - 3" using n(1,2) by (simp del: upt_Suc upt_rec_numeral)
    then have "m - 3 < n" using m by linarith
    then show ?thesis using n(3) [rule_format, of "m - 3"] n(1) m by (simp del: upt_Suc upt_rec_numeral)
  qed
  have j: "j < 32" "refcount (files k ! j) = 0"
    and k2: "k2 = upd_file j (\<lambda>_. \<lparr>of_node = Some node, of_offset = 0, refcount = 1\<rparr>) k"
    using r(5) find_SomeD [of "\<lambda>i. refcount (files k ! i) = 0" "[0 ..< 32]" j]
    by (auto simp: open_file_alloc_def split: option.splits)
  have cur: "process_current k1 = p"
  proof -
    have "state (procs k1 ! m) = state (procs k ! m)" for m
      using p(1) D(4) by (cases "m = p") (simp_all add: k1 k2)
    then show ?thesis by (simp add: process_current_def process_of_task_def assms(4) k1 k2)
  qed
  have len: "length (fds (procs k ! p)) = 16" by (rule fds_okD(3) [OF D(1) p(1)])
  have "int (unat fd) = int i" using ui by (simp only:)
  then have small: "sint fd = int i" using sint_sign [of fd] i(2) by simp
  have got: "get_fd fd k1 = Some j"
    using small i(2) ui cur p(1) D(4) len by (simp add: get_fd_def k1 k2)
  have undo: "(fds (procs k ! p))[i := None] = fds (procs k ! p)" using i(3) by (metis list_update_id)
  define k3 where "k3 = open_file_release (Some j) (upd_proc p (\<lambda>x. x\<lparr>fds := (fds x)[i := None]\<rparr>) k1)"
  have "sys_close fd k1 = Some (Sys_Return 0, k3)" using got cur ui by (simp add: sys_close_def ret_def k3_def)
  moreover have "procs k3 = procs k"
    using j(1) D(4,5) p(1) len undo by (simp add: k3_def release_files k1 k2)
  moreover have "files k3 = (files k)[j := zero_file]"
    using j(1) D(5) by (simp add: k3_def release_files k1 k2 drop_ref_def)
  ultimately have close: "\<exists>k3. sys_close fd k1 = Some (Sys_Return 0, k3) \<and> procs k3 = procs k \<and> files k3 = (files k)[j := zero_file]"
    by blast
  have "files k1 ! j = \<lparr>of_node = Some node, of_offset = 0, refcount = 1\<rparr>" using j(1) D(5) by (simp add: k1 k2)
  then show ?thesis using i ui first got j(2) r(1,2) close by blast
qed

definition fs_one :: fs_state where
  "fs_one = \<lparr>root_node = \<lparr>node_name = [], node_flags = 2, node_length = 0, node_inode = 0, node_read = None,
     node_readdir = Some Initrd_Readdir, node_finddir = Some Initrd_Finddir\<rparr>,
     file_nodes = [file_node [] 3 0], file_data = [0x155400], fs_root = Some Root\<rparr>"

text \<open>A page of zeroes at \<open>0x400000\<close> is the name of the only file, the empty one.\<close>

lemma user_page_state:
  "\<exists>m. owns m \<and> user_accessible m 0x400000 \<and> vread8 m 0x400000 = Some 0"
proof -
  have "private_page 0x400000" by (simp add: private_page_def dir_index_def)
  then obtain m where m: "try_each grow_page [0x400000] mm_boot = Some (True, m)"
    "pages_added 6 (Some 0) (filter (\<lambda>a. xlate mm_boot a = None) [0x400000]) mm_boot m"
    using grow_loop [OF mm_boot_owns, of "[0x400000]"] mm_boot_pool by (auto simp: page_down_def)
  have "filter (\<lambda>a. xlate mm_boot a = None) [0x400000] = [0x400000]"
    using mm_boot_private_unmapped [OF \<open>private_page _\<close>] by simp
  note A = pages_addedD [OF m(2)[unfolded this]]
  have "bit (6::u32) 2" by (simp add: bit_numeral_rec)
  then show ?thesis using A(1) A(7,8) [of "0x400000"] by (intro exI [of _ m]) (auto simp: vread8_def)
qed

theorem open_close_roundtrip_witness:
  "\<exists>k k1 k2. kinv k \<and> sys_open 0x400000 k = Some (Sys_Return 3, k1) \<and> sys_close 3 k1 = Some (Sys_Return 0, k2) \<and>
     procs k2 = procs k"
proof -
  note F = kernel_brk_facts
  obtain m where m: "owns m" "user_accessible m 0x400000" "vread8 m 0x400000 = Some 0" using user_page_state by blast
  let ?k = "kernel_brk\<lparr>mm := m, fs := fs_one\<rparr>"
  have inv: "kinv ?k" using F(1) by (simp add: kinv_def)
  have cur: "process_current ?k = 0" using F(2) by (simp add: process_current_def process_of_task_def)
  have range: "user_range_ok 0x400000 1 m = Some True"
    using user_range_ok_run [OF as_wfD(1) [OF ownsD(1) [OF m(1)]], of "0x400000" 1] m(2) by simp
  have str: "user_string_ok 0x400000 256 m = Some True" using range m(3) by (simp add: numeral_eq_Suc)
  have name: "read_cstr (vread8 m) 0x400000 256 = Some []" using m(3) by (simp add: numeral_eq_Suc)
  have node: "vfs_finddir fs_one (fs_root fs_one) [] = Some (File 0)"
    by (simp add: vfs_finddir_def fs_one_def node_of_def initrd_finddir_def file_node_def)
  have fd: "find (\<lambda>i. fds (procs kernel_brk ! 0) ! i = None) [3 ..< 16] = Some 3" using F(7) by (simp add: upt_rec)
  obtain k2 where al: "open_file_alloc (File 0) ?k = (Some 0, k2)"
    using F(8) by (simp add: open_file_alloc_def upt_rec zero_file_def)
  let ?k1 = "upd_proc 0 (\<lambda>x. x\<lparr>fds := (fds x)[3 := Some 0]\<rparr>) k2"
  have op: "sys_open 0x400000 ?k = Some (Sys_Return 3, ?k1)"
    using str name node fd al cur by (simp add: sys_open_def ret_def Let_def)
  have "\<exists>k3. sys_close 3 ?k1 = Some (Sys_Return 0, k3) \<and> procs k3 = procs ?k"
    using open_close_roundtrip [OF inv op _ refl] by auto
  then show ?thesis using inv op by blast
qed

end
