(* ===== verification/Devices.thy ===== *)
theory Devices
  imports Prelude
begin

text \<open>
  Port input and output, \<open>kernel/io.h\<close>, and the drivers that are nothing else: the serial line
  (\<open>serial.c\<close>), the interrupt controllers (\<open>pic.c\<close>) and the programming of the timer
  (\<open>timer_initialize\<close> of \<open>timer.c\<close>).  What a device will answer to the coming reads is a list
  of bytes, in the order of the reads, and what is written is a log; None is a driver that reads
  on after the last answer.
\<close>

subsection \<open>Ports\<close>

record ports =
  ins :: "u8 list"
  outs :: "(u16 \<times> u8) list"

definition outb :: "u16 \<Rightarrow> u8 \<Rightarrow> ports \<Rightarrow> ports" where
  "outb p v d = d\<lparr>outs := outs d @ [(p, v)]\<rparr>"

definition inb :: "ports \<Rightarrow> (u8 \<times> ports) option" where
  "inb d = (case ins d of [] \<Rightarrow> None | b # bs \<Rightarrow> Some (b, d\<lparr>ins := bs\<rparr>))"

definition io_wait :: "ports \<Rightarrow> ports" where
  "io_wait d = outb 0x80 0 d"

text \<open>A loop that reads a status port until the answer satisfies \<open>ok\<close>.\<close>

fun skip_answers :: "(u8 \<Rightarrow> bool) \<Rightarrow> u8 list \<Rightarrow> (u8 \<times> u8 list) option" where
  "skip_answers ok [] = None"
| "skip_answers ok (b # bs) = (if ok b then Some (b, bs) else skip_answers ok bs)"

definition poll :: "(u8 \<Rightarrow> bool) \<Rightarrow> ports \<Rightarrow> (u8 \<times> ports) option" where
  "poll ok d = map_option (\<lambda>(b, bs). (b, d\<lparr>ins := bs\<rparr>)) (skip_answers ok (ins d))"

lemma outb_simps [simp]: "ins (outb p v d) = ins d" "outs (outb p v d) = outs d @ [(p, v)]"
  by (simp_all add: outb_def)

subsection \<open>The serial line\<close>

abbreviation (input) COM1 :: u16 where "COM1 \<equiv> 0x3F8"

definition serial_initialize :: "ports \<Rightarrow> ports" where
  "serial_initialize d = fold (\<lambda>(p, v). outb p v)
     [(COM1 + 1, 0x00), (COM1 + 3, 0x80), (COM1 + 0, 0x03), (COM1 + 1, 0x00), (COM1 + 3, 0x03),
      (COM1 + 2, 0xC7), (COM1 + 4, 0x0B)] d"

definition transmit_empty :: "u8 \<Rightarrow> bool" where
  "transmit_empty b \<longleftrightarrow> b AND 0x20 \<noteq> 0"

definition serial_put_byte :: "u8 \<Rightarrow> ports \<Rightarrow> ports option" where
  "serial_put_byte c d = map_option (\<lambda>(_, d). outb COM1 c d) (poll transmit_empty d)"

definition serial_putchar :: "u8 \<Rightarrow> ports \<Rightarrow> ports option" where
  "serial_putchar c d =
     (if c = 10 then Option.bind (serial_put_byte 13 d) (serial_put_byte c) else serial_put_byte c d)"

fun serial_write :: "u8 list \<Rightarrow> ports \<Rightarrow> ports option" where
  "serial_write [] d = Some d"
| "serial_write (c # cs) d = Option.bind (serial_putchar c d) (serial_write cs)"

definition serial_available :: "ports \<Rightarrow> (bool \<times> ports) option" where
  "serial_available d = map_option (\<lambda>(b, d). (b AND 1 \<noteq> 0, d)) (inb d)"

definition serial_getchar :: "ports \<Rightarrow> (u8 \<times> ports) option" where
  "serial_getchar d = Option.bind (poll (\<lambda>b. b AND 1 \<noteq> 0) d) (\<lambda>(_, d). inb d)"

subsection \<open>The interrupt controllers\<close>

definition pic_remap :: "u32 \<Rightarrow> u32 \<Rightarrow> ports \<Rightarrow> ports option" where
  "pic_remap offset1 offset2 d = do {
     (mask1, d) \<leftarrow> inb d;
     (mask2, d) \<leftarrow> inb d;
     let d = fold (\<lambda>(p, v) d. io_wait (outb p v d))
       [(0x20, 0x11), (0xA0, 0x11), (0x21, ucast offset1), (0xA1, ucast offset2),
        (0x21, 0x04), (0xA1, 0x02), (0x21, 0x01), (0xA1, 0x01)] d;
     Some (outb 0xA1 mask2 (outb 0x21 mask1 d))
   }"

definition pic_send_eoi :: "u8 \<Rightarrow> ports \<Rightarrow> ports" where
  "pic_send_eoi irq d = outb 0x20 0x20 (if irq \<ge> 8 then outb 0xA0 0x20 d else d)"

definition pic_port :: "u8 \<Rightarrow> u16 \<times> u8" where
  "pic_port irq = (if irq < 8 then (0x21, irq) else (0xA1, irq - 8))"

definition pic_set_mask :: "u8 \<Rightarrow> ports \<Rightarrow> ports option" where
  "pic_set_mask irq d = (let (port, irq) = pic_port irq in
     map_option (\<lambda>(m, d). outb port (m OR push_bit (unat irq) 1) d) (inb d))"

definition pic_clear_mask :: "u8 \<Rightarrow> ports \<Rightarrow> ports option" where
  "pic_clear_mask irq d = (let (port, irq) = pic_port irq in
     map_option (\<lambda>(m, d). outb port (m AND NOT (push_bit (unat irq) 1)) d) (inb d))"

subsection \<open>The timer\<close>

text \<open>\<open>timer_initialize\<close> up to the installation of its handler; a frequency of 0 is a division by zero.\<close>

definition timer_program :: "u32 \<Rightarrow> ports \<Rightarrow> ports option" where
  "timer_program frequency d =
     (if frequency = 0 then None
      else let divisor = 1193180 div frequency
           in Some (outb 0x40 (ucast (drop_bit 8 divisor)) (outb 0x40 (ucast divisor) (outb 0x43 0x36 d))))"

subsection \<open>Writing to a ready line\<close>

text \<open>Answers that all have the transmitter empty.\<close>

definition line_ready :: "nat \<Rightarrow> ports \<Rightarrow> bool" where
  "line_ready n d \<longleftrightarrow> (\<forall>b \<in> set (ins d). transmit_empty b) \<and> n \<le> length (ins d)"

definition crlf :: "u8 \<Rightarrow> u8 list" where
  "crlf c = (if c = 10 then [13, 10] else [c])"

lemma serial_put_byte_ready:
  assumes "line_ready (Suc n) d"
  shows "\<exists>d'. serial_put_byte c d = Some d' \<and> line_ready n d' \<and> outs d' = outs d @ [(COM1, c)]"
proof -
  obtain b bs where "ins d = b # bs" using assms by (cases "ins d") (auto simp: line_ready_def)
  then show ?thesis using assms by (auto simp: serial_put_byte_def poll_def line_ready_def)
qed

lemma serial_putchar_ready:
  assumes "line_ready (n + 2) d"
  shows "\<exists>d'. serial_putchar c d = Some d' \<and> line_ready n d' \<and> outs d' = outs d @ map (Pair COM1) (crlf c)"
proof (cases "c = 10")
  case True
  obtain d1 where d1: "serial_put_byte 13 d = Some d1" "line_ready (Suc n) d1" "outs d1 = outs d @ [(COM1, 13)]"
    using serial_put_byte_ready [of "Suc n" d 13] assms by auto
  obtain d2 where "serial_put_byte 10 d1 = Some d2" "line_ready n d2" "outs d2 = outs d1 @ [(COM1, 10)]"
    using serial_put_byte_ready [OF d1(2)] by blast
  with d1 True show ?thesis by (simp add: serial_putchar_def crlf_def)
next
  case False
  have "line_ready (Suc n) d" using assms by (simp add: line_ready_def)
  then show ?thesis using serial_put_byte_ready [of n d c] False by (auto simp: serial_putchar_def crlf_def)
qed

end
