(* ===== verification/Keyboard.thy ===== *)
theory Keyboard
  imports Devices
begin

text \<open>
  The keyboard driver, \<open>kernel/arch/i386/keyboard.c\<close>: the ring buffer between the interrupt handler
  and \<open>keyboard_getchar\<close>, and the translation of scancodes.  Characters are bytes.
\<close>

subsection \<open>State\<close>

abbreviation (input) KBD_BUFFER_SIZE :: u32 where "KBD_BUFFER_SIZE \<equiv> 128"

record kbd =
  kbd_buffer :: "u8 list"
  kbd_head :: u32
  kbd_tail :: u32
  shift_down :: bool
  ctrl_down :: bool
  alt_down :: bool
  caps_lock :: bool
  extended :: bool
  kbd_ports :: ports

definition kbd_init :: kbd where
  "kbd_init = \<lparr>kbd_buffer = replicate 128 0, kbd_head = 0, kbd_tail = 0, shift_down = False, ctrl_down = False,
     alt_down = False, caps_lock = False, extended = False, kbd_ports = \<lparr>ins = [], outs = []\<rparr>\<rparr>"

subsection \<open>The ring buffer\<close>

definition kbd_push :: "u8 \<Rightarrow> kbd \<Rightarrow> kbd" where
  "kbd_push c k =
     (let nxt = (kbd_head k + 1) mod KBD_BUFFER_SIZE
      in if nxt = kbd_tail k then k
         else k\<lparr>kbd_buffer := (kbd_buffer k)[unat (kbd_head k) := c], kbd_head := nxt\<rparr>)"

definition keyboard_available :: "kbd \<Rightarrow> bool" where
  "keyboard_available k \<longleftrightarrow> kbd_head k \<noteq> kbd_tail k"

text \<open>None is the \<open>hlt\<close> loop: the buffer is empty until an interrupt fills it.\<close>

definition keyboard_getchar :: "kbd \<Rightarrow> (u8 \<times> kbd) option" where
  "keyboard_getchar k =
     (if kbd_head k = kbd_tail k then None
      else Some (kbd_buffer k ! unat (kbd_tail k), k\<lparr>kbd_tail := (kbd_tail k + 1) mod KBD_BUFFER_SIZE\<rparr>))"

subsection \<open>Controller commands\<close>

text \<open>\<open>kbd_wait_input\<close> polls the status port; None when the answers run out before the bit clears.\<close>

definition kbd_wait_input :: "ports \<Rightarrow> ports option" where
  "kbd_wait_input d = map_option snd (poll (\<lambda>b. b AND 2 = 0) d)"

definition kbd_send :: "u8 \<Rightarrow> ports \<Rightarrow> ports option" where
  "kbd_send b d = map_option (outb 0x60 b) (kbd_wait_input d)"

definition kbd_set_leds :: "bool \<Rightarrow> bool \<Rightarrow> bool \<Rightarrow> ports \<Rightarrow> ports option" where
  "kbd_set_leds scroll num caps d = do {
     d \<leftarrow> kbd_send 0xED d;
     kbd_send ((if scroll then 1 else 0) OR (if num then 2 else 0) OR (if caps then 4 else 0)) d
   }"

subsection \<open>Scancodes\<close>

text \<open>The rows of the tables; the codes past the last entry are 0.\<close>

definition scancode_ascii :: "u8 list" where
  "scancode_ascii =
     [0, 27, 0x31, 0x32, 0x33, 0x34, 0x35, 0x36, 0x37, 0x38, 0x39, 0x30, 0x2D, 0x3D, 8,
      9, 0x71, 0x77, 0x65, 0x72, 0x74, 0x79, 0x75, 0x69, 0x6F, 0x70, 0x5B, 0x5D, 10,
      0, 0x61, 0x73, 0x64, 0x66, 0x67, 0x68, 0x6A, 0x6B, 0x6C, 0x3B, 0x27, 0x60,
      0, 0x5C, 0x7A, 0x78, 0x63, 0x76, 0x62, 0x6E, 0x6D, 0x2C, 0x2E, 0x2F, 0,
      0x2A, 0, 0x20] @ replicate 70 0"

definition scancode_shifted :: "u8 list" where
  "scancode_shifted =
     [0, 27, 0x21, 0x40, 0x23, 0x24, 0x25, 0x5E, 0x26, 0x2A, 0x28, 0x29, 0x5F, 0x2B, 8,
      9, 0x51, 0x57, 0x45, 0x52, 0x54, 0x59, 0x55, 0x49, 0x4F, 0x50, 0x7B, 0x7D, 10,
      0, 0x41, 0x53, 0x44, 0x46, 0x47, 0x48, 0x4A, 0x4B, 0x4C, 0x3A, 0x22, 0x7E,
      0, 0x7C, 0x5A, 0x58, 0x43, 0x56, 0x42, 0x4E, 0x4D, 0x3C, 0x3E, 0x3F, 0,
      0x2A, 0, 0x20] @ replicate 70 0"

subsection \<open>The interrupt handler\<close>

text \<open>The character of a key with the modifiers as they are.\<close>

definition key_char :: "u8 \<Rightarrow> kbd \<Rightarrow> u8" where
  "key_char sc k =
     (let c = (if shift_down k then scancode_shifted ! unat sc else scancode_ascii ! unat sc)
      in if caps_lock k \<and> 0x61 \<le> c \<and> c \<le> 0x7A then c - 32
         else if caps_lock k \<and> shift_down k \<and> 0x41 \<le> c \<and> c \<le> 0x5A then c + 32
         else c)"

text \<open>
  \<open>keyboard_callback\<close>; \<open>sc\<close> is the byte read from the data port.  The flag says that the handler
  calls \<open>kdb_enter\<close>.  None: the controller never accepts the command that sets the lights.
\<close>

definition keyboard_callback :: "u8 \<Rightarrow> kbd \<Rightarrow> (bool \<times> kbd) option" where
  "keyboard_callback sc k =
     (if sc = 0xFA \<or> sc = 0xFE then Some (False, k)
      else if sc = 0xE0 then Some (False, k\<lparr>extended := True\<rparr>)
      else if extended k then
        (let k = k\<lparr>extended := False\<rparr>
         in if sc AND 0x80 \<noteq> 0 then
              (let k = (if sc = 0x9D then k\<lparr>ctrl_down := False\<rparr> else k);
                   k = (if sc = 0xB8 then k\<lparr>alt_down := False\<rparr> else k)
               in Some (False, k))
            else Some (False,
              if sc = 0x1D then k\<lparr>ctrl_down := True\<rparr>
              else if sc = 0x38 then k\<lparr>alt_down := True\<rparr>
              else k))
      else if sc AND 0x80 \<noteq> 0 then
        (let released = sc AND 0x7F;
             k = (if released = 0x2A \<or> released = 0x36 then k\<lparr>shift_down := False\<rparr> else k);
             k = (if released = 0x1D then k\<lparr>ctrl_down := False\<rparr> else k);
             k = (if released = 0x38 then k\<lparr>alt_down := False\<rparr> else k)
         in Some (False, k))
      else if sc = 0x2A \<or> sc = 0x36 then Some (False, k\<lparr>shift_down := True\<rparr>)
      else if sc = 0x1D then Some (False, k\<lparr>ctrl_down := True\<rparr>)
      else if sc = 0x38 then Some (False, k\<lparr>alt_down := True\<rparr>)
      else if sc = 0x3A then
        (let k = k\<lparr>caps_lock := \<not> caps_lock k\<rparr>
         in map_option (\<lambda>d. (False, k\<lparr>kbd_ports := d\<rparr>)) (kbd_set_leds False False (caps_lock k) (kbd_ports k)))
      else if ctrl_down k \<and> sc = 0x20 then
        Some (True, k\<lparr>ctrl_down := False, shift_down := False, alt_down := False\<rparr>)
      else
        (let c = key_char sc k
         in Some (False, if c \<noteq> 0 then kbd_push c k else k)))"

subsection \<open>A bounded queue\<close>

text \<open>What the two sides of the buffer rely on.\<close>

locale bounded_queue =
  fixes contents :: "'s \<Rightarrow> 'a list"
    and push :: "'a \<Rightarrow> 's \<Rightarrow> 's"
    and pop :: "'s \<Rightarrow> ('a \<times> 's) option"
    and cap :: nat
    and inv :: "'s \<Rightarrow> bool"
  assumes push_contents: "inv s \<Longrightarrow> contents (push x s) = (if length (contents s) < cap then contents s @ [x] else contents s)"
    and pop_contents: "inv s \<Longrightarrow> case pop s of None \<Rightarrow> contents s = [] | Some (x, s') \<Rightarrow> inv s' \<and> contents s = x # contents s'"
    and push_inv: "inv s \<Longrightarrow> inv (push x s)"
    and bounded: "inv s \<Longrightarrow> length (contents s) \<le> cap"
begin

fun pops :: "nat \<Rightarrow> 's \<Rightarrow> ('a list \<times> 's) option" where
  "pops 0 s = Some ([], s)"
| "pops (Suc n) s = Option.bind (pop s) (\<lambda>(x, s). map_option (\<lambda>(xs, s). (x # xs, s)) (pops n s))"

lemma pops_contents:
  "inv s \<Longrightarrow> n \<le> length (contents s) \<Longrightarrow>
     \<exists>s'. pops n s = Some (take n (contents s), s') \<and> inv s' \<and> contents s' = drop n (contents s)"
proof (induction n arbitrary: s)
  case (Suc n)
  obtain x s1 where x: "pop s = Some (x, s1)" "inv s1" "contents s = x # contents s1"
    using pop_contents [OF Suc.prems(1)] Suc.prems(2) by (cases "pop s") auto
  then obtain s' where "pops n s1 = Some (take n (contents s1), s')" "inv s'" "contents s' = drop n (contents s1)"
    using Suc.IH [OF x(2)] Suc.prems(2) by auto
  then show ?case using x by auto
qed simp

lemma pushes_contents:
  "inv s \<Longrightarrow> inv (fold push xs s) \<and> contents (fold push xs s) = take cap (contents s @ xs)"
proof (induction xs arbitrary: s)
  case Nil
  then show ?case using bounded by simp
next
  case (Cons x xs)
  have p: "inv (push x s)" by (rule push_inv [OF Cons.prems])
  have "take (cap - length (contents s)) [x] @ take (cap - Suc (length (contents s))) xs = take (cap - length (contents s)) (x # xs)"
    by (cases "cap - length (contents s)") (auto simp: diff_Suc split: nat.splits)
  with Cons.IH [OF p] push_contents [OF Cons.prems, of x] bounded [OF Cons.prems] show ?case
    by (cases "length (contents s) < cap") simp_all
qed

text \<open>What is pushed comes out in order; what does not fit is dropped from the end.\<close>

lemma fifo:
  assumes "inv s" "contents s = []" "n = min cap (length xs)"
  shows "\<exists>s'. pops n (fold push xs s) = Some (take cap xs, s') \<and> contents s' = []"
proof -
  have "take (min cap (length xs)) xs = take cap xs" by (simp add: min_def)
  then show ?thesis
    using pops_contents [of "fold push xs s" n] pushes_contents [OF assms(1), of xs] assms(2,3) by auto
qed

end

subsection \<open>The ring buffer as a queue\<close>

definition kbd_ok :: "kbd \<Rightarrow> bool" where
  "kbd_ok k \<longleftrightarrow> length (kbd_buffer k) = 128 \<and> kbd_head k < 128 \<and> kbd_tail k < 128"

definition kbd_count :: "kbd \<Rightarrow> nat" where
  "kbd_count k = (unat (kbd_head k) + 128 - unat (kbd_tail k)) mod 128"

definition kbd_queue :: "kbd \<Rightarrow> u8 list" where
  "kbd_queue k = map (\<lambda>i. kbd_buffer k ! ((unat (kbd_tail k) + i) mod 128)) [0 ..< kbd_count k]"

lemma unat_ring_succ: "(x::u32) < 128 \<Longrightarrow> unat ((x + 1) mod 128) = (unat x + 1) mod 128"
  by (simp add: unat_mod_distrib unat_word_ariths word_less_nat_alt)

lemma kbd_okD:
  assumes "kbd_ok k"
  shows "length (kbd_buffer k) = 128" "unat (kbd_head k) < 128" "unat (kbd_tail k) < 128"
  using assms by (simp_all add: kbd_ok_def word_less_nat_alt)

lemma ring_distance:
  assumes "h < 128" "t < (128::nat)"
  shows "(h + 1) mod 128 = t \<longleftrightarrow> (h + 128 - t) mod 128 = 127" "h = t \<longleftrightarrow> (h + 128 - t) mod 128 = 0"
    "(t + (h + 128 - t) mod 128) mod 128 = h"
    "(h + 1) mod 128 \<noteq> t \<Longrightarrow> ((h + 1) mod 128 + 128 - t) mod 128 = Suc ((h + 128 - t) mod 128)"
    "h \<noteq> t \<Longrightarrow> Suc ((h + 128 - (t + 1) mod 128) mod 128) = (h + 128 - t) mod 128"
  using assms by (auto simp: mod_if)

lemma kbd_queue_push:
  assumes ok: "kbd_ok k"
  shows "kbd_queue (kbd_push c k) = (if length (kbd_queue k) < 127 then kbd_queue k @ [c] else kbd_queue k)"
proof -
  note D = kbd_okD [OF ok]
  let ?h = "unat (kbd_head k)" and ?t = "unat (kbd_tail k)"
  have h: "kbd_head k < 128" using ok by (simp add: kbd_ok_def)
  have n: "unat ((kbd_head k + 1) mod 128) = (?h + 1) mod 128" by (rule unat_ring_succ [OF h])
  have full: "(kbd_head k + 1) mod 128 = kbd_tail k \<longleftrightarrow> kbd_count k = 127"
    using ring_distance(1) [OF D(2,3)] n by (simp add: word_unat_eq_iff kbd_count_def)
  have lt: "kbd_count k < 128" by (simp add: kbd_count_def)
  show ?thesis
  proof (cases "kbd_count k = 127")
    case True
    then show ?thesis using full by (simp add: kbd_push_def kbd_queue_def)
  next
    case False
    let ?k = "k\<lparr>kbd_buffer := (kbd_buffer k)[?h := c], kbd_head := (kbd_head k + 1) mod 128\<rparr>"
    have cnt: "kbd_count ?k = Suc (kbd_count k)"
      using ring_distance(4) [OF D(2,3)] ring_distance(1) [OF D(2,3)] False n by (simp add: kbd_count_def)
    have old: "(kbd_buffer k)[?h := c] ! ((?t + i) mod 128) = kbd_buffer k ! ((?t + i) mod 128)" if "i < kbd_count k" for i
    proof -
      have "(?t + i) mod 128 \<noteq> ?h"
        using that ring_distance(3) [OF D(2,3)] D(2,3) lt unfolding kbd_count_def [symmetric] by (auto simp: mod_if split: if_splits)
      then show ?thesis by simp
    qed
    have new: "(kbd_buffer k)[?h := c] ! ((?t + kbd_count k) mod 128) = c"
      using ring_distance(3) [OF D(2,3)] D(1,2) by (simp add: kbd_count_def)
    have "kbd_queue ?k = kbd_queue k @ [c]"
      using old new by (simp add: kbd_queue_def cnt)
    moreover have "kbd_push c k = ?k" using False full by (simp add: kbd_push_def Let_def)
    moreover have "length (kbd_queue k) < 127" using False lt by (simp add: kbd_queue_def)
    ultimately show ?thesis by simp
  qed
qed

lemma kbd_getchar_queue:
  assumes ok: "kbd_ok k"
  shows "case keyboard_getchar k of None \<Rightarrow> kbd_queue k = []
    | Some (c, k') \<Rightarrow> kbd_ok k' \<and> kbd_queue k = c # kbd_queue k'"
proof (cases "kbd_head k = kbd_tail k")
  case True
  then show ?thesis by (simp add: keyboard_getchar_def kbd_queue_def kbd_count_def)
next
  case False
  note D = kbd_okD [OF ok]
  let ?h = "unat (kbd_head k)" and ?t = "unat (kbd_tail k)"
  let ?k = "k\<lparr>kbd_tail := (kbd_tail k + 1) mod 128\<rparr>"
  have t: "kbd_tail k < 128" using ok by (simp add: kbd_ok_def)
  have n: "unat ((kbd_tail k + 1) mod 128) = (?t + 1) mod 128" by (rule unat_ring_succ [OF t])
  have "?h \<noteq> ?t" using False by (simp add: word_unat_eq_iff)
  then have cnt: "kbd_count k = Suc (kbd_count ?k)"
    using ring_distance(5) [OF D(2,3)] n by (simp add: kbd_count_def)
  have "kbd_ok ?k" using ok n by (simp add: kbd_ok_def word_less_nat_alt)
  moreover have "kbd_queue k = kbd_buffer k ! ?t # kbd_queue ?k"
    unfolding kbd_queue_def cnt
    using D(3) by (simp add: upt_rec [of 0 "Suc m" for m] map_Suc_upt [symmetric] o_def n mod_simps del: upt_Suc)
  ultimately show ?thesis using False by (simp add: keyboard_getchar_def)
qed

lemma kbd_push_ok: "kbd_ok k \<Longrightarrow> kbd_ok (kbd_push c k)"
  by (auto simp: kbd_push_def kbd_ok_def Let_def word_less_nat_alt unat_mod_distrib)

interpretation kq: bounded_queue kbd_queue kbd_push keyboard_getchar 127 kbd_ok
proof
  fix k :: kbd and c
  assume ok: "kbd_ok k"
  show "kbd_queue (kbd_push c k) = (if length (kbd_queue k) < 127 then kbd_queue k @ [c] else kbd_queue k)"
    by (rule kbd_queue_push [OF ok])
  show "case keyboard_getchar k of None \<Rightarrow> kbd_queue k = [] | Some (c, k') \<Rightarrow> kbd_ok k' \<and> kbd_queue k = c # kbd_queue k'"
    by (rule kbd_getchar_queue [OF ok])
  show "kbd_ok (kbd_push c k)" by (rule kbd_push_ok [OF ok])
  have "kbd_count k < 128" by (simp add: kbd_count_def)
  then show "length (kbd_queue k) \<le> 127" by (simp add: kbd_queue_def)
qed

subsection \<open>Properties\<close>

fun getchars :: "nat \<Rightarrow> kbd \<Rightarrow> (u8 list \<times> kbd) option" where
  "getchars 0 k = Some ([], k)"
| "getchars (Suc n) k = Option.bind (keyboard_getchar k) (\<lambda>(c, k). map_option (\<lambda>(cs, k). (c # cs, k)) (getchars n k))"

lemma getchars_pops: "kq.pops n k = getchars n k"
proof (induction n arbitrary: k)
  case (Suc n)
  then show ?case by (cases "keyboard_getchar k") auto
qed simp

lemma kbd_init_ok: "kbd_ok kbd_init" "kbd_queue kbd_init = []"
  by (simp_all add: kbd_ok_def kbd_init_def kbd_queue_def kbd_count_def)

text \<open>
  C30. The keyboard buffer is a first-in first-out queue of 127 characters: of any characters typed
  into an empty buffer, reading gives back the first 127 in order and leaves it empty; those that
  come when it is full are dropped, whatever the positions of head and tail.
\<close>

theorem keyboard_fifo:
  assumes "kbd_ok k" and "kbd_queue k = []"
  shows "\<exists>k'. getchars (min 127 (length cs)) (fold kbd_push cs k) = Some (take 127 cs, k') \<and>
    kbd_ok (fold kbd_push cs k) \<and> \<not> keyboard_available k' \<and> keyboard_getchar k' = None"
proof -
  obtain k' where k': "getchars (min 127 (length cs)) (fold kbd_push cs k) = Some (take 127 cs, k')" "kbd_queue k' = []"
    using kq.fifo [OF assms refl, of cs] by (auto simp: getchars_pops)
  have pushed: "kbd_ok (fold kbd_push cs k)" using kq.pushes_contents [OF assms(1), of cs] by simp
  have "getchars n k = Some (xs, k') \<Longrightarrow> kbd_ok k \<Longrightarrow> kbd_ok k'" for n k xs
    using kbd_getchar_queue by (induction n arbitrary: k xs) (fastforce split: option.splits simp: bind_eq_Some_conv)+
  then have ok: "kbd_ok k'" using k'(1) pushed by blast
  have "kbd_head k' = kbd_tail k'"
  proof (rule ccontr)
    assume "kbd_head k' \<noteq> kbd_tail k'"
    then show False using kbd_getchar_queue [OF ok] k'(2) by (simp add: keyboard_getchar_def)
  qed
  then show ?thesis using k'(1) pushed by (simp add: keyboard_available_def keyboard_getchar_def)
qed

theorem keyboard_fifo_witness:
  "\<exists>k'. getchars 3 (fold kbd_push [0x61, 0x62, 0x63] kbd_init) = Some ([0x61, 0x62, 0x63], k') \<and> keyboard_getchar k' = None"
proof -
  let ?cs = "[0x61, 0x62, 0x63] :: u8 list"
  have n: "min 127 (length ?cs) = 3" "take 127 ?cs = ?cs" by simp_all
  show ?thesis using keyboard_fifo [OF kbd_init_ok, of ?cs] unfolding n by blast
qed



end
