(* ===== verification/Tty.thy ===== *)
theory Tty
  imports Devices
begin

text \<open>
  The text terminal, \<open>kernel/arch/i386/tty.c\<close> and \<open>vga.h\<close>: a screen of 25 rows of 80 cells, the
  cursor, and a copy of every character on the serial line.  Sizes are \<open>nat\<close>; the invariant below
  keeps them under 26 and 81, so the \<open>size_t\<close> variables of the source never wrap around.
\<close>

abbreviation (input) VGA_WIDTH :: nat where "VGA_WIDTH \<equiv> 80"
abbreviation (input) VGA_HEIGHT :: nat where "VGA_HEIGHT \<equiv> 25"

datatype vga_color = VGA_COLOR_BLACK | VGA_COLOR_BLUE | VGA_COLOR_GREEN | VGA_COLOR_CYAN | VGA_COLOR_RED
  | VGA_COLOR_MAGENTA | VGA_COLOR_BROWN | VGA_COLOR_LIGHT_GREY | VGA_COLOR_DARK_GREY | VGA_COLOR_LIGHT_BLUE
  | VGA_COLOR_LIGHT_GREEN | VGA_COLOR_LIGHT_CYAN | VGA_COLOR_LIGHT_RED | VGA_COLOR_LIGHT_MAGENTA
  | VGA_COLOR_LIGHT_BROWN | VGA_COLOR_WHITE

fun color_code :: "vga_color \<Rightarrow> u8" where
  "color_code VGA_COLOR_BLACK = 0" | "color_code VGA_COLOR_BLUE = 1" | "color_code VGA_COLOR_GREEN = 2"
| "color_code VGA_COLOR_CYAN = 3" | "color_code VGA_COLOR_RED = 4" | "color_code VGA_COLOR_MAGENTA = 5"
| "color_code VGA_COLOR_BROWN = 6" | "color_code VGA_COLOR_LIGHT_GREY = 7" | "color_code VGA_COLOR_DARK_GREY = 8"
| "color_code VGA_COLOR_LIGHT_BLUE = 9" | "color_code VGA_COLOR_LIGHT_GREEN = 10"
| "color_code VGA_COLOR_LIGHT_CYAN = 11" | "color_code VGA_COLOR_LIGHT_RED = 12"
| "color_code VGA_COLOR_LIGHT_MAGENTA = 13" | "color_code VGA_COLOR_LIGHT_BROWN = 14" | "color_code VGA_COLOR_WHITE = 15"

lemma color_code_eq [simp]: "color_code a = color_code b \<longleftrightarrow> a = b"
  by (cases a; cases b) simp_all

text \<open>The colors in the order of the enumeration.\<close>

instantiation vga_color :: linorder
begin

definition less_eq_vga_color :: "vga_color \<Rightarrow> vga_color \<Rightarrow> bool" where
  "a \<le> b \<longleftrightarrow> color_code a \<le> color_code b"

definition less_vga_color :: "vga_color \<Rightarrow> vga_color \<Rightarrow> bool" where
  "a < b \<longleftrightarrow> color_code a < color_code b"

instance
proof
  fix a b c :: vga_color
  show "a < b \<longleftrightarrow> a \<le> b \<and> \<not> b \<le> a" by (simp only: less_eq_vga_color_def less_vga_color_def less_le_not_le)
  show "a \<le> a" by (simp add: less_eq_vga_color_def)
  show "a \<le> b \<Longrightarrow> b \<le> c \<Longrightarrow> a \<le> c" unfolding less_eq_vga_color_def by (rule order_trans)
  show "a \<le> b \<Longrightarrow> b \<le> a \<Longrightarrow> a = b" by (simp add: less_eq_vga_color_def flip: color_code_eq)
  show "a \<le> b \<or> b \<le> a" unfolding less_eq_vga_color_def by (rule linear)
qed

end

lemma color_code_mono: "mono color_code"
  by (rule monoI) (simp add: less_eq_vga_color_def)

definition vga_entry_color :: "vga_color \<Rightarrow> vga_color \<Rightarrow> u8" where
  "vga_entry_color fg bg = color_code fg OR push_bit 4 (color_code bg)"

definition vga_entry :: "u8 \<Rightarrow> u8 \<Rightarrow> u16" where
  "vga_entry uc color = ucast uc OR push_bit 8 (ucast color)"

record tty =
  terminal_row :: nat
  terminal_column :: nat
  terminal_color :: u8
  terminal_buffer :: "u16 list"
  terminal_anchor :: nat
  tty_ports :: ports

subsection \<open>Operations\<close>

definition terminal_update_cursor :: "tty \<Rightarrow> tty" where
  "terminal_update_cursor t =
     (let pos = of_nat (terminal_row t * VGA_WIDTH + terminal_column t) :: u16;
          d = outb 0x3D5 (ucast (drop_bit 8 pos)) (outb 0x3D4 0x0E (outb 0x3D5 (ucast pos) (outb 0x3D4 0x0F (tty_ports t))))
      in t\<lparr>tty_ports := d\<rparr>)"

definition terminal_set_anchor :: "tty \<Rightarrow> tty" where
  "terminal_set_anchor t = t\<lparr>terminal_anchor := terminal_row t\<rparr>"

text \<open>Rows \<open>from\<close> to the last are filled with blanks; an index outside the buffer does nothing here, which the invariant excludes.\<close>

definition blank_rows :: "nat \<Rightarrow> tty \<Rightarrow> tty" where
  "blank_rows first t = t\<lparr>terminal_buffer :=
     fold (\<lambda>y b. fold (\<lambda>x b. b[y * VGA_WIDTH + x := vga_entry 0x20 (terminal_color t)]) [0 ..< VGA_WIDTH] b)
       [first ..< VGA_HEIGHT] (terminal_buffer t)\<rparr>"

definition terminal_clear_to_anchor :: "tty \<Rightarrow> tty" where
  "terminal_clear_to_anchor t =
     terminal_update_cursor ((blank_rows (terminal_anchor t) t)\<lparr>terminal_row := terminal_anchor t, terminal_column := 0\<rparr>)"

definition terminal_clear :: "tty \<Rightarrow> tty" where
  "terminal_clear t = terminal_update_cursor ((blank_rows 0 t)\<lparr>terminal_row := 0, terminal_column := 0\<rparr>)"

definition terminal_initialize :: "tty \<Rightarrow> tty" where
  "terminal_initialize t = terminal_update_cursor (blank_rows 0
     (t\<lparr>terminal_row := 0, terminal_column := 0, terminal_color := vga_entry_color VGA_COLOR_LIGHT_GREY VGA_COLOR_BLACK\<rparr>))"

definition terminal_setcolor :: "u8 \<Rightarrow> tty \<Rightarrow> tty" where
  "terminal_setcolor c t = t\<lparr>terminal_color := c\<rparr>"

definition terminal_putentryat :: "u8 \<Rightarrow> u8 \<Rightarrow> nat \<Rightarrow> nat \<Rightarrow> tty \<Rightarrow> tty" where
  "terminal_putentryat c color x y t =
     t\<lparr>terminal_buffer := (terminal_buffer t)[y * VGA_WIDTH + x := vga_entry c color]\<rparr>"

definition terminal_scroll :: "tty \<Rightarrow> tty" where
  "terminal_scroll t =
     (let b = fold (\<lambda>x b. fold (\<lambda>y b. b[x * VGA_WIDTH + y := b ! ((x + 1) * VGA_WIDTH + y)]) [0 ..< VGA_WIDTH] b)
            [0 ..< VGA_HEIGHT - 1] (terminal_buffer t);
          b = fold (\<lambda>x b. b[(VGA_HEIGHT - 1) * VGA_WIDTH + x := vga_entry 0x20 (terminal_color t)]) [0 ..< VGA_WIDTH] b
      in t\<lparr>terminal_buffer := b, terminal_anchor := terminal_anchor t - 1\<rparr>)"

text \<open>\<open>if (++terminal_row == VGA_HEIGHT) { terminal_scroll(); ... }\<close>, which occurs twice.\<close>

definition next_row :: "tty \<Rightarrow> tty" where
  "next_row t =
     (let t = t\<lparr>terminal_row := terminal_row t + 1\<rparr>
      in if terminal_row t = VGA_HEIGHT then (terminal_scroll t)\<lparr>terminal_row := VGA_HEIGHT - 1\<rparr> else t)"

text \<open>Everything but the tab, after the character has gone to the serial line.\<close>

definition screen_put :: "u8 \<Rightarrow> tty \<Rightarrow> tty" where
  "screen_put c t =
     (if c = 10 then terminal_update_cursor (next_row (t\<lparr>terminal_column := 0\<rparr>))
      else if c = 8 then
        (if terminal_column t > 0 \<or> terminal_row t > 0 then
           (let t = (if terminal_column t > 0 then t\<lparr>terminal_column := terminal_column t - 1\<rparr>
                     else t\<lparr>terminal_row := terminal_row t - 1, terminal_column := VGA_WIDTH - 1\<rparr>)
            in terminal_update_cursor (terminal_putentryat 0x20 (terminal_color t) (terminal_column t) (terminal_row t) t))
         else t)
      else
        (let t = terminal_putentryat c (terminal_color t) (terminal_column t) (terminal_row t) t;
             t = t\<lparr>terminal_column := terminal_column t + 1\<rparr>;
             t = (if terminal_column t = VGA_WIDTH then next_row (t\<lparr>terminal_column := 0\<rparr>) else t)
         in terminal_update_cursor t))"

definition echo_serial :: "u8 \<Rightarrow> tty \<Rightarrow> tty option" where
  "echo_serial c t = map_option (\<lambda>d. t\<lparr>tty_ports := d\<rparr>) (serial_putchar c (tty_ports t))"

definition terminal_put_plain :: "u8 \<Rightarrow> tty \<Rightarrow> tty option" where
  "terminal_put_plain c t = map_option (screen_put c) (echo_serial c t)"

definition terminal_putchar :: "u8 \<Rightarrow> tty \<Rightarrow> tty option" where
  "terminal_putchar c t =
     (if c = 9 then do {
        t \<leftarrow> echo_serial c t;
        t \<leftarrow> terminal_put_plain 0x20 t; t \<leftarrow> terminal_put_plain 0x20 t;
        t \<leftarrow> terminal_put_plain 0x20 t; terminal_put_plain 0x20 t
      }
      else terminal_put_plain c t)"

fun terminal_write :: "u8 list \<Rightarrow> tty \<Rightarrow> tty option" where
  "terminal_write [] t = Some t"
| "terminal_write (c # cs) t = Option.bind (terminal_putchar c t) (terminal_write cs)"

subsection \<open>The screen\<close>

text \<open>What is on the screen: the cells row by row, and the cursor.\<close>

type_synonym screen = "u16 list list \<times> nat \<times> nat"

definition rows_of :: "u16 list \<Rightarrow> u16 list list" where
  "rows_of b = map (\<lambda>y. map (\<lambda>x. b ! (y * VGA_WIDTH + x)) [0 ..< VGA_WIDTH]) [0 ..< VGA_HEIGHT]"

definition screen_of :: "tty \<Rightarrow> screen" where
  "screen_of t = (rows_of (terminal_buffer t), terminal_row t, terminal_column t)"

definition tty_ok :: "tty \<Rightarrow> bool" where
  "tty_ok t \<longleftrightarrow> length (terminal_buffer t) = VGA_HEIGHT * VGA_WIDTH \<and> terminal_row t < VGA_HEIGHT \<and>
     terminal_column t < VGA_WIDTH \<and> terminal_anchor t < VGA_HEIGHT"

text \<open>The behaviour the terminal promises, on rows.\<close>

definition newline :: "u16 \<Rightarrow> screen \<Rightarrow> screen" where
  "newline blank = (\<lambda>(rs, r, c).
     if r + 1 = VGA_HEIGHT then (tl rs @ [replicate VGA_WIDTH blank], r, 0) else (rs, r + 1, 0))"

definition put_cell :: "u16 \<Rightarrow> screen \<Rightarrow> screen" where
  "put_cell e = (\<lambda>(rs, r, c). (rs[r := (rs ! r)[c := e]], r, c))"

definition type_char :: "u8 \<Rightarrow> u8 \<Rightarrow> screen \<Rightarrow> screen" where
  "type_char color ch s =
     (let blank = vga_entry 0x20 color in
      if ch = 10 then newline blank s
      else if ch = 8 then
        (case s of (rs, r, c) \<Rightarrow>
          if c > 0 then put_cell blank (rs, r, c - 1)
          else if r > 0 then put_cell blank (rs, r - 1, VGA_WIDTH - 1) else s)
      else (case put_cell (vga_entry ch color) s of (rs, r, c) \<Rightarrow>
          if c + 1 = VGA_WIDTH then newline blank (rs, r, c) else (rs, r, c + 1)))"

fun type_text :: "u8 \<Rightarrow> u8 list \<Rightarrow> screen \<Rightarrow> screen" where
  "type_text color [] s = s"
| "type_text color (ch # chs) s =
     type_text color chs (if ch = 9 then (type_char color 0x20 ^^ 4) s else type_char color ch s)"

subsection \<open>Filling and scrolling, cell by cell\<close>

lemma fill_cells:
  "length (fold (\<lambda>x b. b[s + x := v]) [0 ..< m] b) = length b \<and>
   (s + m \<le> length b \<longrightarrow> (\<forall>i. fold (\<lambda>x b. b[s + x := v]) [0 ..< m] b ! i = (if s \<le> i \<and> i < s + m then v else b ! i)))"
proof (induction m)
  case (Suc m)
  show ?case
  proof (intro conjI impI allI)
    fix i assume h: "s + Suc m \<le> length b"
    then show "fold (\<lambda>x b. b[s + x := v]) [0 ..< Suc m] b ! i = (if s \<le> i \<and> i < s + Suc m then v else b ! i)"
      using Suc by (cases "i = s + m") (auto simp: nth_list_update)
  qed (use Suc in simp)
qed auto

lemma shift_cells:
  assumes "m \<le> 80" "s + 80 + m \<le> length b"
  shows "length (fold (\<lambda>y b. b[s + y := b ! (s + 80 + y)]) [0 ..< m] b) = length b \<and>
   (\<forall>i. fold (\<lambda>y b. b[s + y := b ! (s + 80 + y)]) [0 ..< m] b ! i = (if s \<le> i \<and> i < s + m then b ! (i + 80) else b ! i))"
  using assms
proof (induction m)
  case (Suc m)
  let ?b = "fold (\<lambda>y b. b[s + y := b ! (s + 80 + y)]) [0 ..< m] b"
  have IH: "length ?b = length b" "\<And>i. ?b ! i = (if s \<le> i \<and> i < s + m then b ! (i + 80) else b ! i)"
    using Suc by simp_all
  have "?b[s + m := ?b ! (s + 80 + m)] ! i = (if s \<le> i \<and> i < s + Suc m then b ! (i + 80) else b ! i)" for i
    using IH Suc.prems by (cases "i = s + m") (auto simp: nth_list_update ac_simps)
  then show ?case using IH(1) by simp
qed auto

lemma fill_rows:
  assumes "first \<le> n" "n * 80 \<le> length b"
  shows "length (fold (\<lambda>y b. fold (\<lambda>x b. b[y * 80 + x := v]) [0 ..< 80] b) [first ..< n] b) = length b \<and>
    (\<forall>i. fold (\<lambda>y b. fold (\<lambda>x b. b[y * 80 + x := v]) [0 ..< 80] b) [first ..< n] b ! i =
       (if first * 80 \<le> i \<and> i < n * 80 then v else b ! i))"
  using assms
proof (induction n)
  case (Suc n)
  show ?case
  proof (cases "first = Suc n")
    case False
    let ?b = "fold (\<lambda>y b. fold (\<lambda>x b. b[y * 80 + x := v]) [0 ..< 80] b) [first ..< n] b"
    have le: "first \<le> n" using Suc.prems(1) False by simp
    have IH: "length ?b = length b" "\<And>i. ?b ! i = (if first * 80 \<le> i \<and> i < n * 80 then v else b ! i)"
      using Suc.IH le Suc.prems(2) by simp_all
    have "fold (\<lambda>x b. b[n * 80 + x := v]) [0 ..< 80] ?b ! i = (if first * 80 \<le> i \<and> i < Suc n * 80 then v else b ! i)" for i
      using fill_cells [of "n * 80" v 80 ?b] IH Suc.prems(2) le by (auto simp del: upt_rec_numeral)
    then show ?thesis using fill_cells [of "n * 80" v 80 ?b] IH(1) le by (simp del: upt_rec_numeral)
  qed auto
qed auto

lemma shift_rows:
  assumes "(n + 1) * 80 \<le> length b"
  shows "length (fold (\<lambda>x b. fold (\<lambda>y b. b[x * 80 + y := b ! ((x + 1) * 80 + y)]) [0 ..< 80] b) [0 ..< n] b) = length b \<and>
    (\<forall>i. fold (\<lambda>x b. fold (\<lambda>y b. b[x * 80 + y := b ! ((x + 1) * 80 + y)]) [0 ..< 80] b) [0 ..< n] b ! i =
       (if i < n * 80 then b ! (i + 80) else b ! i))"
  using assms
proof (induction n)
  case (Suc n)
  let ?b = "fold (\<lambda>x b. fold (\<lambda>y b. b[x * 80 + y := b ! ((x + 1) * 80 + y)]) [0 ..< 80] b) [0 ..< n] b"
  have IH: "length ?b = length b" "\<And>i. ?b ! i = (if i < n * 80 then b ! (i + 80) else b ! i)"
    using Suc by simp_all
  have eq: "(\<lambda>y b. b[n * 80 + y := b ! ((n + 1) * 80 + y)]) = (\<lambda>y b. b[n * 80 + y := b ! (n * 80 + 80 + y)])"
    by (simp add: fun_eq_iff algebra_simps)
  note S = shift_cells [of 80 "n * 80" ?b]
  have "fold (\<lambda>y b. b[n * 80 + y := b ! ((n + 1) * 80 + y)]) [0 ..< 80] ?b ! i = (if i < Suc n * 80 then b ! (i + 80) else b ! i)" for i
    unfolding eq using S IH Suc.prems by (auto simp del: upt_rec_numeral)
  moreover have "length (fold (\<lambda>y b. b[n * 80 + y := b ! ((n + 1) * 80 + y)]) [0 ..< 80] ?b) = length b"
    unfolding eq using S IH Suc.prems by (simp del: upt_rec_numeral)
  ultimately show ?case by (simp del: upt_rec_numeral)
qed simp

lemma rows_of_nth: "y < 25 \<Longrightarrow> x < 80 \<Longrightarrow> rows_of b ! y ! x = b ! (y * 80 + x)"
  by (simp add: rows_of_def del: upt_rec_numeral)

lemma rows_of_length [simp]: "length (rows_of b) = 25" "y < 25 \<Longrightarrow> length (rows_of b ! y) = 80"
  by (simp_all add: rows_of_def del: upt_rec_numeral)

lemma rows_eqI:
  assumes "length rs = 25" "\<And>y. y < 25 \<Longrightarrow> length (rs ! y) = 80" "\<And>y x. y < 25 \<Longrightarrow> x < 80 \<Longrightarrow> b ! (y * 80 + x) = rs ! y ! x"
  shows "rows_of b = rs"
  using assms by (intro nth_equalityI) (simp_all add: rows_of_nth)

lemma cell_index: "x < 80 \<Longrightarrow> x' < 80 \<Longrightarrow> y * 80 + x = y' * 80 + x' \<longleftrightarrow> y = y' \<and> x = (x'::nat)"
proof
  assume h: "x < 80" "x' < 80" "y * 80 + x = y' * 80 + x'"
  then have "(x + y * 80) div 80 = (x' + y' * 80) div 80" by (simp add: add.commute)
  then have "y = y'" using h(1,2) by simp
  then show "y = y' \<and> x = x'" using h(3) by simp
qed simp

lemma rows_of_put:
  assumes "length b = 2000" "r < 25" "c < 80"
  shows "rows_of (b[r * 80 + c := e]) = (rows_of b)[r := (rows_of b ! r)[c := e]]"
proof (rule rows_eqI)
  fix y x :: nat assume yx: "y < 25" "x < 80"
  have "r * 80 + c < 2000" using assms(2,3) by simp
  then show "b[r * 80 + c := e] ! (y * 80 + x) = (rows_of b)[r := (rows_of b ! r)[c := e]] ! y ! x"
    using assms yx by (auto simp: nth_list_update rows_of_nth cell_index)
next
  show "length ((rows_of b)[r := (rows_of b ! r)[c := e]] ! y) = 80" if "y < 25" for y
    using that assms by (cases "y = r") simp_all
qed simp

lemma scroll_rows:
  assumes "length (terminal_buffer t) = 2000"
  shows "rows_of (terminal_buffer (terminal_scroll t)) =
      tl (rows_of (terminal_buffer t)) @ [replicate 80 (vga_entry 0x20 (terminal_color t))]"
    "length (terminal_buffer (terminal_scroll t)) = 2000"
proof -
  let ?b = "terminal_buffer t" and ?e = "vga_entry 0x20 (terminal_color t)"
  let ?s = "fold (\<lambda>x b. fold (\<lambda>y b. b[x * 80 + y := b ! ((x + 1) * 80 + y)]) [0 ..< 80] b) [0 ..< 24] ?b"
  have S: "length ?s = 2000" "\<And>i. ?s ! i = (if i < 1920 then ?b ! (i + 80) else ?b ! i)"
    using shift_rows [of 24 ?b] assms by (simp_all del: upt_rec_numeral)
  have buf: "terminal_buffer (terminal_scroll t) = fold (\<lambda>x b. b[1920 + x := ?e]) [0 ..< 80] ?s"
    by (simp add: terminal_scroll_def Let_def del: upt_rec_numeral)
  have F: "length (terminal_buffer (terminal_scroll t)) = 2000"
    "\<And>i. terminal_buffer (terminal_scroll t) ! i = (if 1920 \<le> i \<and> i < 2000 then ?e else ?s ! i)"
    using fill_cells [of 1920 ?e 80 ?s] S(1) unfolding buf by (simp_all del: upt_rec_numeral)
  show "length (terminal_buffer (terminal_scroll t)) = 2000" by (rule F(1))
  show "rows_of (terminal_buffer (terminal_scroll t)) = tl (rows_of ?b) @ [replicate 80 ?e]"
  proof (rule rows_eqI)
    fix y x :: nat assume yx: "y < 25" "x < 80"
    show "terminal_buffer (terminal_scroll t) ! (y * 80 + x) = (tl (rows_of ?b) @ [replicate 80 ?e]) ! y ! x"
    proof (cases "y = 24")
      case True
      then show ?thesis using yx F(2) by (simp add: nth_append)
    next
      case False
      then have y: "y < 24" using yx by simp
      then have "y * 80 + x < 1920" using yx by simp
      then have "terminal_buffer (terminal_scroll t) ! (y * 80 + x) = ?b ! (y * 80 + x + 80)"
        using F(2) [of "y * 80 + x"] S(2) [of "y * 80 + x"] by simp
      also have "y * 80 + x + 80 = Suc y * 80 + x" by simp
      finally have "terminal_buffer (terminal_scroll t) ! (y * 80 + x) = ?b ! (Suc y * 80 + x)" .
      then show ?thesis using y yx rows_of_nth [of "Suc y" x ?b] by (simp add: nth_append nth_tl)
    qed
  next
    show "length ((tl (rows_of ?b) @ [replicate 80 ?e]) ! y) = 80" if "y < 25" for y
      using that rows_of_length(2) [of "Suc y" ?b] by (cases "y = 24") (simp_all add: nth_append nth_tl)
  qed simp
qed

subsection \<open>The terminal implements the screen\<close>

lemma cursor_simps [simp]:
  "terminal_row (terminal_update_cursor t) = terminal_row t" "terminal_column (terminal_update_cursor t) = terminal_column t"
  "terminal_color (terminal_update_cursor t) = terminal_color t" "terminal_buffer (terminal_update_cursor t) = terminal_buffer t"
  "terminal_anchor (terminal_update_cursor t) = terminal_anchor t" "ins (tty_ports (terminal_update_cursor t)) = ins (tty_ports t)"
  by (simp_all add: terminal_update_cursor_def Let_def)

lemma scroll_simps [simp]:
  "terminal_row (terminal_scroll t) = terminal_row t" "terminal_column (terminal_scroll t) = terminal_column t"
  "terminal_color (terminal_scroll t) = terminal_color t" "terminal_anchor (terminal_scroll t) = terminal_anchor t - 1"
  "tty_ports (terminal_scroll t) = tty_ports t"
  by (simp_all add: terminal_scroll_def Let_def)

lemma put_simps [simp]:
  "terminal_row (terminal_putentryat c e x y t) = terminal_row t" "terminal_column (terminal_putentryat c e x y t) = terminal_column t"
  "terminal_color (terminal_putentryat c e x y t) = terminal_color t" "terminal_anchor (terminal_putentryat c e x y t) = terminal_anchor t"
  "tty_ports (terminal_putentryat c e x y t) = tty_ports t"
  "terminal_buffer (terminal_putentryat c e x y t) = (terminal_buffer t)[y * 80 + x := vga_entry c e]"
  by (simp_all add: terminal_putentryat_def)

lemma next_row_refines:
  assumes "length (terminal_buffer t) = 2000" "terminal_row t < 25" "terminal_column t = 0" "terminal_anchor t < 25"
  shows "tty_ok (next_row t) \<and> screen_of (next_row t) =
      newline (vga_entry 0x20 (terminal_color t)) (rows_of (terminal_buffer t), terminal_row t, c) \<and>
    terminal_color (next_row t) = terminal_color t \<and> tty_ports (next_row t) = tty_ports t"
  using assms scroll_rows [of "t\<lparr>terminal_row := terminal_row t + 1\<rparr>"]
  by (auto simp: next_row_def Let_def tty_ok_def screen_of_def newline_def)

lemma screen_put_refines:
  assumes ok: "tty_ok t"
  shows "tty_ok (screen_put c t) \<and> screen_of (screen_put c t) = type_char (terminal_color t) c (screen_of t) \<and>
    terminal_color (screen_put c t) = terminal_color t \<and> ins (tty_ports (screen_put c t)) = ins (tty_ports t)"
proof -
  have t: "length (terminal_buffer t) = 2000" "terminal_row t < 25" "terminal_column t < 80" "terminal_anchor t < 25"
    using ok by (simp_all add: tty_ok_def)
  have upd: "tty_ok (terminal_update_cursor s) = tty_ok s" "screen_of (terminal_update_cursor s) = screen_of s" for s
    by (simp_all add: tty_ok_def screen_of_def)
  consider "c = 10" | "c = 8" "0 < terminal_column t" | "c = 8" "terminal_column t = 0" "0 < terminal_row t"
    | "c = 8" "terminal_column t = 0" "terminal_row t = 0" | "c \<noteq> 10" "c \<noteq> 8" by fastforce
  then show ?thesis
  proof cases
    case 1
    then show ?thesis
      using next_row_refines [of "t\<lparr>terminal_column := 0\<rparr>" "terminal_column t"] t
      by (simp add: screen_put_def upd type_char_def) (simp add: screen_of_def)
  next
    case 2
    then show ?thesis
      using t rows_of_put [of "terminal_buffer t" "terminal_row t" "terminal_column t - 1"]
      by (simp add: screen_put_def upd type_char_def Let_def) (simp add: screen_of_def tty_ok_def put_cell_def)
  next
    case 3
    then show ?thesis
      using t rows_of_put [of "terminal_buffer t" "terminal_row t - 1" 79]
      by (simp add: screen_put_def upd type_char_def Let_def) (simp add: screen_of_def tty_ok_def put_cell_def)
  next
    case 4
    then show ?thesis using ok by (simp add: screen_put_def type_char_def screen_of_def)
  next
    case 5
    let ?t = "terminal_putentryat c (terminal_color t) (terminal_column t) (terminal_row t) t"
    have put: "put_cell (vga_entry c (terminal_color t)) (screen_of t) = (rows_of (terminal_buffer ?t), terminal_row t, terminal_column t)"
      using t by (simp add: screen_of_def put_cell_def rows_of_put)
    show ?thesis
    proof (cases "terminal_column t + 1 = 80")
      case True
      then show ?thesis
        using 5 t put next_row_refines [of "?t\<lparr>terminal_column := 0\<rparr>" "terminal_column t"]
        by (simp add: screen_put_def upd type_char_def Let_def)
    next
      case False
      then show ?thesis
        using 5 t put by (simp add: screen_put_def upd type_char_def Let_def) (simp add: screen_of_def tty_ok_def)
    qed
  qed
qed

text \<open>The bytes on the serial line.\<close>

definition sent :: "tty \<Rightarrow> u8 list" where
  "sent t = map snd (filter (\<lambda>(p, v). p = 0x3F8) (outs (tty_ports t)))"

definition serial_text :: "u8 \<Rightarrow> u8 list" where
  "serial_text c = (if c = 9 then 9 # replicate 4 0x20 else crlf c)"

lemma sent_cursor: "sent (terminal_update_cursor t) = sent t"
  by (simp add: sent_def terminal_update_cursor_def Let_def)

lemma sent_cong: "tty_ports t = tty_ports t' \<Longrightarrow> sent t = sent t'"
  by (simp add: sent_def)

lemma sent_screen_put:
  assumes "tty_ok t"
  shows "sent (screen_put c t) = sent t"
proof -
  have nr: "tty_ports (next_row s) = tty_ports s" for s by (simp add: next_row_def Let_def)
  show ?thesis
    by (auto simp: screen_put_def sent_cursor Let_def nr intro!: sent_cong)
qed

lemma plain_refines:
  assumes ok: "tty_ok t" and ready: "line_ready (n + 2) (tty_ports t)"
  shows "\<exists>t'. terminal_put_plain c t = Some t' \<and> tty_ok t' \<and> screen_of t' = type_char (terminal_color t) c (screen_of t) \<and>
    terminal_color t' = terminal_color t \<and> line_ready n (tty_ports t') \<and> sent t' = sent t @ crlf c"
proof -
  obtain d where d: "serial_putchar c (tty_ports t) = Some d" "line_ready n d"
    "outs d = outs (tty_ports t) @ map (Pair COM1) (crlf c)" using serial_putchar_ready [OF ready] by blast
  let ?t = "t\<lparr>tty_ports := d\<rparr>"
  have okt: "tty_ok ?t" using ok by (simp add: tty_ok_def)
  have st: "sent ?t = sent t @ crlf c" by (simp add: sent_def d(3) crlf_def)
  have "screen_of ?t = screen_of t" by (simp add: screen_of_def)
  then show ?thesis
    using screen_put_refines [OF okt, of c] sent_screen_put [OF okt, of c] d(1,2) st
    by (simp add: terminal_put_plain_def echo_serial_def line_ready_def)
qed

lemma blank_refines:
  assumes "tty_ok t" and "line_ready (n + 2) (tty_ports t)"
  shows "\<exists>t'. terminal_put_plain 0x20 t = Some t' \<and> tty_ok t' \<and> screen_of t' = type_char (terminal_color t) 0x20 (screen_of t) \<and>
    terminal_color t' = terminal_color t \<and> line_ready n (tty_ports t') \<and> sent t' = sent t @ [0x20]"
  using plain_refines [OF assms, of "0x20"] by (simp add: crlf_def)

lemma putchar_refines:
  assumes ok: "tty_ok t" and ready: "line_ready (n + 10) (tty_ports t)"
  shows "\<exists>t'. terminal_putchar c t = Some t' \<and> tty_ok t' \<and> screen_of t' = type_text (terminal_color t) [c] (screen_of t) \<and>
    terminal_color t' = terminal_color t \<and> line_ready n (tty_ports t') \<and> sent t' = sent t @ serial_text c"
proof (cases "c = 9")
  case False
  have "line_ready (n + 2) (tty_ports t)" using ready by (simp add: line_ready_def)
  from plain_refines [OF ok this, of c] False show ?thesis by (auto simp: terminal_putchar_def serial_text_def)
next
  case True
  have "line_ready (n + 8 + 2) (tty_ports t)" using ready by (simp add: line_ready_def)
  from serial_putchar_ready [OF this, of 9] obtain d where d: "serial_putchar 9 (tty_ports t) = Some d" "line_ready (n + 8) d"
    "outs d = outs (tty_ports t) @ [(COM1, 9)]" by (auto simp: crlf_def)
  let ?t = "t\<lparr>tty_ports := d\<rparr>"
  have okt: "tty_ok ?t" using ok by (simp add: tty_ok_def)
  have st: "sent ?t = sent t @ [9]" by (simp add: sent_def d(3))
  have col: "terminal_color ?t = terminal_color t" "screen_of ?t = screen_of t" by (simp_all add: screen_of_def)
  have lr: "line_ready (n + 2 + 2 + 2 + 2) (tty_ports ?t)" using d(2) by (simp add: line_ready_def)
  obtain t1 where t1: "terminal_put_plain 0x20 ?t = Some t1" "tty_ok t1" "screen_of t1 = type_char (terminal_color t) 0x20 (screen_of t)"
    "terminal_color t1 = terminal_color t" "line_ready (n + 2 + 2 + 2) (tty_ports t1)" "sent t1 = sent t @ [9] @ [0x20]"
    using blank_refines [OF okt lr] unfolding st col append_assoc append_Cons append_Nil by blast
  obtain t2 where t2: "terminal_put_plain 0x20 t1 = Some t2" "tty_ok t2" "screen_of t2 = type_char (terminal_color t) 0x20 (screen_of t1)"
    "terminal_color t2 = terminal_color t" "line_ready (n + 2 + 2) (tty_ports t2)" "sent t2 = sent t1 @ [0x20]"
    using blank_refines [OF t1(2,5)] unfolding t1(4) by blast
  obtain t3 where t3: "terminal_put_plain 0x20 t2 = Some t3" "tty_ok t3" "screen_of t3 = type_char (terminal_color t) 0x20 (screen_of t2)"
    "terminal_color t3 = terminal_color t" "line_ready (n + 2) (tty_ports t3)" "sent t3 = sent t2 @ [0x20]"
    using blank_refines [OF t2(2,5)] unfolding t2(4) by blast
  obtain t4 where t4: "terminal_put_plain 0x20 t3 = Some t4" "tty_ok t4" "screen_of t4 = type_char (terminal_color t) 0x20 (screen_of t3)"
    "terminal_color t4 = terminal_color t" "line_ready n (tty_ports t4)" "sent t4 = sent t3 @ [0x20]"
    using blank_refines [OF t3(2,5)] unfolding t3(4) by blast
  have "terminal_putchar c t = Some t4"
    using True d(1) t1(1) t2(1) t3(1) t4(1) by (simp add: terminal_putchar_def echo_serial_def)
  moreover have "screen_of t4 = type_text (terminal_color t) [c] (screen_of t)"
    using True t1(3) t2(3) t3(3) t4(3) by (simp add: numeral_eq_Suc)
  moreover have "sent t4 = sent t @ serial_text c"
    using True t1(6) t2(6) t3(6) t4(6) by (simp add: serial_text_def numeral_eq_Suc)
  ultimately show ?thesis using t4 by blast
qed

lemma type_text_append: "type_text color (xs @ ys) s = type_text color ys (type_text color xs s)"
  by (induction xs arbitrary: s) simp_all

text \<open>
  C32. The terminal behaves as a screen of 25 rows of 80 cells.  From a well-formed state, on a serial
  line that accepts bytes, writing a text comes back; every write into the video memory is inside
  it and the cursor stays on the screen; the rows and the cursor are those that typing the text gives:
  a character goes to the cell at the cursor, the end of a row and a newline go to the
  next row, scrolling the screen up by one row at the bottom, a backspace blanks the previous cell, also across a row, and a tab
  is four blanks; and the serial line got the text with a carriage return before each newline.
\<close>

theorem terminal_write_screen:
  assumes "tty_ok t" and "line_ready (10 * length cs) (tty_ports t)"
  shows "\<exists>t'. terminal_write cs t = Some t' \<and> tty_ok t' \<and> screen_of t' = type_text (terminal_color t) cs (screen_of t) \<and>
    sent t' = sent t @ concat (map serial_text cs)"
proof -
  have "\<exists>t'. terminal_write cs t = Some t' \<and> tty_ok t' \<and> screen_of t' = type_text (terminal_color t) cs (screen_of t) \<and>
    sent t' = sent t @ concat (map serial_text cs) \<and> terminal_color t' = terminal_color t"
    using assms
  proof (induction cs arbitrary: t)
    case (Cons c cs)
    obtain t1 where t1: "terminal_putchar c t = Some t1" "tty_ok t1" "screen_of t1 = type_text (terminal_color t) [c] (screen_of t)"
      "terminal_color t1 = terminal_color t" "line_ready (10 * length cs) (tty_ports t1)" "sent t1 = sent t @ serial_text c"
      using putchar_refines [OF Cons.prems(1), of "10 * length cs" c] Cons.prems(2) by (auto simp: add.commute)
    from Cons.IH [OF t1(2,5)] t1 show ?case by auto
  qed simp
  then show ?thesis by blast
qed

definition tty_start :: tty where
  "tty_start = terminal_initialize \<lparr>terminal_row = 0, terminal_column = 0, terminal_color = 0,
     terminal_buffer = replicate 2000 0, terminal_anchor = 0, tty_ports = \<lparr>ins = replicate 20 0x20, outs = []\<rparr>\<rparr>"

lemma blank_rows_length: "first \<le> 25 \<Longrightarrow> length (terminal_buffer t) = 2000 \<Longrightarrow> length (terminal_buffer (blank_rows first t)) = 2000"
  using fill_rows [of first 25 "terminal_buffer t"] by (simp add: blank_rows_def del: upt_rec_numeral)

lemma tty_ok_operations:
  "length (terminal_buffer t) = 2000 \<Longrightarrow> terminal_anchor t < 25 \<Longrightarrow> tty_ok (terminal_initialize t)"
  "tty_ok t \<Longrightarrow> tty_ok (terminal_clear t)" "tty_ok t \<Longrightarrow> tty_ok (terminal_clear_to_anchor t)"
  "tty_ok t \<Longrightarrow> tty_ok (terminal_set_anchor t)" "tty_ok t \<Longrightarrow> tty_ok (terminal_setcolor e t)"
  using blank_rows_length [of 0 t] blank_rows_length [of "terminal_anchor t" t]
    blank_rows_length [of 0 "t\<lparr>terminal_row := 0, terminal_column := 0, terminal_color := vga_entry_color VGA_COLOR_LIGHT_GREY VGA_COLOR_BLACK\<rparr>"]
  by (simp_all add: tty_ok_def terminal_initialize_def terminal_clear_def terminal_clear_to_anchor_def terminal_set_anchor_def
      terminal_setcolor_def) (simp_all add: blank_rows_def)

theorem terminal_write_screen_witness:
  "\<exists>t'. terminal_write [0x61, 10] tty_start = Some t' \<and> tty_ok t' \<and> sent t' = [0x61, 13, 10] \<and> terminal_row t' = 1"
proof -
  have ok: "tty_ok tty_start" unfolding tty_start_def by (rule tty_ok_operations(1)) simp_all
  have t0: "terminal_row tty_start = 0" "terminal_column tty_start = 0" "sent tty_start = []"
    by (simp_all add: tty_start_def terminal_initialize_def sent_cursor) (simp_all add: blank_rows_def sent_def)
  have "ins (tty_ports tty_start) = replicate 20 0x20"
    by (simp add: tty_start_def terminal_initialize_def blank_rows_def del: upt_rec_numeral)
  then have ready: "line_ready (10 * length [0x61, 10 :: u8]) (tty_ports tty_start)"
    by (simp add: line_ready_def transmit_empty_def)
  obtain t' where t': "terminal_write [0x61, 10] tty_start = Some t'" "tty_ok t'"
    "screen_of t' = type_text (terminal_color tty_start) [0x61, 10] (screen_of tty_start)"
    "sent t' = sent tty_start @ concat (map serial_text [0x61, 10])"
    using terminal_write_screen [OF ok ready] by blast
  have "terminal_row t' = fst (snd (screen_of t'))" by (simp add: screen_of_def)
  also have "\<dots> = 1" unfolding t'(3) using t0 by (simp add: type_char_def screen_of_def put_cell_def newline_def)
  finally show ?thesis using t' t0 by (simp add: serial_text_def crlf_def)
qed

end
