(* ===== verification/Umem.thy ===== *)
theory Umem
  imports Machine
begin

text \<open>
  A user program's view of the machine, for the C library: its memory, the break, and
  \<open>errno\<close>.  The bytes a program may touch are those of its own segments (\<open>useg\<close>: code, data and
  stack) and the pages of the heap from \<open>ubase\<close> up to the break; any other access is a page fault, for which the
  kernel ends the process (None).  What \<open>sbrk\<close> does to this view is the growing and shrinking of
  \<open>sys_sbrk\<close> (theory User_Memory proves the growing from the kernel's page tables); whether the kernel finds
  the frames for a request is not the program's to know, so the answers are a list (\<open>grants\<close>).  Pages
  that a request without enough frames leaves mapped are above the break, where the program has no business.
\<close>

record umem =
  um :: "u32 \<Rightarrow> u8"
  useg :: "u32 \<Rightarrow> bool"
  ubase :: u32
  ubrk :: u32
  grants :: "bool list"
  uerrno :: u32
  uhead :: u32

definition heap_top :: "umem \<Rightarrow> nat" where
  "heap_top s = unat (page_up (ubrk s))"

definition accessible :: "umem \<Rightarrow> u32 \<Rightarrow> bool" where
  "accessible s a \<longleftrightarrow> useg s a \<or> (ubase s \<le> a \<and> unat a < heap_top s)"

definition accessible4 :: "umem \<Rightarrow> u32 \<Rightarrow> bool" where
  "accessible4 s a \<longleftrightarrow> accessible s a \<and> accessible s (a + 1) \<and> accessible s (a + 2) \<and> accessible s (a + 3)"

definition ld8 :: "u32 \<Rightarrow> umem \<Rightarrow> u8 option" where
  "ld8 a s = (if accessible s a then Some (um s a) else None)"

definition st8 :: "u32 \<Rightarrow> u8 \<Rightarrow> umem \<Rightarrow> umem option" where
  "st8 a v s = (if accessible s a then Some (s\<lparr>um := (um s)(a := v)\<rparr>) else None)"

definition ld32 :: "u32 \<Rightarrow> umem \<Rightarrow> u32 option" where
  "ld32 a s = (if accessible4 s a then Some (read32 (um s) a) else None)"

definition st32 :: "u32 \<Rightarrow> u32 \<Rightarrow> umem \<Rightarrow> umem option" where
  "st32 a v s = (if accessible4 s a then Some (s\<lparr>um := write32 (um s) a v\<rparr>) else None)"

text \<open>\<open>memset\<close> and \<open>memcpy\<close> on it, byte by byte upwards.\<close>

fun umemset :: "u32 \<Rightarrow> u8 \<Rightarrow> nat \<Rightarrow> umem \<Rightarrow> umem option" where
  "umemset a v 0 s = Some s"
| "umemset a v (Suc n) s = Option.bind (st8 a v s) (umemset (a + 1) v n)"

fun umemcpy :: "u32 \<Rightarrow> u32 \<Rightarrow> nat \<Rightarrow> umem \<Rightarrow> umem option" where
  "umemcpy d a 0 s = Some s"
| "umemcpy d a (Suc n) s = do { v \<leftarrow> ld8 a s; s \<leftarrow> st8 d v s; umemcpy (d + 1) (a + 1) n s }"

subsection \<open>The break\<close>

definition ENOMEM :: u32 where "ENOMEM = 12"
definition EINVAL :: u32 where "EINVAL = 22"

text \<open>
  \<open>sys_sbrk\<close> as the program sees it: the pages between the old and the new break are zeroed when it
  grows and not there any more when it shrinks, also where the break goes below the base of the heap.
\<close>

definition kernel_sbrk :: "u32 \<Rightarrow> umem \<Rightarrow> u32 \<times> umem" where
  "kernel_sbrk inc s =
     (let old = ubrk s; want = old + inc in
      if sint inc = 0 then (old, s)
      else if 0 < sint inc then
        (if want < old \<or> want > 0xB0000000 then (- ENOMEM, s)
         else (case grants s of
             True # g \<Rightarrow> (old, s\<lparr>ubrk := want, grants := g,
               um := (\<lambda>a. if page_up old \<le> a \<and> a < page_up want then 0 else um s a)\<rparr>)
           | False # g \<Rightarrow> (- ENOMEM, s\<lparr>grants := g\<rparr>)
           | [] \<Rightarrow> (- ENOMEM, s)))
      else if want > old then (- EINVAL, s)
      else (old, s\<lparr>ubrk := want, useg := (\<lambda>a. useg s a \<and> \<not> (page_up want \<le> page_down a \<and> page_down a < old))\<rparr>))"

text \<open>The library's \<open>sbrk\<close>, \<open>libc/unistd/sbrk.c\<close>.\<close>

definition sbrk :: "u32 \<Rightarrow> umem \<Rightarrow> u32 \<times> umem" where
  "sbrk inc s =
     (let (ret, s) = kernel_sbrk inc s
      in if sint ret < 0 then (- 1, s\<lparr>uerrno := - ret\<rparr>) else (ret, s))"

subsection \<open>Access inside the heap\<close>

lemma unat_add_less: "unat (a::u32) + k < 4294967296 \<Longrightarrow> unat (a + of_nat k) = unat a + k"
  by (simp add: unat_word_ariths unat_of_nat)

lemma unat_add_const:
  "unat (a::u32) + 4 \<le> 4294967296 \<Longrightarrow> unat (a + 1) = unat a + 1 \<and> unat (a + 2) = unat a + 2 \<and> unat (a + 3) = unat a + 3"
  by (simp add: unat_word_ariths)

lemma sint_neg_unat: "sint (w::u32) < 0 \<longleftrightarrow> 2147483648 \<le> unat w"
proof -
  obtain n where n: "unat w = n" "n < 4294967296" using unat_less_2p32 [of w] by blast
  have "uint w = int n" using n(1) by auto
  then show ?thesis unfolding sint_sign n(1) using n(2) by (simp split: if_splits)
qed

lemma heap_top_ge: "unat (ubrk s) \<le> 0xB0000000 \<Longrightarrow> unat (ubrk s) \<le> heap_top s"
  using div_mult_mod_eq [of "unat (ubrk s) + 4095" 4096] by (simp add: heap_top_def unat_page_up)

definition in_heap :: "umem \<Rightarrow> u32 \<Rightarrow> nat \<Rightarrow> bool" where
  "in_heap s a n \<longleftrightarrow> unat (ubase s) \<le> unat a \<and> unat a + n \<le> unat (ubrk s) \<and> unat (ubrk s) \<le> 0xB0000000"

lemma in_heap_accessible: "in_heap s a n \<Longrightarrow> k < n \<Longrightarrow> accessible s (a + of_nat k)"
  using heap_top_ge [of s] unat_add_less [of a k]
  by (auto simp: in_heap_def accessible_def word_le_nat_alt)

lemma in_heap_accessible4: "in_heap s a 4 \<Longrightarrow> accessible4 s a"
  using in_heap_accessible [of s a 4 0] in_heap_accessible [of s a 4 1] in_heap_accessible [of s a 4 2]
    in_heap_accessible [of s a 4 3] by (simp add: accessible4_def)

lemma ld32_in: "in_heap s a 4 \<Longrightarrow> ld32 a s = Some (read32 (um s) a)"
  by (simp add: ld32_def in_heap_accessible4)

lemma st32_in: "in_heap s a 4 \<Longrightarrow> st32 a v s = Some (s\<lparr>um := write32 (um s) a v\<rparr>)"
  by (simp add: st32_def in_heap_accessible4)

lemma in_heap_um [simp]: "in_heap (s\<lparr>um := m\<rparr>) a n = in_heap s a n"
  by (simp add: in_heap_def)

lemma in_heap_sub: "in_heap s a n \<Longrightarrow> k + j \<le> n \<Longrightarrow> in_heap s (a + of_nat k) j"
  using unat_add_less [of a k] by (auto simp: in_heap_def)

lemma umemset_in:
  "in_heap s a n \<Longrightarrow> \<exists>m. umemset a v n s = Some (s\<lparr>um := m\<rparr>) \<and> (\<forall>k < n. m (a + of_nat k) = v) \<and>
     (\<forall>y. unat y < unat a \<or> unat a + n \<le> unat y \<longrightarrow> m y = um s y)"
proof (induction n arbitrary: a s)
  case 0
  show ?case by (intro exI [of _ "um s"]) simp
next
  case (Suc n)
  have h: "in_heap s a (Suc n)" by fact
  then have acc: "accessible s a" using in_heap_accessible [of s a "Suc n" 0] by simp
  let ?s = "s\<lparr>um := (um s)(a := v)\<rparr>"
  have "in_heap ?s (a + 1) n" using in_heap_sub [of s a "Suc n" 1 n] h by simp
  from Suc.IH [OF this] obtain m where m: "umemset (a + 1) v n ?s = Some (s\<lparr>um := m\<rparr>)"
    "\<And>k. k < n \<Longrightarrow> m (a + 1 + of_nat k) = v"
    "\<And>y. unat y < unat (a + 1) \<or> unat (a + 1) + n \<le> unat y \<Longrightarrow> m y = (if y = a then v else um s y)" by auto
  have u: "unat (a + 1) = unat a + 1" using h unat_add_less [of a 1] by (simp add: in_heap_def)
  have "m (a + of_nat k) = v" if "k < Suc n" for k
  proof (cases k)
    case 0
    then show ?thesis using m(3) [of a] u by simp
  next
    case (Suc j)
    then show ?thesis using m(2) [of j] that by (simp add: add.assoc)
  qed
  moreover have "m y = um s y" if "unat y < unat a \<or> unat a + Suc n \<le> unat y" for y
    using m(3) [of y] that u by auto
  moreover have "umemset a v (Suc n) s = Some (s\<lparr>um := m\<rparr>)" using m(1) acc by (simp add: st8_def)
  ultimately show ?case by blast
qed

lemma umemcpy_in:
  "in_heap s a n \<Longrightarrow> in_heap s d n \<Longrightarrow> unat a + n \<le> unat d \<or> unat d + n \<le> unat a \<Longrightarrow>
     \<exists>m. umemcpy d a n s = Some (s\<lparr>um := m\<rparr>) \<and> (\<forall>k < n. m (d + of_nat k) = um s (a + of_nat k)) \<and>
     (\<forall>y. unat y < unat d \<or> unat d + n \<le> unat y \<longrightarrow> m y = um s y)"
proof (induction n arbitrary: a d s)
  case 0
  show ?case by (intro exI [of _ "um s"]) simp
next
  case (Suc n)
  have h: "in_heap s a (Suc n)" "in_heap s d (Suc n)" by fact+
  then have acc: "accessible s a" "accessible s d"
    using in_heap_accessible [of s a "Suc n" 0] in_heap_accessible [of s d "Suc n" 0] by simp_all
  let ?s = "s\<lparr>um := (um s)(d := um s a)\<rparr>"
  have ua: "unat (a + 1) = unat a + 1" and ud: "unat (d + 1) = unat d + 1"
    using h unat_add_less [of a 1] unat_add_less [of d 1] by (simp_all add: in_heap_def)
  have "in_heap ?s (a + 1) n" "in_heap ?s (d + 1) n"
    using in_heap_sub [of s a "Suc n" 1 n] in_heap_sub [of s d "Suc n" 1 n] h by simp_all
  moreover have "unat (a + 1) + n \<le> unat (d + 1) \<or> unat (d + 1) + n \<le> unat (a + 1)"
    using Suc.prems(3) ua ud by auto
  ultimately obtain m where m: "umemcpy (d + 1) (a + 1) n ?s = Some (s\<lparr>um := m\<rparr>)"
    "\<And>k. k < n \<Longrightarrow> m (d + 1 + of_nat k) = ((um s)(d := um s a)) (a + 1 + of_nat k)"
    "\<And>y. unat y < unat (d + 1) \<or> unat (d + 1) + n \<le> unat y \<Longrightarrow> m y = (if y = d then um s a else um s y)"
    using Suc.IH [of ?s "a + 1" "d + 1"] by auto
  have "m (d + of_nat k) = um s (a + of_nat k)" if k: "k < Suc n" for k
  proof (cases k)
    case 0
    then show ?thesis using m(3) [of d] ud by simp
  next
    case (Suc j)
    have "unat (a + of_nat k) = unat a + k" using h(1) k unat_add_less [of a k] by (simp add: in_heap_def)
    then have "a + of_nat k \<noteq> d" using Suc.prems(3) k Suc by auto
    then show ?thesis using m(2) [of j] k Suc by (simp add: add.assoc)
  qed
  moreover have "m y = um s y" if "unat y < unat d \<or> unat d + Suc n \<le> unat y" for y
    using m(3) [of y] that ud by auto
  moreover have "umemcpy d a (Suc n) s = Some (s\<lparr>um := m\<rparr>)" using m(1) acc by (simp add: st8_def ld8_def)
  ultimately show ?case by blast
qed

end
