(* ===== verification/Malloc.thy ===== *)
theory Malloc
  imports Umem
begin

text \<open>
  The C library's heap, \<open>libc/stdlib/malloc.c\<close>: a linked list of blocks in the memory that \<open>sbrk\<close>
  gives, each a header of three words (\<open>size\<close>, \<open>next\<close>, \<open>free\<close>) at offsets 0, 4 and 8 followed by its
  payload.  The headers live in the byte memory next to the payloads, so that nothing but the
  allocator's own arithmetic keeps them apart.  The loops follow the \<open>next\<close> pointers and need not end on
  a list that is not one, hence \<open>partial_function\<close>.
\<close>

abbreviation (input) HDR :: u32 where "HDR \<equiv> 12"

subsection \<open>The code\<close>

partial_function (option) find_from :: "u32 \<Rightarrow> u32 \<Rightarrow> umem \<Rightarrow> u32 option" where
  "find_from b sz s =
     (if b = 0 then Some 0
      else do {
        f \<leftarrow> ld32 (b + 8) s;
        hit \<leftarrow> (if f = 0 then Some False else map_option (\<lambda>n. sz \<le> n) (ld32 b s));
        if hit then Some b else do { nx \<leftarrow> ld32 (b + 4) s; find_from nx sz s }
      })"

definition find_free :: "u32 \<Rightarrow> umem \<Rightarrow> u32 option" where
  "find_free sz s = find_from (uhead s) sz s"

partial_function (option) last_block :: "u32 \<Rightarrow> umem \<Rightarrow> u32 option" where
  "last_block b s = do { nx \<leftarrow> ld32 (b + 4) s; if nx = 0 then Some b else last_block nx s }"

definition grow :: "u32 \<Rightarrow> umem \<Rightarrow> (u32 \<times> umem) option" where
  "grow sz s =
     (let need = page_up (sz + HDR); (p, s) = sbrk need s in
      if p = - 1 \<or> p = 0 then Some (0, s)
      else do {
        s \<leftarrow> st32 p (need - HDR) s;
        s \<leftarrow> st32 (p + 4) 0 s;
        s \<leftarrow> st32 (p + 8) 0 s;
        if uhead s = 0 then Some (p, s\<lparr>uhead := p\<rparr>)
        else do { l \<leftarrow> last_block (uhead s) s; s \<leftarrow> st32 (l + 4) p s; Some (p, s) }
      })"

definition split_block :: "u32 \<Rightarrow> u32 \<Rightarrow> umem \<Rightarrow> umem option" where
  "split_block b sz s = do {
     n \<leftarrow> ld32 b s;
     if n < sz + HDR + 8 then Some s
     else
       (let rest = b + HDR + sz in do {
          s \<leftarrow> st32 rest (n - sz - HDR) s;
          nx \<leftarrow> ld32 (b + 4) s;
          s \<leftarrow> st32 (rest + 4) nx s;
          s \<leftarrow> st32 (rest + 8) 1 s;
          s \<leftarrow> st32 b sz s;
          st32 (b + 4) rest s
        })
   }"

definition malloc :: "u32 \<Rightarrow> umem \<Rightarrow> (u32 \<times> umem) option" where
  "malloc sz s =
     (if sz = 0 then Some (0, s)
      else
        (let sz = (sz + 7) AND NOT 7 in do {
           b \<leftarrow> find_free sz s;
           if b \<noteq> 0 then do {
             s \<leftarrow> split_block b sz s;
             s \<leftarrow> st32 (b + 8) 0 s;
             Some (b + HDR, s)
           }
           else do {
             (b, s) \<leftarrow> grow sz s;
             if b = 0 then Some (0, s) else do { s \<leftarrow> split_block b sz s; Some (b + HDR, s) }
           }
         }))"

partial_function (option) coalesce :: "u32 \<Rightarrow> umem \<Rightarrow> umem option" where
  "coalesce b s = do {
     nx \<leftarrow> ld32 (b + 4) s;
     if nx = 0 then Some s
     else do {
       f \<leftarrow> ld32 (nx + 8) s;
       if f = 0 then Some s
       else do {
         n \<leftarrow> ld32 b s;
         if b + HDR + n \<noteq> nx then Some s
         else do {
           n' \<leftarrow> ld32 nx s;
           s \<leftarrow> st32 b (n + (HDR + n')) s;
           nx' \<leftarrow> ld32 (nx + 4) s;
           s \<leftarrow> st32 (b + 4) nx' s;
           coalesce b s
         }
       }
     }
   }"

definition free_block :: "u32 \<Rightarrow> umem \<Rightarrow> umem option" where
  "free_block ptr s =
     (if ptr = 0 then Some s else do { s \<leftarrow> st32 (ptr - HDR + 8) 1 s; coalesce (ptr - HDR) s })"

definition calloc :: "u32 \<Rightarrow> u32 \<Rightarrow> umem \<Rightarrow> (u32 \<times> umem) option" where
  "calloc n sz s =
     (let t = n * sz in
      if n \<noteq> 0 \<and> t div n \<noteq> sz then Some (0, s)
      else do {
        (p, s) \<leftarrow> malloc t s;
        if p = 0 then Some (p, s) else do { s \<leftarrow> umemset p 0 (unat t) s; Some (p, s) }
      })"

definition realloc :: "u32 \<Rightarrow> u32 \<Rightarrow> umem \<Rightarrow> (u32 \<times> umem) option" where
  "realloc ptr sz s =
     (if ptr = 0 then malloc sz s
      else if sz = 0 then do { s \<leftarrow> free_block ptr s; Some (0, s) }
      else do {
        n \<leftarrow> ld32 (ptr - HDR) s;
        if sz \<le> n then Some (ptr, s)
        else do {
          (np, s) \<leftarrow> malloc sz s;
          if np = 0 then Some (np, s)
          else do {
            n \<leftarrow> ld32 (ptr - HDR) s;
            s \<leftarrow> umemcpy np ptr (unat n) s;
            s \<leftarrow> free_block ptr s;
            Some (np, s)
          }
        }
      })"

subsection \<open>The list of blocks\<close>

text \<open>\<open>(b, n, f)\<close>: a header at \<open>b\<close>, a payload of \<open>n\<close> bytes, free or not.\<close>

type_synonym blk = "u32 \<times> u32 \<times> bool"

text \<open>The blocks from pointer \<open>a\<close> to pointer \<open>e\<close>, in the memory \<open>m\<close>.\<close>

fun blks :: "(u32 \<Rightarrow> u8) \<Rightarrow> u32 \<Rightarrow> blk list \<Rightarrow> u32 \<Rightarrow> bool" where
  "blks m a [] e = (a = e)"
| "blks m a ((b, n, f) # bs) e =
     (a = b \<and> b \<noteq> 0 \<and> read32 m b = n \<and> (read32 m (b + 8) \<noteq> 0) = f \<and> blks m (read32 m (b + 4)) bs e)"

text \<open>Headers and payloads lie one after the other, between \<open>lo\<close> and \<open>hi\<close>, on word boundaries.\<close>

fun tiles :: "nat \<Rightarrow> blk list \<Rightarrow> nat \<Rightarrow> bool" where
  "tiles lo [] hi = (lo \<le> hi)"
| "tiles lo ((b, n, f) # bs) hi =
     (lo \<le> unat b \<and> unat b mod 4 = 0 \<and> unat n mod 4 = 0 \<and> tiles (unat b + 12 + unat n) bs hi)"

lemma blks_append: "blks m a (xs @ ys) e \<longleftrightarrow> (\<exists>b. blks m a xs b \<and> blks m b ys e)"
  by (induction xs arbitrary: a) auto

lemma tiles_le: "tiles lo bs hi \<Longrightarrow> lo \<le> hi"
  by (induction lo bs hi rule: tiles.induct) auto

lemma tiles_weaken: "tiles lo bs hi \<Longrightarrow> lo' \<le> lo \<Longrightarrow> tiles lo' bs hi"
  by (cases bs) auto

lemma tiles_extend: "tiles lo bs hi \<Longrightarrow> hi \<le> hi' \<Longrightarrow> tiles lo bs hi'"
  by (induction lo bs hi rule: tiles.induct) auto

lemma tiles_append:
  "tiles lo (xs @ (b, n, f) # ys) hi \<longleftrightarrow> tiles lo xs (unat b) \<and> tiles (unat b) ((b, n, f) # ys) hi"
  by (induction xs arbitrary: lo) (auto dest: tiles_le)

text \<open>The list does not see changes outside its headers; a change inside one block leaves the others alone.\<close>

lemma blks_frame:
  assumes "tiles lo bs hi" and "hi \<le> 4294967296" and "\<And>y. lo \<le> unat y \<Longrightarrow> unat y < hi \<Longrightarrow> m' y = m y"
  shows "blks m' a bs e = blks m a bs e"
  using assms
proof (induction lo bs hi arbitrary: a rule: tiles.induct)
  case (2 lo b n f bs hi)
  have t: "lo \<le> unat b" "tiles (unat b + 12 + unat n) bs hi" using "2.prems"(1) by simp_all
  from tiles_le [OF t(2)] have le: "unat b + 12 \<le> hi" by simp
  have eq: "m' (b + of_nat k) = m (b + of_nat k)" if "k < 12" for k
    using "2.prems"(2,3) le t(1) that unat_add_less [of b k] by (intro "2.prems"(3)) simp_all
  have "read32 m' (b + of_nat j) = read32 m (b + of_nat j)" if "j \<le> 8" for j
    using eq [of "j + k" for k] that by (intro read32_cong) (auto simp: add.assoc)
  from this [of 0] this [of 4] this [of 8] have r: "read32 m' b = read32 m b" "read32 m' (b + 4) = read32 m (b + 4)"
    "read32 m' (b + 8) = read32 m (b + 8)" by simp_all
  have "blks m' x bs e = blks m x bs e" for x
    using "2.IH" [OF t(2) "2.prems"(2)] "2.prems"(3) t(1) by simp
  then show ?case by (simp add: r)
qed simp

definition heap_ok :: "umem \<Rightarrow> blk list \<Rightarrow> bool" where
  "heap_ok s bs \<longleftrightarrow> blks (um s) (uhead s) bs 0 \<and> tiles (unat (ubase s)) bs (unat (ubrk s)) \<and>
     0 < ubase s \<and> unat (ubrk s) mod 4 = 0 \<and> unat (ubrk s) \<le> 0xB0000000"

text \<open>The blocks in use, each with the address the program has for it.\<close>

definition live :: "blk list \<Rightarrow> (u32 \<times> u32) set" where
  "live bs = {(b + HDR, n) |b n. (b, n, False) \<in> set bs}"

text \<open>Nothing in them has changed.\<close>

definition quiet :: "blk list \<Rightarrow> (u32 \<Rightarrow> u8) \<Rightarrow> (u32 \<Rightarrow> u8) \<Rightarrow> bool" where
  "quiet bs m m' \<longleftrightarrow> (\<forall>(p, n) \<in> live bs. \<forall>i < unat n. m' (p + of_nat i) = m (p + of_nat i))"

lemma live_simps [simp]:
  "live [] = {}" "live ((b, n, f) # bs) = (if f then live bs else insert (b + HDR, n) (live bs))"
  "live (xs @ ys) = live xs \<union> live ys"
  by (auto simp: live_def)

lemma tiles_join: "tiles lo xs mid \<Longrightarrow> tiles mid ys hi \<Longrightarrow> tiles lo (xs @ ys) hi"
  by (induction lo xs mid rule: tiles.induct) (auto intro: tiles_weaken)

lemma tiles_member:
  "tiles lo bs hi \<Longrightarrow> (b, n, f) \<in> set bs \<Longrightarrow> lo \<le> unat b \<and> unat b + 12 + unat n \<le> hi"
proof (induction lo bs hi rule: tiles.induct)
  case (2 lo b' n' f' bs hi)
  then show ?case by (auto dest: tiles_le)
qed simp

lemma quiet_trans: "quiet bs m m' \<Longrightarrow> quiet bs m' m'' \<Longrightarrow> quiet bs m m''"
  by (auto simp: quiet_def split_beta)

lemma quiet_refl [simp]: "quiet bs m m"
  by (simp add: quiet_def split_beta)

lemma quiet_Nil [simp]: "quiet [] m m'"
  by (simp add: quiet_def)

lemma quiet_subset: "quiet bs m m' \<Longrightarrow> live bs' \<subseteq> live bs \<Longrightarrow> quiet bs' m m'"
  by (auto simp: quiet_def)

lemma quiet_tiles:
  assumes "tiles lo bs hi" and "hi \<le> 4294967296" and "\<And>y. lo \<le> unat y \<Longrightarrow> unat y < hi \<Longrightarrow> m' y = m y"
  shows "quiet bs m m'"
  unfolding quiet_def
proof safe
  fix p n i assume "(p, n) \<in> live bs" and i: "i < unat n"
  then obtain b where b: "p = b + HDR" "(b, n, False) \<in> set bs" by (auto simp: live_def)
  note t = tiles_member [OF assms(1) b(2)]
  have "unat (b + of_nat (12 + i)) = unat b + (12 + i)" using t i assms(2) by (intro unat_add_less) simp
  then show "m' (p + of_nat i) = m (p + of_nat i)"
    using t i b(1) by (intro assms(3)) (simp_all add: add.assoc)
qed

text \<open>A block of the heap and what surrounds it.\<close>

lemma heap_split:
  assumes "heap_ok s (xs @ (b, n, f) # ys)"
  shows "blks (um s) (uhead s) xs b" "b \<noteq> 0" "read32 (um s) b = n" "(read32 (um s) (b + 8) \<noteq> 0) = f"
    "blks (um s) (read32 (um s) (b + 4)) ys 0" "tiles (unat (ubase s)) xs (unat b)"
    "tiles (unat b + 12 + unat n) ys (unat (ubrk s))" "unat b mod 4 = 0" "unat n mod 4 = 0"
    "in_heap s b (12 + unat n)"
proof -
  have t: "tiles (unat (ubase s)) xs (unat b)" "tiles (unat b) ((b, n, f) # ys) (unat (ubrk s))"
    using assms by (simp_all add: heap_ok_def tiles_append)
  show "tiles (unat (ubase s)) xs (unat b)" by fact
  show t2: "tiles (unat b + 12 + unat n) ys (unat (ubrk s))" "unat b mod 4 = 0" "unat n mod 4 = 0" using t(2) by simp_all
  show "in_heap s b (12 + unat n)"
    using assms tiles_le [OF t(1)] tiles_le [OF t2(1)] by (simp add: in_heap_def heap_ok_def)
qed (use assms in \<open>auto simp: heap_ok_def blks_append\<close>)

text \<open>Rewriting the memory between \<open>b\<close> and \<open>top\<close> into other blocks.\<close>

lemma heap_join:
  assumes ok: "heap_ok s bs"
    and old: "blks (um s) (uhead s) xs b" "blks (um s) nx ys 0" "tiles (unat (ubase s)) xs (unat b)" "tiles tp ys (unat (ubrk s))"
    and outside: "\<And>y. unat y < unat b \<or> tp \<le> unat y \<Longrightarrow> m y = um s y"
    and new: "blks m b zs nx" "tiles (unat b) zs tp"
  shows "heap_ok (s\<lparr>um := m\<rparr>) (xs @ zs @ ys)" "quiet (xs @ ys) (um s) m"
proof -
  have brk: "unat (ubrk s) \<le> 4294967296" using ok by (simp add: heap_ok_def)
  have b: "unat b \<le> 4294967296" using unat_less_2p32 [of b] by simp
  have "blks m (uhead s) xs b = blks (um s) (uhead s) xs b" by (rule blks_frame [OF old(3) b]) (simp add: outside)
  moreover have "blks m nx ys 0 = blks (um s) nx ys 0" by (rule blks_frame [OF old(4) brk]) (simp add: outside)
  moreover have "tiles (unat (ubase s)) (xs @ zs @ ys) (unat (ubrk s))"
    by (rule tiles_join [OF old(3) tiles_join [OF new(2) old(4)]])
  ultimately show "heap_ok (s\<lparr>um := m\<rparr>) (xs @ zs @ ys)"
    using ok old new(1) by (auto simp: heap_ok_def blks_append)
  have "quiet xs (um s) m" by (rule quiet_tiles [OF old(3) b]) (simp add: outside)
  moreover have "quiet ys (um s) m" by (rule quiet_tiles [OF old(4) brk]) (simp add: outside)
  ultimately show "quiet (xs @ ys) (um s) m" by (auto simp: quiet_def)
qed

lemma heap_um_id: "s\<lparr>um := um s\<rparr> = (s::umem)" by simp

text \<open>The words of a header.\<close>

lemma header_words:
  assumes "in_heap s b 12" "unat b mod 4 = 0"
  shows "aligned4 b" "aligned4 (b + 4)" "aligned4 (b + 8)" "unat (b + 4) = unat b + 4" "unat (b + 8) = unat b + 8"
    "in_heap s b 4" "in_heap s (b + 4) 4" "in_heap s (b + 8) 4"
proof -
  have u: "unat (b + 4) = unat b + 4" "unat (b + 8) = unat b + 8"
    using assms(1) unat_add_less [of b 4] unat_add_less [of b 8] by (simp_all add: in_heap_def)
  then show "unat (b + 4) = unat b + 4" "unat (b + 8) = unat b + 8" by auto
  show "aligned4 b" "aligned4 (b + 4)" "aligned4 (b + 8)" using assms(2) u by (simp_all add: aligned4_def mod_add_eq [symmetric])
qed (use assms(1) in_heap_sub [of s b 12 0 4] in_heap_sub [of s b 12 4 4] in_heap_sub [of s b 12 8 4] in simp_all)

lemma write32_outside:
  assumes "unat a + 4 \<le> 4294967296" "unat y < unat a \<or> unat a + 4 \<le> unat y"
  shows "write32 m a v y = m y"
proof (rule write32_other, intro allI impI notI)
  fix k :: nat assume "k < 4" "y = a + of_nat k"
  then show False using unat_add_less [of a k] assms by simp
qed

lemma read32_outside:
  assumes "aligned4 a" "aligned4 b" "unat a \<noteq> unat b"
  shows "read32 (write32 m a v) b = read32 m b"
  using assms by (intro read32_write32_other) auto

subsection \<open>The walks and the changes of one block\<close>

lemma heap_member:
  assumes "heap_ok s bs" "(b, n, f) \<in> set bs"
  shows "in_heap s b (12 + unat n)" "unat b mod 4 = 0" "in_heap s b 12"
proof -
  obtain xs ys where bs: "bs = xs @ (b, n, f) # ys" using split_list [OF assms(2)] by blast
  show "in_heap s b (12 + unat n)" "unat b mod 4 = 0" using heap_split [OF assms(1) [unfolded bs]] by simp_all
  then show "in_heap s b 12" by (simp add: in_heap_def)
qed

text \<open>First fit.\<close>

fun first_fit :: "u32 \<Rightarrow> blk list \<Rightarrow> u32" where
  "first_fit sz [] = 0"
| "first_fit sz ((b, n, f) # bs) = (if f \<and> sz \<le> n then b else first_fit sz bs)"

lemma first_fit_split:
  "first_fit sz bs \<noteq> 0 \<Longrightarrow> \<exists>xs n ys. bs = xs @ (first_fit sz bs, n, True) # ys \<and> sz \<le> n"
proof (induction bs)
  case (Cons x bs)
  obtain b n f where x: "x = (b, n, f)" by (cases x)
  show ?case
  proof (cases "f \<and> sz \<le> n")
    case True
    then show ?thesis using x by (intro exI [of _ "[]"]) simp
  next
    case False
    then obtain xs m ys where "bs = xs @ (first_fit sz bs, m, True) # ys" "sz \<le> m" using Cons x by auto
    then show ?thesis using False x by (intro exI [of _ "x # xs"] exI [of _ m] exI [of _ ys]) auto
  qed
qed simp

lemma find_from_ok:
  assumes "blks (um s) a bs 0" and "\<And>b n f. (b, n, f) \<in> set bs \<Longrightarrow> in_heap s b 12 \<and> unat b mod 4 = 0"
  shows "find_from a sz s = Some (first_fit sz bs)"
  using assms
proof (induction bs arbitrary: a)
  case Nil
  then show ?case by (simp add: find_from.simps)
next
  case (Cons x bs)
  obtain b n f where x: "x = (b, n, f)" by (cases x)
  have a: "a = b" "b \<noteq> 0" "read32 (um s) b = n" "(read32 (um s) (b + 8) \<noteq> 0) = f" "blks (um s) (read32 (um s) (b + 4)) bs 0"
    using Cons.prems(1) x by simp_all
  have "in_heap s b 12" "unat b mod 4 = 0" using Cons.prems(2) [of b n f] x by simp_all
  note w = header_words [OF this]
  have ld: "ld32 b s = Some n" "ld32 (b + 4) s = Some (read32 (um s) (b + 4))" "ld32 (b + 8) s = Some (read32 (um s) (b + 8))"
    using w(6-8) a(3) by (simp_all add: ld32_in)
  have "find_from (read32 (um s) (b + 4)) sz s = Some (first_fit sz bs)"
    by (rule Cons.IH [OF a(5)]) (use Cons.prems(2) in auto)
  then show ?case using a(1,2,4) x ld by (subst find_from.simps) auto
qed

lemma last_block_ok:
  assumes "blks (um s) a (xs @ [(b, n, f)]) 0" and "\<And>b' n' f'. (b', n', f') \<in> set (xs @ [(b, n, f)]) \<Longrightarrow> in_heap s b' 12 \<and> unat b' mod 4 = 0"
  shows "last_block a s = Some b"
  using assms
proof (induction xs arbitrary: a)
  case Nil
  then have "in_heap s b 12" "unat b mod 4 = 0" by auto
  note w = header_words [OF this]
  show ?case using Nil(1) ld32_in [OF w(7)] by (subst last_block.simps) simp
next
  case (Cons x xs)
  obtain b' n' f' where x: "x = (b', n', f')" by (cases x)
  have "in_heap s b' 12" "unat b' mod 4 = 0" using Cons.prems(2) [of b' n' f'] x by auto
  note w = header_words [OF this]
  have nx: "a = b'" "blks (um s) (read32 (um s) (b' + 4)) (xs @ [(b, n, f)]) 0" using Cons.prems(1) x by simp_all
  have ne: "read32 (um s) (b' + 4) \<noteq> 0" using nx(2) by (cases xs) auto
  have "last_block (read32 (um s) (b' + 4)) s = Some b"
    by (rule Cons.IH [OF nx(2)]) (use Cons.prems(2) in auto)
  then show ?case using ne nx(1) ld32_in [OF w(7)] by (subst last_block.simps) simp
qed

lemma set_free_ok:
  assumes ok: "heap_ok s (xs @ (b, n, f) # ys)"
  shows "\<exists>m. st32 (b + 8) v s = Some (s\<lparr>um := m\<rparr>) \<and> heap_ok (s\<lparr>um := m\<rparr>) (xs @ (b, n, v \<noteq> 0) # ys) \<and>
    quiet (xs @ ys) (um s) m \<and> (\<forall>y. unat y < unat b \<or> unat b + 12 \<le> unat y \<longrightarrow> m y = um s y)"
proof -
  note h = heap_split [OF ok]
  have h12: "in_heap s b 12" using h(10) by (simp add: in_heap_def)
  note w = header_words [OF h12 h(8)]
  let ?m = "write32 (um s) (b + 8) v"
  have le: "unat b + 12 \<le> 4294967296" using h12 by (simp add: in_heap_def)
  have out: "?m y = um s y" if "unat y < unat b \<or> unat b + 12 \<le> unat y" for y
    using that w(5) le by (intro write32_outside) auto
  have rd: "read32 ?m b = n" "read32 ?m (b + 8) = v" "read32 ?m (b + 4) = read32 (um s) (b + 4)"
    using w h(3) by (simp_all add: read32_outside read32_write32_same)
  have "blks ?m b [(b, n, v \<noteq> 0)] (read32 (um s) (b + 4))" "tiles (unat b) [(b, n, v \<noteq> 0)] (unat b + 12 + unat n)"
    using h(2,8,9) rd by simp_all
  moreover have "\<And>y. unat y < unat b \<or> unat b + 12 + unat n \<le> unat y \<Longrightarrow> ?m y = um s y" by (rule out) auto
  ultimately have "heap_ok (s\<lparr>um := ?m\<rparr>) (xs @ [(b, n, v \<noteq> 0)] @ ys)" "quiet (xs @ ys) (um s) ?m"
    using heap_join [OF ok h(1,5,6,7)] by blast+
  then show ?thesis using st32_in [OF w(8)] out by auto
qed

lemma split_ok:
  assumes ok: "heap_ok s (xs @ (b, n, f) # ys)" and sz: "sz \<le> n" "unat sz mod 4 = 0"
  shows "\<exists>m n' zs. split_block b sz s = Some (s\<lparr>um := m\<rparr>) \<and> heap_ok (s\<lparr>um := m\<rparr>) (xs @ (b, n', f) # zs @ ys) \<and>
    sz \<le> n' \<and> live zs = {} \<and> quiet (xs @ ys) (um s) m"
proof -
  note h = heap_split [OF ok]
  have h12: "in_heap s b 12" using h(10) by (simp add: in_heap_def)
  note w = header_words [OF h12 h(8)]
  have lim: "unat b + 12 + unat n \<le> 0xB0000000" "unat sz \<le> unat n" using h(10) sz(1) by (simp_all add: in_heap_def word_le_nat_alt)
  have u20: "unat (sz + HDR + 8) = unat sz + 20" using lim unat_add_less [of sz 20] by (simp add: add.assoc)
  have ldb: "ld32 b s = Some n" using ld32_in [OF w(6)] h(3) by simp
  show ?thesis
  proof (cases "n < sz + HDR + 8")
    case True
    then have "split_block b sz s = Some (s\<lparr>um := um s\<rparr>)" by (simp add: split_block_def ldb)
    moreover have "heap_ok (s\<lparr>um := um s\<rparr>) (xs @ (b, n, f) # [] @ ys)" using ok by simp
    ultimately show ?thesis using sz(1) by (intro exI [of _ "um s"] exI [of _ n] exI [of _ "[]"] conjI) simp_all
  next
    case False
    then have big: "unat sz + 20 \<le> unat n" using u20 by (simp add: word_less_nat_alt)
    define rest where "rest = b + HDR + sz"
    define nx where "nx = read32 (um s) (b + 4)"
    have ur: "unat rest = unat b + 12 + unat sz"
      using lim big unat_add_less [of b "12 + unat sz"] by (simp add: rest_def add.assoc)
    have rest12: "in_heap s rest 12" "unat rest mod 4 = 0" "rest \<noteq> 0"
      using h(8,10) sz(2) big ur by (auto simp: in_heap_def mod_add_eq [symmetric])
    note v = header_words [OF rest12(1,2)]
    have un: "unat (n - sz - HDR) = unat n - unat sz - 12"
      using big by (simp add: unat_sub word_le_nat_alt unat_sub_if')
    define m1 where "m1 = write32 (um s) rest (n - sz - HDR)"
    define m3 where "m3 = write32 (write32 m1 (rest + 4) nx) (rest + 8) 1"
    define m where "m = write32 (write32 m3 b sz) (b + 4) rest"
    note near = w(1-5) v(1-5) ur
    have nx1: "read32 m1 (b + 4) = nx" using near by (simp add: m1_def nx_def read32_outside)
    have "split_block b sz s = Some (s\<lparr>um := m\<rparr>)"
      using False nx1 ld32_in [OF w(6)] h(3) w(6,7) v(6-8)
      by (simp add: split_block_def Let_def ld32_in st32_in rest_def [symmetric] m1_def m3_def m_def)
    moreover have "read32 m b = sz" "read32 m (b + 4) = rest" "read32 m (b + 8) = read32 (um s) (b + 8)"
      "read32 m rest = n - sz - HDR" "read32 m (rest + 4) = nx" "read32 m (rest + 8) = 1"
      using near by (simp_all add: m_def m3_def m1_def read32_outside read32_write32_same)
    then have "blks m b [(b, sz, f), (rest, n - sz - HDR, True)] nx" using h(2,4) rest12(3) by simp
    moreover have "tiles (unat b) [(b, sz, f), (rest, n - sz - HDR, True)] (unat b + 12 + unat n)"
      using h(8,9) sz(2) rest12(2) ur un big mod_diff_eq
      by (simp add: mod_eq_0_iff_dvd dvd_diff_nat)
    moreover have "m y = um s y" if "unat y < unat b \<or> unat b + 12 + unat n \<le> unat y" for y
    proof -
      have far: "unat a + 4 \<le> 4294967296 \<and> (unat y < unat a \<or> unat a + 4 \<le> unat y)" if "a \<in> {b, b + 4, rest, rest + 4, rest + 8}" for a
        using that \<open>unat y < unat b \<or> unat b + 12 + unat n \<le> unat y\<close> w(4,5) v(4,5) ur big lim by auto
      have skip: "write32 M a x y = M y" if "a \<in> {b, b + 4, rest, rest + 4, rest + 8}" for M a x
        using far [OF that] by (intro write32_outside) simp_all
      show ?thesis by (simp add: m_def m3_def m1_def skip)
    qed
    ultimately show ?thesis
      using heap_join [OF ok h(1) h(5) [folded nx_def] h(6,7), of m "[(b, sz, f), (rest, n - sz - HDR, True)]"]
      by (intro exI [of _ m] exI [of _ sz] exI [of _ "[(rest, n - sz - HDR, True)]"]) simp
  qed
qed

lemma header_quiet:
  assumes ok: "heap_ok s (xs @ (b, n, f) # ys)" and same: "\<And>y. unat y < unat b \<or> unat b + 12 \<le> unat y \<Longrightarrow> m y = um s y"
  shows "quiet (xs @ (b, n, f) # ys) (um s) m"
proof -
  note h = heap_split [OF ok]
  have lim: "unat b + 12 + unat n \<le> 0xB0000000" "unat (ubrk s) \<le> 0xB0000000" using h(10) by (simp_all add: in_heap_def)
  have "quiet xs (um s) m" by (rule quiet_tiles [OF h(6)]) (use lim in \<open>auto intro: same\<close>)
  moreover have "quiet ys (um s) m" by (rule quiet_tiles [OF h(7)]) (use lim in \<open>auto intro: same\<close>)
  moreover have "m (b + HDR + of_nat i) = um s (b + HDR + of_nat i)" if "i < unat n" for i
  proof -
    have "unat (b + of_nat (12 + i)) = unat b + (12 + i)" using that lim by (intro unat_add_less) simp
    then show ?thesis by (intro same) (simp add: add.assoc)
  qed
  ultimately show ?thesis by (auto simp: quiet_def)
qed

subsection \<open>Growing\<close>

lemma need_bounds:
  assumes "unat sz \<le> 0x7FFFEFF4"
  shows "unat sz + 12 \<le> unat (page_up (sz + HDR))" "unat (page_up (sz + HDR)) \<le> 0x7FFFF000"
    "unat (page_up (sz + HDR)) mod 4096 = 0" "0 < sint (page_up (sz + HDR))"
proof -
  have u: "unat (sz + HDR) = unat sz + 12" using assms unat_add_less [of sz 12] by simp
  then have e: "unat (page_up (sz + HDR)) = (unat sz + 12 + 4095) div 4096 * 4096"
    using assms by (simp add: unat_page_up)
  show a: "unat sz + 12 \<le> unat (page_up (sz + HDR))"
    unfolding e using div_mult_mod_eq [of "unat sz + 12 + 4095" 4096] by simp
  show b: "unat (page_up (sz + HDR)) \<le> 0x7FFFF000"
    unfolding e using round_up_page [of "unat sz + 12" "0x7FFFF"] assms by simp
  show "unat (page_up (sz + HDR)) mod 4096 = 0" unfolding e by simp
  have i: "uint (page_up (sz + HDR)) = int (unat (page_up (sz + HDR)))" by simp
  have "0 < int (unat (page_up (sz + HDR)))" "int (unat (page_up (sz + HDR))) < 2147483648" using a b by linarith+
  then show "0 < sint (page_up (sz + HDR))" unfolding sint_sign i by (simp only: if_True)
qed

text \<open>\<open>sbrk\<close> for a request of that size: nothing happens, or the break moves up.\<close>

lemma sbrk_up:
  assumes need: "0 < sint need" "unat need mod 4 = 0" and ok: "heap_ok s bs"
  shows "(\<exists>s'. sbrk need s = (- 1, s') \<and> heap_ok s' bs \<and> quiet bs (um s) (um s')) \<or>
    (\<exists>s'. sbrk need s = (ubrk s, s') \<and> heap_ok s' bs \<and> quiet bs (um s) (um s') \<and> ubase s' = ubase s \<and> uhead s' = uhead s \<and>
      unat (ubrk s') = unat (ubrk s) + unat need \<and> unat (ubrk s) < 0x80000000)"
proof -
  have okd: "blks (um s) (uhead s) bs 0" "tiles (unat (ubase s)) bs (unat (ubrk s))" "0 < ubase s" "unat (ubrk s) mod 4 = 0" "unat (ubrk s) \<le> 0xB0000000"
    using ok by (simp_all add: heap_ok_def)
  have e12: "sint (- ENOMEM) < 0" by (simp add: ENOMEM_def)
  show ?thesis
  proof (cases "ubrk s + need < ubrk s \<or> ubrk s + need > 0xB0000000 \<or> (\<forall>g. grants s \<noteq> True # g)")
    case True
    have "\<exists>s'. sbrk need s = (- 1, s') \<and> (\<exists>g. s' = s\<lparr>grants := g, uerrno := ENOMEM\<rparr>)"
    proof (cases "ubrk s + need < ubrk s \<or> ubrk s + need > 0xB0000000")
      case True
      then have "kernel_sbrk need s = (- ENOMEM, s\<lparr>grants := grants s\<rparr>)" using need(1) by (auto simp: kernel_sbrk_def Let_def)
      then have "sbrk need s = (- 1, s\<lparr>grants := grants s, uerrno := ENOMEM\<rparr>)" using e12 by (simp add: sbrk_def)
      then show ?thesis by blast
    next
      case False
      with True have g: "\<forall>g. grants s \<noteq> True # g" by blast
      have "\<exists>g. kernel_sbrk need s = (- ENOMEM, s\<lparr>grants := g\<rparr>)"
      proof (cases "grants s")
        case Nil
        then have "kernel_sbrk need s = (- ENOMEM, s\<lparr>grants := []\<rparr>)" using need(1) False by (auto simp: kernel_sbrk_def Let_def)
        then show ?thesis by blast
      next
        case (Cons b g')
        then have "kernel_sbrk need s = (- ENOMEM, s\<lparr>grants := g'\<rparr>)" using g need(1) False by (auto simp: kernel_sbrk_def Let_def)
        then show ?thesis by blast
      qed
      then show ?thesis using e12 by (auto simp: sbrk_def)
    qed
    then obtain s' g where "sbrk need s = (- 1, s')" "s' = s\<lparr>grants := g, uerrno := ENOMEM\<rparr>" by blast
    then show ?thesis using okd by (intro disjI1 exI [of _ s']) (simp add: heap_ok_def)
  next
    case False
    then obtain g where g: "grants s = True # g" by blast
    have want: "unat (ubrk s + need) = unat (ubrk s) + unat need" "unat (ubrk s + need) \<le> 0xB0000000"
    proof -
      show "unat (ubrk s + need) \<le> 0xB0000000" using False by (simp add: word_less_nat_alt not_less)
      have "ubrk s \<le> ubrk s + need" using False by (simp add: not_less)
      then show "unat (ubrk s + need) = unat (ubrk s) + unat need"
        by (simp add: unat_plus_simple)
    qed
    let ?m = "\<lambda>a. if page_up (ubrk s) \<le> a \<and> a < page_up (ubrk s + need) then 0 else um s a"
    let ?s = "s\<lparr>ubrk := ubrk s + need, grants := g, um := ?m\<rparr>"
    have k: "kernel_sbrk need s = (ubrk s, ?s)" using False g need(1) by (simp add: kernel_sbrk_def Let_def)
    have low: "?m y = um s y" if "unat y < unat (ubrk s)" for y
      using that heap_top_ge [OF okd(5)] by (simp add: heap_top_def word_le_nat_alt)
    have brk: "unat (ubrk s) \<le> 4294967296" using okd(5) by simp
    have bl: "blks ?m (uhead s) bs 0" using blks_frame [OF okd(2) brk, of ?m] low okd(1) by simp
    have q: "quiet bs (um s) ?m" by (rule quiet_tiles [OF okd(2) brk]) (rule low)
    have ok': "heap_ok ?s bs"
      using bl okd want need(2) tiles_extend [OF okd(2), of "unat (ubrk s + need)"] by (simp add: heap_ok_def mod_add_eq [symmetric])
    show ?thesis
    proof (cases "sint (ubrk s) < 0")
      case True
      then have "sbrk need s = (- 1, ?s\<lparr>uerrno := - ubrk s\<rparr>)" by (simp add: sbrk_def k)
      moreover have "heap_ok (?s\<lparr>uerrno := - ubrk s\<rparr>) bs" using ok' by (simp add: heap_ok_def)
      ultimately show ?thesis using q by (intro disjI1 exI [of _ "?s\<lparr>uerrno := - ubrk s\<rparr>"]) simp
    next
      case False
      then have "sbrk need s = (ubrk s, ?s)" by (simp add: sbrk_def k)
      moreover have "unat (ubrk s) < 0x80000000"
        using False by (simp add: sint_neg_unat)
      ultimately show ?thesis using q ok' want by (intro disjI2 exI [of _ ?s]) simp
    qed
  qed
qed

lemma grow_ok:
  assumes ok: "heap_ok s bs" and sz: "unat sz \<le> 0x7FFFEFF4"
  shows "\<exists>r s'. grow sz s = Some (r, s') \<and> quiet bs (um s) (um s') \<and>
    (r = 0 \<and> heap_ok s' bs \<or> (\<exists>n. r \<noteq> 0 \<and> heap_ok s' (bs @ [(r, n, False)]) \<and> sz \<le> n))"
proof -
  define need where "need = page_up (sz + HDR)"
  note nb = need_bounds [OF sz, folded need_def]
  have "unat need mod 4 = 0" using mod_mod_cancel [of 4 4096 "unat need"] nb(3) by simp
  note up = sbrk_up [OF nb(4) this ok]
  show ?thesis
  proof (cases "\<exists>s'. sbrk need s = (- 1, s') \<and> heap_ok s' bs \<and> quiet bs (um s) (um s')")
    case True
    then obtain s' where "sbrk need s = (- 1, s')" "heap_ok s' bs" "quiet bs (um s) (um s')" by blast
    then show ?thesis by (auto simp: grow_def need_def [symmetric])
  next
    case False
    with up obtain s1 where s1: "sbrk need s = (ubrk s, s1)" "heap_ok s1 bs" "quiet bs (um s) (um s1)" "ubase s1 = ubase s"
      "uhead s1 = uhead s" "unat (ubrk s1) = unat (ubrk s) + unat need" "unat (ubrk s) < 0x80000000" by blast
    let ?p = "ubrk s"
    have okd: "tiles (unat (ubase s)) bs (unat ?p)" "0 < ubase s" "unat ?p mod 4 = 0" "unat (ubrk s1) \<le> 0xB0000000"
      "blks (um s1) (uhead s) bs 0"
      using ok s1(2,5) by (simp_all add: heap_ok_def)
    have base: "unat (ubase s) \<le> unat ?p" using tiles_le [OF okd(1)] .
    have p: "?p \<noteq> 0" "?p \<noteq> - 1"
    proof -
      show "?p \<noteq> 0" using base okd(2) by (auto simp: word_less_nat_alt)
      have "unat (- 1 :: u32) = 4294967295" by (simp add: unsigned_minus_1_eq_mask mask_eq_exp_minus_1)
      then show "?p \<noteq> - 1" using s1(7) by auto
    qed
    have p12: "in_heap s1 ?p 12" using base s1(4,6) okd(4) nb(1) by (simp add: in_heap_def)
    note w = header_words [OF p12 okd(3)]
    define m where "m = write32 (write32 (write32 (um s1) ?p (need - HDR)) (?p + 4) 0) (?p + 8) 0"
    let ?s2 = "s1\<lparr>um := m\<rparr>"
    have un: "unat (need - HDR) = unat need - 12" using nb(1) by (simp add: unat_sub_if')
    have skip: "write32 M a x y = M y" if "unat y < unat ?p" "a \<in> {?p, ?p + 4, ?p + 8}" for M a x y
      using that w(4,5) s1(7) by (intro write32_outside) auto
    have low: "m y = um s1 y" if "unat y < unat ?p" for y using that by (simp add: m_def skip)
    have brk: "unat ?p \<le> 4294967296" using s1(7) by simp
    have bl: "blks m (uhead s) bs 0" using blks_frame [OF okd(1) brk low] okd(5) by simp
    have q1: "quiet bs (um s1) m" by (rule quiet_tiles [OF okd(1) brk low])
    have new: "read32 m ?p = need - HDR" "read32 m (?p + 4) = 0" "read32 m (?p + 8) = 0"
      using w(1-5) by (simp_all add: m_def read32_outside read32_write32_same)
    have fits: "sz \<le> need - HDR" using nb(1) un by (simp add: word_le_nat_alt)
    have tile_new: "tiles (unat ?p) [(?p, need - HDR, False)] (unat (ubrk s1))"
      using okd(3) nb(1,3) un s1(6) mod_mod_cancel [of 4 4096 "unat need"] by (simp add: mod_eq_0_iff_dvd dvd_diff_nat)
    have run: "grow sz s = (if uhead s = 0 then Some (?p, ?s2\<lparr>uhead := ?p\<rparr>)
        else do { l \<leftarrow> last_block (uhead s) ?s2; s \<leftarrow> st32 (l + 4) ?p ?s2; Some (?p, s) })"
      using p w(6-8) s1(1,5) by (simp add: grow_def need_def [symmetric] st32_in m_def)
    show ?thesis
    proof (cases bs rule: rev_cases)
      case Nil
      then have "uhead s = 0" using bl by simp
      moreover have "heap_ok (?s2\<lparr>uhead := ?p\<rparr>) [(?p, need - HDR, False)]"
        using tiles_weaken [OF tile_new base] new p okd s1(2,4) by (simp add: heap_ok_def)
      ultimately show ?thesis using run Nil p fits q1 s1(3) by auto
    next
      case (snoc xs x)
      obtain l n f where x: "x = (l, n, f)" by (cases x)
      have bs: "bs = xs @ (l, n, f) # []" using snoc x by simp
      have ok2: "heap_ok ?s2 (xs @ (l, n, f) # [])" using s1(2,4,5) bl bs by (simp add: heap_ok_def)
      note h = heap_split [OF ok2]
      have l12: "in_heap ?s2 l 12" using h(10) by (simp add: in_heap_def)
      note v = header_words [OF l12 h(8)]
      have "uhead s \<noteq> 0" using bl bs by (cases xs) auto
      have "last_block (uhead s) ?s2 = Some l"
        by (rule last_block_ok [of _ _ xs l n f]) (use bl bs in simp, use heap_member(2,3) [OF ok2] in blast)
      let ?m = "write32 m (l + 4) ?p"
      have result: "grow sz s = Some (?p, s1\<lparr>um := ?m\<rparr>)"
        using run \<open>uhead s \<noteq> 0\<close> \<open>last_block (uhead s) ?s2 = Some l\<close> st32_in [OF v(7)] by simp
      have out: "?m y = m y" if "unat y < unat l \<or> unat l + 12 \<le> unat y" for y
        using that v(4) l12 by (intro write32_outside) (auto simp: in_heap_def)
      have "quiet bs m ?m" unfolding bs using header_quiet [OF ok2, of ?m] out by simp
      then have kept: "quiet bs (um s) ?m" using quiet_trans [OF s1(3) quiet_trans [OF q1]] by blast
      have sep: "unat l + 12 + unat n \<le> unat ?p" using tiles_member [OF okd(1), of l n f] bs by simp
      then have "read32 ?m l = n" "read32 ?m (l + 4) = ?p" "read32 ?m (l + 8) = read32 m (l + 8)"
        "read32 ?m ?p = need - HDR" "read32 ?m (?p + 4) = 0" "read32 ?m (?p + 8) = 0"
        using v(1-5) w(1-5) h(3) new by (simp_all add: read32_outside read32_write32_same)
      then have "blks ?m l [(l, n, f), (?p, need - HDR, False)] 0" using h(2,4) p by simp
      moreover have "tiles (unat l) [(l, n, f), (?p, need - HDR, False)] (unat (ubrk s1))"
        using h(8,9) tile_new sep by simp
      moreover have "tiles (unat (ubrk s1)) [] (unat (ubrk ?s2))" "blks (um ?s2) 0 [] 0" by simp_all
      moreover have "?m y = um ?s2 y" if "unat y < unat l \<or> unat (ubrk s1) \<le> unat y" for y
        using that sep s1(6) out [of y] by auto
      ultimately have "heap_ok (?s2\<lparr>um := ?m\<rparr>) (xs @ [(l, n, f), (?p, need - HDR, False)] @ [])"
        using heap_join(1) [OF ok2 h(1) _ h(6), of 0 "[]" "unat (ubrk s1)" ?m] by blast
      then have "heap_ok (s1\<lparr>um := ?m\<rparr>) (bs @ [(?p, need - HDR, False)])" using bs by simp
      then show ?thesis using result kept p(1) fits
        by (intro exI [of _ ?p] exI [of _ "s1\<lparr>um := ?m\<rparr>"]) auto
    qed
  qed
qed

subsection \<open>Allocating\<close>

lemma round8_up:
  assumes "unat (sz::u32) \<le> 0x7FFFEFF0"
  shows "sz \<le> (sz + 7) AND NOT 7" "unat ((sz + 7) AND NOT 7) \<le> 0x7FFFEFF0" "unat ((sz + 7) AND NOT 7) mod 4 = 0"
proof -
  have "unat (sz + 7) = unat sz + 7" using assms unat_add_less [of sz 7] by simp
  then have e: "unat ((sz + 7) AND NOT 7) = (unat sz + 7) div 8 * 8" unfolding and_NOT_7 by simp
  show "sz \<le> (sz + 7) AND NOT 7" unfolding word_le_nat_alt e using div_mult_mod_eq [of "unat sz + 7" 8] by simp
  show "unat ((sz + 7) AND NOT 7) \<le> 0x7FFFEFF0" unfolding e using round_up_le [of 8 "unat sz" "0xFFFFDFE"] assms by simp
  show "unat ((sz + 7) AND NOT 7) mod 4 = 0" unfolding e using mod_mod_cancel [of 4 8 "(unat sz + 7) div 8 * 8"] by simp
qed

text \<open>A block in use is apart from all others.\<close>

lemma live_apart:
  assumes "heap_ok s (xs @ (b, n, f) # ys)" and "(q, k) \<in> live (xs @ ys)"
  shows "unat (b + HDR) + unat n \<le> unat q \<or> unat q + unat k \<le> unat (b + HDR)" "q \<noteq> b + HDR"
proof -
  note h = heap_split [OF assms(1)]
  have ub: "unat (b + HDR) = unat b + 12" using h(10) unat_add_less [of b 12] by (simp add: in_heap_def)
  obtain c where c: "q = c + HDR" "(c, k, False) \<in> set xs \<or> (c, k, False) \<in> set ys" using assms(2) by (auto simp: live_def)
  then have "in_heap s c (12 + unat k)" using heap_member(1) [OF assms(1), of c k False] by auto
  then have uc: "unat q = unat c + 12" unfolding c(1) using unat_add_less [of c 12] by (simp add: in_heap_def)
  have "unat c + 12 + unat k \<le> unat b \<or> unat b + 12 + unat n \<le> unat c"
    using c(2) tiles_member [OF h(6), of c k False] tiles_member [OF h(7), of c k False] by auto
  then show "unat (b + HDR) + unat n \<le> unat q \<or> unat q + unat k \<le> unat (b + HDR)" "q \<noteq> b + HDR"
    using ub uc by auto
qed

text \<open>What an allocation of \<open>sz\<close> bytes does; \<open>p\<close> is the result.\<close>

definition allocated :: "u32 \<Rightarrow> umem \<Rightarrow> blk list \<Rightarrow> u32 \<Rightarrow> umem \<Rightarrow> blk list \<Rightarrow> bool" where
  "allocated sz s bs p s' bs' \<longleftrightarrow> heap_ok s' bs' \<and> quiet bs (um s) (um s') \<and>
     (if p = 0 then live bs' = live bs
      else \<exists>n. sz \<le> n \<and> live bs' = insert (p, n) (live bs) \<and> in_heap s' p (unat n) \<and>
        (\<forall>(q, k) \<in> live bs. unat p + unat n \<le> unat q \<or> unat q + unat k \<le> unat p))"

lemma allocated_new:
  assumes "allocated sz s bs p s' bs'" and "p \<noteq> 0"
  shows "\<exists>n. sz \<le> n \<and> live bs' = insert (p, n) (live bs) \<and> in_heap s' p (unat n) \<and>
    (\<forall>q k. (q, k) \<in> live bs \<longrightarrow> unat p + unat n \<le> unat q \<or> unat q + unat k \<le> unat p)"
proof -
  from assms obtain n where "sz \<le> n" "live bs' = insert (p, n) (live bs)" "in_heap s' p (unat n)"
    "\<forall>(q, k) \<in> live bs. unat p + unat n \<le> unat q \<or> unat q + unat k \<le> unat p"
    unfolding allocated_def by (simp only: if_False) blast
  then show ?thesis by (intro exI [of _ n]) blast
qed

lemma block_allocated:
  assumes ok: "heap_ok s' (xs @ (b, n, False) # ys)" and "live bs = live (xs @ ys)" and "sz \<le> n" and "quiet bs (um s) (um s')"
  shows "allocated sz s bs (b + HDR) s' (xs @ (b, n, False) # ys)"
proof -
  note h = heap_split [OF ok]
  have ub: "unat (b + HDR) = unat b + 12" using h(10) unat_add_less [of b 12] by (simp add: in_heap_def)
  then have "b + HDR \<noteq> 0" by auto
  moreover have "in_heap s' (b + HDR) (unat n)" using h(10) ub by (simp add: in_heap_def)
  moreover have "\<forall>(q, k) \<in> live bs. unat (b + HDR) + unat n \<le> unat q \<or> unat q + unat k \<le> unat (b + HDR)"
    unfolding assms(2) using live_apart(1) [OF ok] by blast
  ultimately show ?thesis using ok assms(2-4) unfolding allocated_def by (auto simp del: unat_gt_0)
qed

lemma malloc_allocates:
  assumes ok: "heap_ok s bs" and sz: "unat sz \<le> 0x7FFFEFF0"
  shows "\<exists>p s' bs'. malloc sz s = Some (p, s') \<and> allocated sz s bs p s' bs' \<and> (sz = 0 \<longrightarrow> p = 0)"
proof (cases "sz = 0")
  case True
  then show ?thesis using ok by (intro exI [of _ 0] exI [of _ s] exI [of _ bs]) (simp add: malloc_def allocated_def)
next
  case False
  define sz' where "sz' = (sz + 7) AND NOT 7"
  note r = round8_up [OF sz, folded sz'_def]
  have e8: "sz + 7 AND - 8 = sz'" by (simp add: sz'_def)
  have hit: "find_free sz' s = Some (first_fit sz' bs)"
    unfolding find_free_def by (rule find_from_ok) (use ok heap_member [OF ok] in \<open>auto simp: heap_ok_def\<close>)
  show ?thesis
  proof (cases "first_fit sz' bs = 0")
    case False
    then obtain xs b n ys where bs: "bs = xs @ (b, n, True) # ys" "b = first_fit sz' bs" "sz' \<le> n"
      using first_fit_split by blast
    have ok': "heap_ok s (xs @ (b, n, True) # ys)" using ok bs(1) by simp
    obtain m n' zs where sp: "split_block b sz' s = Some (s\<lparr>um := m\<rparr>)" "heap_ok (s\<lparr>um := m\<rparr>) (xs @ (b, n', True) # zs @ ys)"
      "sz' \<le> n'" "live zs = {}" "quiet (xs @ ys) (um s) m" using split_ok [OF ok' bs(3) r(3)] by blast
    obtain m' where sf: "st32 (b + 8) 0 (s\<lparr>um := m\<rparr>) = Some (s\<lparr>um := m'\<rparr>)" "heap_ok (s\<lparr>um := m'\<rparr>) (xs @ (b, n', False) # zs @ ys)"
      "quiet (xs @ zs @ ys) m m'" using set_free_ok [OF sp(2), of 0] by auto
    have lv: "live bs = live (xs @ zs @ ys)" using bs(1) sp(4) by simp
    have "quiet bs (um s) m" by (rule quiet_subset [OF sp(5)]) (simp add: bs(1))
    moreover have "quiet bs m m'" by (rule quiet_subset [OF sf(3)]) (simp add: lv)
    ultimately have q: "quiet bs (um s) m'" by (rule quiet_trans)
    have "malloc sz s = Some (b + HDR, s\<lparr>um := m'\<rparr>)"
      using \<open>sz \<noteq> 0\<close> False bs(2) hit sp(1) sf(1) by (simp add: malloc_def Let_def e8)
    moreover have "allocated sz s bs (b + HDR) (s\<lparr>um := m'\<rparr>) (xs @ (b, n', False) # zs @ ys)"
      by (rule block_allocated [OF sf(2) lv]) (use r(1) sp(3) q in auto)
    ultimately show ?thesis using \<open>sz \<noteq> 0\<close> by blast
  next
    case True
    obtain b s1 where g: "grow sz' s = Some (b, s1)" "quiet bs (um s) (um s1)"
      and res: "b = 0 \<and> heap_ok s1 bs \<or> (\<exists>n. b \<noteq> 0 \<and> heap_ok s1 (bs @ [(b, n, False)]) \<and> sz' \<le> n)"
    proof -
      have "unat sz' \<le> 0x7FFFEFF4" using r(2) by simp
      from grow_ok [OF ok this] show thesis using that by blast
    qed
    show ?thesis
    proof (cases "b = 0")
      case True
      then have "malloc sz s = Some (0, s1)"
        using \<open>sz \<noteq> 0\<close> \<open>first_fit sz' bs = 0\<close> hit g(1) by (simp add: malloc_def Let_def e8)
      moreover have "allocated sz s bs 0 s1 bs" using True res g(2) by (simp add: allocated_def)
      ultimately show ?thesis by blast
    next
      case False
      then obtain n where n: "heap_ok s1 (bs @ (b, n, False) # [])" "sz' \<le> n" using res by auto
      obtain m n' zs where sp: "split_block b sz' s1 = Some (s1\<lparr>um := m\<rparr>)" "heap_ok (s1\<lparr>um := m\<rparr>) (bs @ (b, n', False) # zs @ [])"
        "sz' \<le> n'" "live zs = {}" "quiet (bs @ []) (um s1) m" using split_ok [OF n r(3)] by blast
      have "malloc sz s = Some (b + HDR, s1\<lparr>um := m\<rparr>)"
        using \<open>sz \<noteq> 0\<close> \<open>first_fit sz' bs = 0\<close> hit g(1) False sp(1) by (simp add: malloc_def Let_def e8)
      moreover have "quiet bs (um s) m" using quiet_trans [OF g(2)] sp(5) by simp
      then have "allocated sz s bs (b + HDR) (s1\<lparr>um := m\<rparr>) (bs @ (b, n', False) # zs @ [])"
        using r(1) sp(3,4) by (intro block_allocated [OF sp(2)]) auto
      ultimately show ?thesis using \<open>sz \<noteq> 0\<close> by blast
    qed
  qed
qed

subsection \<open>Freeing\<close>

lemma coalesce_ok:
  "heap_ok s (xs @ (b, n, f) # ys) \<Longrightarrow>
    \<exists>m n' ys'. coalesce b s = Some (s\<lparr>um := m\<rparr>) \<and> heap_ok (s\<lparr>um := m\<rparr>) (xs @ (b, n', f) # ys') \<and>
      live ys' = live ys \<and> quiet (xs @ ys) (um s) m"
proof (induction ys arbitrary: s n)
  case Nil
  note h = heap_split [OF Nil]
  have "in_heap s b 12" using h(10) by (simp add: in_heap_def)
  note w = header_words [OF this h(8)]
  have "coalesce b s = Some (s\<lparr>um := um s\<rparr>)"
    using ld32_in [OF w(7)] h(5) by (subst coalesce.simps) simp
  then show ?case using Nil by (intro exI [of _ "um s"] exI [of _ n] exI [of _ "[]"]) simp
next
  case (Cons x zs)
  obtain c k g where x: "x = (c, k, g)" by (cases x)
  have ok: "heap_ok s (xs @ (b, n, f) # (c, k, g) # zs)" using Cons.prems x by simp
  note h = heap_split [OF ok]
  have h12: "in_heap s b 12" using h(10) by (simp add: in_heap_def)
  note w = header_words [OF h12 h(8)]
  have ok': "heap_ok s ((xs @ [(b, n, f)]) @ (c, k, g) # zs)" using ok by simp
  note v = heap_split [OF ok']
  have c12: "in_heap s c 12" using v(10) by (simp add: in_heap_def)
  note u = header_words [OF c12 v(8)]
  have nx: "read32 (um s) (b + 4) = c" using h(5) by simp
  note ld = ld32_in [OF w(6)] ld32_in [OF w(7)] ld32_in [OF u(6)] ld32_in [OF u(8)]
  show ?case
  proof (cases "g \<and> b + HDR + n = c")
    case False
    then have "coalesce b s = Some (s\<lparr>um := um s\<rparr>)"
      using ld nx h(3) v(2,4) by (subst coalesce.simps) auto
    then show ?thesis using ok x by (intro exI [of _ "um s"] exI [of _ n] exI [of _ "(c, k, g) # zs"]) simp
  next
    case True
    define nx' where "nx' = read32 (um s) (c + 4)"
    define m where "m = write32 (write32 (um s) b (n + (HDR + k))) (b + 4) nx'"
    have lim: "unat b + 12 + unat n \<le> unat c" "unat c + 12 + unat k \<le> 0xB0000000"
      using h(7) v(10) by (simp_all add: in_heap_def)
    have uc: "unat c = unat b + 12 + unat n"
      using True lim unat_add_less [of b "12 + unat n"] by (simp add: add.assoc)
    have un: "unat (n + (HDR + k)) = unat n + 12 + unat k"
      using lim uc unat_add_less [of n "12 + unat k"] by simp
    have far: "unat a + 4 \<le> 4294967296 \<and> (unat y < unat a \<or> unat a + 4 \<le> unat y)"
      if "a \<in> {b, b + 4}" "unat y < unat b \<or> unat c + 12 + unat k \<le> unat y" for a y
      using that w(4) lim by auto
    have out: "m y = um s y" if "unat y < unat b \<or> unat c + 12 + unat k \<le> unat y" for y
      using far [OF _ that] by (simp add: m_def write32_outside)
    have rd: "read32 m b = n + (HDR + k)" "read32 m (b + 4) = nx'" "read32 m (b + 8) = read32 (um s) (b + 8)"
      "read32 (write32 (um s) b (n + (HDR + k))) (c + 4) = nx'"
      using w(1-5) u(1-5) uc by (simp_all add: m_def nx'_def read32_outside read32_write32_same)
    have run: "coalesce b s = coalesce b (s\<lparr>um := m\<rparr>)"
      using True ld nx h(3) v(2-4) rd(4) w(6,7) u(7)
      by (subst coalesce.simps) (simp add: st32_in ld32_in m_def)
    have new: "blks m b [(b, n + (HDR + k), f)] nx'" using h(2,4) rd by simp
    have tile: "tiles (unat b) [(b, n + (HDR + k), f)] (unat c + 12 + unat k)"
      using h(8,9) v(9) un uc by (simp add: mod_eq_0_iff_dvd)
    have joined: "heap_ok (s\<lparr>um := m\<rparr>) (xs @ (b, n + (HDR + k), f) # zs)" and q: "quiet (xs @ zs) (um s) m"
      using heap_join [OF ok h(1) v(5) [folded nx'_def] h(6) v(7) out new tile] by simp_all
    from Cons.IH [OF joined] obtain m2 n2 ys2 where i: "coalesce b (s\<lparr>um := m\<rparr>) = Some (s\<lparr>um := m2\<rparr>)"
      "heap_ok (s\<lparr>um := m2\<rparr>) (xs @ (b, n2, f) # ys2)" "live ys2 = live zs" "quiet (xs @ zs) m m2" by auto
    have lv: "live (x # zs) = live zs" using x True by simp
    have "quiet (xs @ x # zs) (um s) m2"
      by (rule quiet_subset [OF quiet_trans [OF q i(4)]]) (simp add: lv)
    then show ?thesis using run i lv by auto
  qed
qed

lemma free_releases:
  assumes ok: "heap_ok s bs" and p: "(p, n) \<in> live bs"
  shows "\<exists>s' bs'. free_block p s = Some s' \<and> heap_ok s' bs' \<and> live bs' = live bs - {(p, n)} \<and> quiet bs' (um s) (um s') \<and>
    ubrk s' = ubrk s \<and> ubase s' = ubase s"
proof -
  obtain b where b: "p = b + HDR" "(b, n, False) \<in> set bs" using p by (auto simp: live_def)
  obtain xs ys where bs: "bs = xs @ (b, n, False) # ys" using split_list [OF b(2)] by blast
  have ok': "heap_ok s (xs @ (b, n, False) # ys)" using ok bs by simp
  note h = heap_split [OF ok']
  have "unat p = unat b + 12" using b(1) h(10) unat_add_less [of b 12] by (simp add: in_heap_def)
  then have p0: "p \<noteq> 0" by auto
  obtain m where sf: "st32 (b + 8) 1 s = Some (s\<lparr>um := m\<rparr>)" "heap_ok (s\<lparr>um := m\<rparr>) (xs @ (b, n, True) # ys)"
    "quiet (xs @ ys) (um s) m" using set_free_ok [OF ok', of 1] by auto
  obtain m' n' ys' where c: "coalesce b (s\<lparr>um := m\<rparr>) = Some (s\<lparr>um := m'\<rparr>)" "heap_ok (s\<lparr>um := m'\<rparr>) (xs @ (b, n', True) # ys')"
    "live ys' = live ys" "quiet (xs @ ys) m m'" using coalesce_ok [OF sf(2)] by auto
  have "free_block p s = Some (s\<lparr>um := m'\<rparr>)" using p0 b(1) sf(1) c(1) by (simp add: free_block_def)
  moreover have "live (xs @ (b, n', True) # ys') = live bs - {(p, n)}"
    using live_apart(2) [OF ok'] bs b(1) c(3) by auto
  moreover have "quiet (xs @ (b, n', True) # ys') (um s) m'"
    by (rule quiet_subset [OF quiet_trans [OF sf(3) c(4)]]) (simp add: c(3))
  ultimately show ?thesis using c(2) by (intro exI [of _ "s\<lparr>um := m'\<rparr>"]) auto
qed

subsection \<open>Clearing and moving\<close>

text \<open>Writing inside a payload.\<close>

lemma payload_write:
  assumes ok: "heap_ok s (xs @ (b, n, f) # ys)"
    and same: "\<And>y. unat y < unat (b + HDR) \<or> unat (b + HDR) + unat n \<le> unat y \<Longrightarrow> m y = um s y"
  shows "heap_ok (s\<lparr>um := m\<rparr>) (xs @ (b, n, f) # ys)" "quiet (xs @ ys) (um s) m"
proof -
  note h = heap_split [OF ok]
  have lim: "unat b + 12 + unat n \<le> 0xB0000000" using h(10) by (simp add: in_heap_def)
  have ub: "unat (b + HDR) = unat b + 12" using lim unat_add_less [of b 12] by simp
  have word: "read32 m (b + of_nat j) = read32 (um s) (b + of_nat j)" if "j \<le> 8" for j
  proof (intro read32_cong allI impI)
    fix k :: nat assume k: "k < 4"
    have "unat (b + of_nat (j + k)) = unat b + (j + k)" using that k lim by (intro unat_add_less) simp
    then have "m (b + of_nat (j + k)) = um s (b + of_nat (j + k))" using that k ub by (intro same) simp
    then show "m (b + of_nat j + of_nat k) = um s (b + of_nat j + of_nat k)" by (simp add: add.assoc)
  qed
  have out: "m y = um s y" if "unat y < unat b \<or> unat b + 12 + unat n \<le> unat y" for y
    using that ub by (intro same) auto
  have new: "blks m b [(b, n, f)] (read32 (um s) (b + 4))" using word [of 0] word [of 4] word [of 8] h(2-4) by simp
  have tile: "tiles (unat b) [(b, n, f)] (unat b + 12 + unat n)" using h(8,9) by simp
  show "heap_ok (s\<lparr>um := m\<rparr>) (xs @ (b, n, f) # ys)" "quiet (xs @ ys) (um s) m"
    using heap_join [OF ok h(1,5,6,7) out new tile] by simp_all
qed

lemma live_payload_write:
  assumes ok: "heap_ok s bs" and p: "(p, n) \<in> live bs"
    and same: "\<And>y. unat y < unat p \<or> unat p + unat n \<le> unat y \<Longrightarrow> m y = um s y"
  shows "heap_ok (s\<lparr>um := m\<rparr>) bs" "\<forall>(q, k) \<in> live bs - {(p, n)}. \<forall>i < unat k. m (q + of_nat i) = um s (q + of_nat i)"
proof -
  obtain b where b: "p = b + HDR" "(b, n, False) \<in> set bs" using p by (auto simp: live_def)
  obtain xs ys where bs: "bs = xs @ (b, n, False) # ys" using split_list [OF b(2)] by blast
  have ok': "heap_ok s (xs @ (b, n, False) # ys)" using ok bs by simp
  note w = payload_write [OF ok', of m, folded b(1), OF same]
  show "heap_ok (s\<lparr>um := m\<rparr>) bs" using w(1) bs by simp
  have "live bs - {(p, n)} \<subseteq> live (xs @ ys)" using bs b(1) by auto
  then show "\<forall>(q, k) \<in> live bs - {(p, n)}. \<forall>i < unat k. m (q + of_nat i) = um s (q + of_nat i)"
    using w(2) unfolding quiet_def by blast
qed

lemma live_in_heap:
  assumes "heap_ok s bs" "(p, n) \<in> live bs"
  shows "in_heap s p (unat n)" "ld32 (p - HDR) s = Some n" "p \<noteq> 0"
proof -
  obtain b where b: "p = b + HDR" "(b, n, False) \<in> set bs" using assms(2) by (auto simp: live_def)
  obtain xs ys where bs: "bs = xs @ (b, n, False) # ys" using split_list [OF b(2)] by blast
  note h = heap_split [OF assms(1) [unfolded bs]]
  have up: "unat p = unat b + 12" using b(1) h(10) unat_add_less [of b 12] by (simp add: in_heap_def)
  then show "in_heap s p (unat n)" "p \<noteq> 0" using h(10) by (auto simp: in_heap_def)
  have "in_heap s b 12" using h(10) by (simp add: in_heap_def)
  from header_words(6) [OF this h(8)] show "ld32 (p - HDR) s = Some n" using ld32_in h(3) b(1) by simp
qed

lemma calloc_allocates:
  assumes ok: "heap_ok s bs" and sz: "unat n * unat sz \<le> 0x7FFFEFF0"
  shows "\<exists>p s' bs'. calloc n sz s = Some (p, s') \<and> allocated (n * sz) s bs p s' bs' \<and>
    (p \<noteq> 0 \<longrightarrow> (\<forall>i < unat n * unat sz. um s' (p + of_nat i) = 0))"
proof -
  let ?t = "n * sz"
  have ut: "unat ?t = unat n * unat sz" using sz by (simp add: unat_word_ariths)
  have no: "\<not> (n \<noteq> 0 \<and> ?t div n \<noteq> sz)"
    by (auto simp: word_unat_eq_iff unat_div_distrib ut)
  obtain p s1 bs1 where a: "malloc ?t s = Some (p, s1)" "allocated ?t s bs p s1 bs1"
    using malloc_allocates [OF ok, of ?t] ut sz by auto
  show ?thesis
  proof (cases "p = 0")
    case True
    then have "calloc n sz s = Some (p, s1)" using a(1) no by (auto simp: calloc_def Let_def)
    then show ?thesis using a(2) True by blast
  next
    case False
    then obtain k where k: "?t \<le> k" "live bs1 = insert (p, k) (live bs)" "in_heap s1 p (unat k)"
      "\<forall>(q, j) \<in> live bs. unat p + unat k \<le> unat q \<or> unat q + unat j \<le> unat p" "heap_ok s1 bs1" "quiet bs (um s) (um s1)"
      using a(2) by (auto simp: allocated_def)
    have "in_heap s1 p (unat ?t)" using k(1,3) by (simp add: in_heap_def word_le_nat_alt)
    from umemset_in [OF this, of 0] obtain m where m: "umemset p 0 (unat ?t) s1 = Some (s1\<lparr>um := m\<rparr>)"
      "\<And>i. i < unat ?t \<Longrightarrow> m (p + of_nat i) = 0" "\<And>y. unat y < unat p \<or> unat p + unat ?t \<le> unat y \<Longrightarrow> m y = um s1 y" by blast
    have pl: "(p, k) \<in> live bs1" using k(2) by simp
    have same: "m y = um s1 y" if "unat y < unat p \<or> unat p + unat k \<le> unat y" for y
      using that k(1) by (intro m(3)) (auto simp: word_le_nat_alt)
    note w = live_payload_write [OF k(5) pl same]
    have gone: "unat (of_nat i :: u32) = i" if "i < unat (j::u32)" for i j using that unat_less_2p32 [of j] by (simp add: unat_of_nat)
    have "quiet bs (um s1) m"
      unfolding quiet_def
    proof safe
      fix q j i assume q: "(q, j) \<in> live bs" and i: "i < unat (j::u32)"
      have "in_heap s q (unat j)" using live_in_heap [OF ok q] by simp
      then have "unat (q + of_nat i) = unat q + i" using i by (intro unat_add_less) (simp add: in_heap_def)
      then show "m (q + of_nat i) = um s1 (q + of_nat i)" using k(4) q i by (intro same) auto
    qed
    then have "quiet bs (um s) m" using quiet_trans [OF k(6)] by simp
    then have "allocated ?t s bs p (s1\<lparr>um := m\<rparr>) bs1" using w(1) k False by (auto simp: allocated_def)
    moreover have "calloc n sz s = Some (p, s1\<lparr>um := m\<rparr>)" using a(1) no False m(1) by (auto simp: calloc_def Let_def)
    ultimately show ?thesis using m(2) ut by (intro exI [of _ p] exI [of _ "s1\<lparr>um := m\<rparr>"] exI [of _ bs1]) auto
  qed
qed

lemma calloc_overflow: "4294967296 \<le> unat n * unat sz \<Longrightarrow> calloc n sz s = Some (0, s)"
proof -
  assume big: "4294967296 \<le> unat n * unat sz"
  then have n: "n \<noteq> 0" by auto
  have "unat (n * sz) < unat sz * unat n" using big unat_less_2p32 [of "n * sz"] by (simp add: mult.commute)
  then have "unat (n * sz) div unat n < unat sz" by (rule less_mult_imp_div_less)
  then have "n * sz div n \<noteq> sz" by (auto simp: word_unat_eq_iff unat_div_distrib)
  then show ?thesis using n by (simp add: calloc_def Let_def)
qed

lemma realloc_moves:
  assumes ok: "heap_ok s bs" and p: "(p, n) \<in> live bs" and sz: "sz \<noteq> 0" "unat sz \<le> 0x7FFFEFF0"
  shows "\<exists>q s' bs'. realloc p sz s = Some (q, s') \<and> heap_ok s' bs' \<and>
    (\<forall>(r, j) \<in> live bs - {(p, n)}. \<forall>i < unat j. um s' (r + of_nat i) = um s (r + of_nat i)) \<and>
    (if q = 0 then live bs' = live bs else \<exists>k. sz \<le> k \<and> live bs' = insert (q, k) (live bs - {(p, n)})) \<and>
    (\<forall>i < unat n. um s' ((if q = 0 then p else q) + of_nat i) = um s (p + of_nat i))"
proof -
  note P = live_in_heap [OF ok p]
  show ?thesis
  proof (cases "sz \<le> n")
    case True
    then have "realloc p sz s = Some (p, s)" using P(2,3) sz(1) by (simp add: realloc_def)
    moreover have "live bs = insert (p, n) (live bs - {(p, n)})" using p by auto
    ultimately show ?thesis using ok True P(3) by (intro exI [of _ p] exI [of _ s] exI [of _ bs]) auto
  next
    case False
    obtain q s1 bs1 where a: "malloc sz s = Some (q, s1)" "allocated sz s bs q s1 bs1"
      using malloc_allocates [OF ok sz(2)] by blast
    have q1: "quiet bs (um s) (um s1)" and ok1: "heap_ok s1 bs1" using a(2) by (simp_all add: allocated_def)
    have kept: "um s1 (r + of_nat i) = um s (r + of_nat i)" if "(r, j) \<in> live bs" "i < unat j" for r j i
      using q1 that by (auto simp: quiet_def)
    show ?thesis
    proof (cases "q = 0")
      case True
      then have "realloc p sz s = Some (0, s1)" using a(1) P(2,3) sz(1) False by (simp add: realloc_def)
      moreover have "live bs1 = live bs" using a(2) True by (simp add: allocated_def)
      ultimately show ?thesis using ok1 kept p by (intro exI [of _ 0] exI [of _ s1] exI [of _ bs1]) auto
    next
      case np: False
      then obtain k where k: "sz \<le> k" "live bs1 = insert (q, k) (live bs)" "in_heap s1 q (unat k)"
        "\<And>r j. (r, j) \<in> live bs \<Longrightarrow> unat q + unat k \<le> unat r \<or> unat r + unat j \<le> unat q"
        using allocated_new [OF a(2) np] by blast
      have le: "unat n \<le> unat k" "0 < unat k"
        using False k(1) sz(1) by (auto simp: word_le_nat_alt not_le unat_gt_0 word_neq_0_conv [symmetric])
      note P1 = live_in_heap [OF ok1, of p n]
      have p1: "(p, n) \<in> live bs1" using p k(2) by simp
      have "in_heap s1 q (unat n)" using k(3) le(1) by (simp add: in_heap_def)
      moreover have "unat p + unat n \<le> unat q \<or> unat q + unat n \<le> unat p" using k(4) [OF p] le(1) by auto
      ultimately obtain m where m: "umemcpy q p (unat n) s1 = Some (s1\<lparr>um := m\<rparr>)"
        "\<And>i. i < unat n \<Longrightarrow> m (q + of_nat i) = um s1 (p + of_nat i)"
        "\<And>y. unat y < unat q \<or> unat q + unat n \<le> unat y \<Longrightarrow> m y = um s1 y"
        using umemcpy_in [OF P1(1) [OF p1], of q] by blast
      have same: "m y = um s1 y" if "unat y < unat q \<or> unat q + unat k \<le> unat y" for y
        using that le(1) by (intro m(3)) auto
      have q1: "(q, k) \<in> live bs1" using k(2) by simp
      note w = live_payload_write [OF ok1 q1 same]
      obtain s3 bs3 where f: "free_block p (s1\<lparr>um := m\<rparr>) = Some s3" "heap_ok s3 bs3" "live bs3 = live bs1 - {(p, n)}"
        "quiet bs3 m (um s3)" using free_releases [OF w(1) p1] by auto
      have ne: "(q, k) \<noteq> (p, n)" using k(4) [OF p] le(2) by auto
      have run: "realloc p sz s = Some (q, s3)"
        using a(1) P(2,3) P1(2) [OF p1] sz(1) False np m(1) f(1) by (simp add: realloc_def)
      have L3: "live bs3 = insert (q, k) (live bs - {(p, n)})" using f(3) k(2) ne by auto
      have final: "um s3 (r + of_nat i) = m (r + of_nat i)" if "(r, j) \<in> live bs3" "i < unat j" for r j i
        using f(4) that by (auto simp: quiet_def)
      have others: "um s3 (r + of_nat i) = um s (r + of_nat i)" if "(r, j) \<in> live bs" "(r, j) \<noteq> (p, n)" "i < unat j" for r j i
      proof -
        have "(r, j) \<noteq> (q, k)" using k(4) [OF that(1)] le(2) by auto
        then have "m (r + of_nat i) = um s1 (r + of_nat i)" using w(2) that k(2) by auto
        then show ?thesis using final [of r j i] L3 that kept [OF that(1,3)] by simp
      qed
      have moved: "um s3 (q + of_nat i) = um s (p + of_nat i)" if "i < unat n" for i
        using final [of q k i] L3 that le(1) m(2) [OF that] kept [OF p that] by simp
      show ?thesis using run f(2) others moved np k(1) L3
        by (intro exI [of _ q] exI [of _ s3] exI [of _ bs3]) auto
    qed
  qed
qed

subsection \<open>A program and its heap\<close>

text \<open>A heap before its first allocation.\<close>

definition fresh_heap :: "umem \<Rightarrow> bool" where
  "fresh_heap s \<longleftrightarrow> uhead s = 0 \<and> 0 < ubase s \<and> ubase s \<le> ubrk s \<and> unat (ubrk s) mod 4 = 0 \<and> unat (ubrk s) \<le> 0xB0000000"

text \<open>
  The states a program can reach that allocates, frees what it was given once, and writes only
  inside what it was given; the set holds the pointers it has, with the sizes of their blocks.
\<close>

inductive heap_run :: "umem \<Rightarrow> (u32 \<times> u32) set \<Rightarrow> bool" where
  Start: "fresh_heap s \<Longrightarrow> heap_run s {}"
| Malloc: "heap_run s L \<Longrightarrow> unat sz \<le> 0x7FFFEFF0 \<Longrightarrow> malloc sz s = Some (p, s') \<Longrightarrow>
    heap_run s' (if p = 0 then L else insert (p, the (ld32 (p - HDR) s')) L)"
| Calloc: "heap_run s L \<Longrightarrow> unat n * unat sz \<le> 0x7FFFEFF0 \<Longrightarrow> calloc n sz s = Some (p, s') \<Longrightarrow>
    heap_run s' (if p = 0 then L else insert (p, the (ld32 (p - HDR) s')) L)"
| Realloc: "heap_run s L \<Longrightarrow> (p, n) \<in> L \<Longrightarrow> sz \<noteq> 0 \<Longrightarrow> unat sz \<le> 0x7FFFEFF0 \<Longrightarrow> realloc p sz s = Some (q, s') \<Longrightarrow>
    heap_run s' (if q = 0 then L else insert (q, the (ld32 (q - HDR) s')) (L - {(p, n)}))"
| Free: "heap_run s L \<Longrightarrow> (p, n) \<in> L \<Longrightarrow> free_block p s = Some s' \<Longrightarrow> heap_run s' (L - {(p, n)})"
| Store: "heap_run s L \<Longrightarrow> (p, n) \<in> L \<Longrightarrow> i < unat n \<Longrightarrow> st8 (p + of_nat i) v s = Some s' \<Longrightarrow> heap_run s' L"

lemma allocated_live:
  assumes "allocated sz s bs p s' bs'"
  shows "live bs' = (if p = 0 then live bs else insert (p, the (ld32 (p - HDR) s')) (live bs))" "heap_ok s' bs'"
proof -
  show ok: "heap_ok s' bs'" using assms by (simp add: allocated_def)
  show "live bs' = (if p = 0 then live bs else insert (p, the (ld32 (p - HDR) s')) (live bs))"
  proof (cases "p = 0")
    case False
    with assms obtain n where n: "live bs' = insert (p, n) (live bs)" by (auto simp: allocated_def)
    then have "ld32 (p - HDR) s' = Some n" using live_in_heap(2) [OF ok, of p n] by simp
    with n False show ?thesis by simp
  qed (use assms in \<open>simp add: allocated_def\<close>)
qed

lemma heap_run_ok: "heap_run s L \<Longrightarrow> \<exists>bs. heap_ok s bs \<and> live bs = L"
proof (induction rule: heap_run.induct)
  case (Start s)
  then show ?case by (intro exI [of _ "[]"]) (simp add: fresh_heap_def heap_ok_def word_le_nat_alt)
next
  case (Malloc s L sz p s')
  then obtain bs where bs: "heap_ok s bs" "live bs = L" by blast
  from malloc_allocates [OF bs(1) Malloc.hyps(2)] Malloc.hyps(3) obtain bs' where "allocated sz s bs p s' bs'" by auto
  from allocated_live [OF this] bs(2) show ?case by auto
next
  case (Calloc s L n sz p s')
  then obtain bs where bs: "heap_ok s bs" "live bs = L" by blast
  from calloc_allocates [OF bs(1) Calloc.hyps(2)] Calloc.hyps(3) obtain bs' where "allocated (n * sz) s bs p s' bs'" by auto
  from allocated_live [OF this] bs(2) show ?case by auto
next
  case (Realloc s L p n sz q s')
  then obtain bs where bs: "heap_ok s bs" "live bs = L" by blast
  obtain bs' where b: "heap_ok s' bs'"
    "if q = 0 then live bs' = live bs else \<exists>k. sz \<le> k \<and> live bs' = insert (q, k) (live bs - {(p, n)})"
    using realloc_moves [OF bs(1), of p n sz] bs(2) Realloc.hyps by auto
  show ?case
  proof (cases "q = 0")
    case False
    then obtain k where k: "live bs' = insert (q, k) (live bs - {(p, n)})" using b(2) by auto
    then have "ld32 (q - HDR) s' = Some k" using live_in_heap(2) [OF b(1), of q k] by simp
    then show ?thesis using b(1) k bs(2) False by (intro exI [of _ bs']) simp
  qed (use b bs(2) in auto)
next
  case (Free s L p n s')
  then obtain bs where bs: "heap_ok s bs" "live bs = L" by blast
  then show ?case using free_releases [OF bs(1), of p n] Free.hyps by auto
next
  case (Store s L p n i v s')
  then obtain bs where bs: "heap_ok s bs" "live bs = L" by blast
  then have P: "in_heap s p (unat n)" using live_in_heap(1) Store.hyps(2) by blast
  have u: "unat (p + of_nat i) = unat p + i" using P Store.hyps(3) by (intro unat_add_less) (simp add: in_heap_def)
  let ?m = "(um s)(p + of_nat i := v)"
  have "s' = s\<lparr>um := ?m\<rparr>" using Store.hyps(4) by (simp add: st8_def split: if_splits)
  moreover have "heap_ok (s\<lparr>um := ?m\<rparr>) bs"
    by (rule live_payload_write(1) [OF bs(1), of p n]) (use Store.hyps(2,3) bs(2) u in auto)
  ultimately show ?case using bs(2) by blast
qed

lemma live_disjoint:
  assumes ok: "heap_ok s bs" and p: "(p, n) \<in> live bs" and q: "(q, k) \<in> live bs" and ne: "(p, n) \<noteq> (q, k)"
  shows "unat p + unat n \<le> unat q \<or> unat q + unat k \<le> unat p"
proof -
  obtain b where b: "p = b + HDR" "(b, n, False) \<in> set bs" using p by (auto simp: live_def)
  obtain xs ys where bs: "bs = xs @ (b, n, False) # ys" using split_list [OF b(2)] by blast
  have "(q, k) \<in> live (xs @ ys)" using q ne bs b(1) by auto
  from live_apart(1) [OF ok [unfolded bs] this] show ?thesis unfolding b(1) .
qed

definition heap_start :: umem where
  "heap_start = \<lparr>um = \<lambda>_. 0, useg = \<lambda>_. False, ubase = 0x500000, ubrk = 0x500000, grants = [True, False], uerrno = 0, uhead = 0\<rparr>"

lemma heap_start_run: "fresh_heap heap_start" "heap_run heap_start {}" "heap_ok heap_start []"
  by (auto simp: fresh_heap_def heap_start_def heap_ok_def intro: heap_run.Start)

text \<open>The first allocation of a program gets the first block after the header at the base of its heap.\<close>

lemma heap_start_malloc: "\<exists>s. malloc 10 heap_start = Some (0x50000C, s)"
proof -
  have r: "(17::u32) AND - 8 = 16" "page_up (16 + 12) = 0x1000" by (simp_all add: page_up_def)
  have miss: "find_free 16 heap_start = Some 0" by (simp add: find_free_def heap_start_def find_from.simps)
  have "fst (the (grow 16 heap_start)) = 0x500000 \<and> grow 16 heap_start \<noteq> None"
    by (simp add: grow_def r sbrk_def kernel_sbrk_def heap_start_def st32_def accessible4_def accessible_def heap_top_def page_up_def)
  then obtain s1 where g: "grow 16 heap_start = Some (0x500000, s1)" by auto
  obtain n where n: "heap_ok s1 ([] @ (0x500000, n, False) # [])" "16 \<le> n"
    using grow_ok [OF heap_start_run(3), of 16] g by auto
  obtain m where "split_block 0x500000 16 s1 = Some (s1\<lparr>um := m\<rparr>)" using split_ok [OF n] by auto
  then show ?thesis using miss g r by (simp add: malloc_def)
qed

lemma run_quiet: "quiet bs m m' \<Longrightarrow> (p, n) \<in> live bs \<Longrightarrow> i < unat n \<Longrightarrow> m' (p + of_nat i) = m (p + of_nat i)"
  by (auto simp: quiet_def)

text \<open>
  C14. \<open>malloc\<close> serves a program that uses its heap correctly.  In every state it can reach, a
  request of up to 0x7FFFEFF0 bytes returns.  It gives NULL (always for 0 bytes), or a block of at least the size asked for, inside
  the memory below the break and apart from every block the program has; the bytes of those are not
  changed, and the program's heap is in order again.
\<close>

theorem malloc_correct:
  assumes "heap_run s L" and "unat sz \<le> 0x7FFFEFF0"
  shows "\<exists>p s'. malloc sz s = Some (p, s') \<and> (sz = 0 \<longrightarrow> p = 0) \<and>
    (\<forall>(q, k) \<in> L. \<forall>i < unat k. um s' (q + of_nat i) = um s (q + of_nat i)) \<and>
    (if p = 0 then heap_run s' L
     else \<exists>n. sz \<le> n \<and> heap_run s' (insert (p, n) L) \<and> in_heap s' p (unat n) \<and>
       (\<forall>(q, k) \<in> L. unat p + unat n \<le> unat q \<or> unat q + unat k \<le> unat p))"
proof -
  obtain bs where bs: "heap_ok s bs" "live bs = L" using heap_run_ok [OF assms(1)] by blast
  obtain p s' bs' where a: "malloc sz s = Some (p, s')" "allocated sz s bs p s' bs'" "sz = 0 \<longrightarrow> p = 0"
    using malloc_allocates [OF bs(1) assms(2)] by blast
  have kept: "\<forall>(q, k) \<in> L. \<forall>i < unat k. um s' (q + of_nat i) = um s (q + of_nat i)"
    using a(2) bs(2) by (auto simp: allocated_def quiet_def)
  show ?thesis
  proof (cases "p = 0")
    case True
    then show ?thesis using heap_run.Malloc [OF assms a(1)] kept a(1) by auto
  next
    case False
    obtain n where n: "sz \<le> n" "live bs' = insert (p, n) L" "in_heap s' p (unat n)"
      "\<forall>q k. (q, k) \<in> L \<longrightarrow> unat p + unat n \<le> unat q \<or> unat q + unat k \<le> unat p"
      using allocated_new [OF a(2) False] bs(2) by blast
    have "ld32 (p - HDR) s' = Some n" using live_in_heap(2) [OF allocated_live(2) [OF a(2)], of p n] n(2) by simp
    then have "heap_run s' (insert (p, n) L)" using heap_run.Malloc [OF assms a(1)] False by simp
    then show ?thesis using n a(1,3) kept False by (intro exI [of _ p] exI [of _ s']) auto
  qed
qed

theorem malloc_correct_witness:
  "\<exists>s n. malloc 10 heap_start = Some (0x50000C, s) \<and> 10 \<le> n \<and> heap_run s {(0x50000C, n)} \<and> in_heap s 0x50000C (unat n)"
proof -
  have "unat (10::u32) \<le> 0x7FFFEFF0" by simp
  from malloc_correct [OF heap_start_run(2) this] heap_start_malloc show ?thesis by auto
qed

lemma heap_two: "\<exists>s n. heap_run s {(0x50000C, n)} \<and> 10 \<le> n"
proof -
  obtain s where s: "malloc 10 heap_start = Some (0x50000C, s)" using heap_start_malloc by blast
  have "unat (10::u32) \<le> 0x7FFFEFF0" by simp
  from malloc_allocates [OF heap_start_run(3) this] s obtain bs where a: "allocated 10 heap_start [] 0x50000C s bs" by auto
  then obtain n where n: "10 \<le> n" "live bs = {(0x50000C, n)}" using allocated_new [OF a] by auto
  then have "ld32 (0x50000C - HDR) s = Some n" using live_in_heap(2) [OF allocated_live(2) [OF a], of "0x50000C" n] by simp
  then show ?thesis using heap_run.Malloc [OF heap_start_run(2) \<open>unat (10::u32) \<le> 0x7FFFEFF0\<close> s] n(1) by auto
qed

text \<open>
  C15. A heap stays a heap.  In every state that allocating, freeing and writing inside blocks can
  reach: the blocks a program has lie below the break and do not overlap; each of them can be freed,
  which returns, takes exactly that block from the program and leaves the bytes of every other block as they are;
  and \<open>calloc\<close> returns a block of zeros or NULL, and NULL without touching the heap when the product of its arguments overflows.
\<close>

theorem heap_safe:
  assumes "heap_run s L"
  shows "(\<forall>(p, n) \<in> L. in_heap s p (unat n) \<and>
      (\<forall>(q, k) \<in> L. (p, n) = (q, k) \<or> unat p + unat n \<le> unat q \<or> unat q + unat k \<le> unat p) \<and>
      (\<exists>s'. free_block p s = Some s' \<and> heap_run s' (L - {(p, n)}) \<and>
        (\<forall>(q, k) \<in> L - {(p, n)}. \<forall>i < unat k. um s' (q + of_nat i) = um s (q + of_nat i)))) \<and>
    (unat a * unat b \<le> 0x7FFFEFF0 \<longrightarrow> (\<exists>p s'. calloc a b s = Some (p, s') \<and>
      (p = 0 \<or> (\<forall>i < unat a * unat b. um s' (p + of_nat i) = 0)))) \<and>
    (0x100000000 \<le> unat a * unat b \<longrightarrow> calloc a b s = Some (0, s))"
proof -
  obtain bs where bs: "heap_ok s bs" "live bs = L" using heap_run_ok [OF assms] by blast
  have each: "in_heap s p (unat n) \<and>
      (\<forall>(q, k) \<in> L. (p, n) = (q, k) \<or> unat p + unat n \<le> unat q \<or> unat q + unat k \<le> unat p) \<and>
      (\<exists>s'. free_block p s = Some s' \<and> heap_run s' (L - {(p, n)}) \<and>
        (\<forall>(q, k) \<in> L - {(p, n)}. \<forall>i < unat k. um s' (q + of_nat i) = um s (q + of_nat i)))" if "(p, n) \<in> L" for p n
  proof (intro conjI)
    show "in_heap s p (unat n)" using live_in_heap(1) [OF bs(1)] bs(2) that by simp
    show "\<forall>(q, k) \<in> L. (p, n) = (q, k) \<or> unat p + unat n \<le> unat q \<or> unat q + unat k \<le> unat p"
      using live_disjoint [OF bs(1)] bs(2) that by blast
    have "(p, n) \<in> live bs" using that bs(2) by simp
    from free_releases [OF bs(1) this] obtain s' bs' where f: "free_block p s = Some s'" "live bs' = L - {(p, n)}"
      "quiet bs' (um s) (um s')" unfolding bs(2) by blast
    then show "\<exists>s'. free_block p s = Some s' \<and> heap_run s' (L - {(p, n)}) \<and>
        (\<forall>(q, k) \<in> L - {(p, n)}. \<forall>i < unat k. um s' (q + of_nat i) = um s (q + of_nat i))"
      using heap_run.Free [OF assms that f(1)] run_quiet [OF f(3)] by (intro exI [of _ s']) auto
  qed
  have "\<exists>p s'. calloc a b s = Some (p, s') \<and> (p = 0 \<or> (\<forall>i < unat a * unat b. um s' (p + of_nat i) = 0))"
    if "unat a * unat b \<le> 0x7FFFEFF0" using calloc_allocates [OF bs(1) that] by blast
  note zeroed = this
  have "\<forall>x \<in> L. case x of (p, n) \<Rightarrow> in_heap s p (unat n) \<and>
      (\<forall>(q, k) \<in> L. (p, n) = (q, k) \<or> unat p + unat n \<le> unat q \<or> unat q + unat k \<le> unat p) \<and>
      (\<exists>s'. free_block p s = Some s' \<and> heap_run s' (L - {(p, n)}) \<and>
        (\<forall>(q, k) \<in> L - {(p, n)}. \<forall>i < unat k. um s' (q + of_nat i) = um s (q + of_nat i)))"
    (is "\<forall>x \<in> L. ?P x")
  proof
    fix x assume x: "x \<in> L"
    obtain p n where e: "x = (p, n)" by (cases x)
    show "?P x" unfolding e prod.case by (rule each) (use x e in simp)
  qed
  then show ?thesis using zeroed calloc_overflow [of a b s] by (intro conjI impI)
qed

theorem heap_safe_witness:
  "\<exists>s n s'. heap_run s {(0x50000C, n)} \<and> 10 \<le> n \<and> free_block 0x50000C s = Some s' \<and> heap_run s' {} \<and>
     calloc 0x10000 0x10001 s = Some (0, s)"
proof -
  obtain s n where s: "heap_run s {(0x50000C, n)}" "10 \<le> n" using heap_two by blast
  have "0x100000000 \<le> unat (0x10000::u32) * unat (0x10001::u32)" by simp
  with heap_safe [OF s(1), of "0x10000" "0x10001"] have "calloc 0x10000 0x10001 s = Some (0, s)" by blast
  moreover obtain s' where "free_block 0x50000C s = Some s'" "heap_run s' {}"
    using heap_safe [OF s(1), of 0 0] by auto
  ultimately show ?thesis using s by blast
qed

text \<open>
  C33. \<open>realloc\<close> of a block to a size from 1 to 0x7FFFEFF0 bytes returns.  Either it gives NULL and the
  program still has the old block, or a block of at least the new size that replaces the old one; in both cases the block
  holds the bytes of the old one, and every other block is left as it is.
\<close>

theorem realloc_correct:
  assumes "heap_run s L" and "(p, n) \<in> L" and "0 < sz" and "unat sz \<le> 0x7FFFEFF0"
  shows "\<exists>q s'. realloc p sz s = Some (q, s') \<and>
    (if q = 0 then heap_run s' L else \<exists>k. sz \<le> k \<and> heap_run s' (insert (q, k) (L - {(p, n)}))) \<and>
    (\<forall>i < unat n. um s' ((if q = 0 then p else q) + of_nat i) = um s (p + of_nat i)) \<and>
    (\<forall>(r, j) \<in> L - {(p, n)}. \<forall>i < unat j. um s' (r + of_nat i) = um s (r + of_nat i))"
proof -
  obtain bs where bs: "heap_ok s bs" "live bs = L" using heap_run_ok [OF assms(1)] by blast
  have p: "(p, n) \<in> live bs" using assms(2) bs(2) by simp
  have sz: "sz \<noteq> 0" using assms(3) by auto
  obtain q s' bs' where r: "realloc p sz s = Some (q, s')" "heap_ok s' bs'"
    "if q = 0 then live bs' = live bs else \<exists>k. sz \<le> k \<and> live bs' = insert (q, k) (live bs - {(p, n)})"
    "\<forall>i < unat n. um s' ((if q = 0 then p else q) + of_nat i) = um s (p + of_nat i)"
    "\<forall>(r, j) \<in> live bs - {(p, n)}. \<forall>i < unat j. um s' (r + of_nat i) = um s (r + of_nat i)"
    using realloc_moves [OF bs(1) p sz assms(4)] by blast
  note run = heap_run.Realloc [OF assms(1,2) sz assms(4) r(1)]
  have "if q = 0 then heap_run s' L else \<exists>k. sz \<le> k \<and> heap_run s' (insert (q, k) (L - {(p, n)}))"
  proof (cases "q = 0")
    case False
    then obtain k where k: "sz \<le> k" "live bs' = insert (q, k) (live bs - {(p, n)})" using r(3) by auto
    then have "ld32 (q - HDR) s' = Some k" using live_in_heap(2) [OF r(2), of q k] by simp
    then show ?thesis using run k(1) False by auto
  qed (use run in simp)
  then show ?thesis using r(1,4,5) bs(2) by (intro exI [of _ q] exI [of _ s']) simp
qed

theorem realloc_correct_witness:
  "\<exists>s n q s' L. heap_run s {(0x50000C, n)} \<and> realloc 0x50000C 20 s = Some (q, s') \<and> heap_run s' L \<and>
     (\<forall>i < 10. um s' ((if q = 0 then 0x50000C else q) + of_nat i) = um s (0x50000C + of_nat i))"
proof -
  obtain s n where s: "heap_run s {(0x50000C, n)}" "10 \<le> n" using heap_two by blast
  have "10 \<le> unat n" using s(2) by (simp add: word_le_nat_alt)
  have "(0::u32) < 20" "unat (20::u32) \<le> 0x7FFFEFF0" by simp_all
  from realloc_correct [OF s(1) _ this, of "0x50000C" n] obtain q s' where r: "realloc 0x50000C 20 s = Some (q, s')"
    "if q = 0 then heap_run s' {(0x50000C, n)} else \<exists>k. 20 \<le> k \<and> heap_run s' (insert (q, k) ({(0x50000C, n)} - {(0x50000C, n)}))"
    "\<forall>i < unat n. um s' ((if q = 0 then 0x50000C else q) + of_nat i) = um s (0x50000C + of_nat i)" by blast
  from r(2) have "\<exists>L. heap_run s' L" by (cases "q = 0") auto
  then show ?thesis using s(1) r(1,3) \<open>10 \<le> unat n\<close> by (meson less_le_trans)
qed

text \<open>
  C34. Requests near 2^32 are not refused.  Above 0xFFFFFFF8 the rounding wraps around to 0: with any free
  block in the list, \<open>malloc\<close> returns a pointer that is not NULL to a block smaller than the request.  For 0xFFFFEFF0 the
  increment given to \<open>sbrk\<close> is negative: the heap shrinks by a page, and the write of the new
  header, at the old break, is a page fault, which ends the program.
\<close>

theorem malloc_oversized:
  assumes "heap_ok s bs"
  shows "(0xFFFFFFF9 \<le> unat sz \<and> (b, n, True) \<in> set bs \<longrightarrow>
      (\<exists>p s' bs' k. malloc sz s = Some (p, s') \<and> p \<noteq> 0 \<and> heap_ok s' bs' \<and> (p, k) \<in> live bs' \<and> k < sz)) \<and>
    (0x1000 \<le> ubrk s \<and> ubrk s < 0x80000000 \<and> \<not> useg s (ubrk s) \<longrightarrow>
      fst (sbrk (page_up (0xFFFFEFF0 + HDR)) s) = ubrk s \<and> ubrk (snd (sbrk (page_up (0xFFFFEFF0 + HDR)) s)) = ubrk s - 0x1000 \<and>
      malloc 0xFFFFEFF0 s = None)"
proof (intro conjI impI)
  assume big: "0xFFFFFFF9 \<le> unat sz \<and> (b, n, True) \<in> set bs"
  have "unat (sz + 7) = unat sz + 7 - 4294967296"
    using big unat_less_2p32 [of sz] by (simp add: unat_word_ariths mod_if)
  then have "unat (sz + 7) div 8 = 0" using unat_less_2p32 [of sz] by simp
  then have "(sz + 7) div 8 = 0" by (simp add: word_unat_eq_iff unat_div_distrib)
  then have "(sz + 7) AND NOT 7 = 0" unfolding and_NOT_7_div by simp
  then have e8: "sz + 7 AND - 8 = 0" by simp
  have hit: "find_free 0 s = Some (first_fit 0 bs)"
    unfolding find_free_def by (rule find_from_ok) (use assms heap_member [OF assms] in \<open>auto simp: heap_ok_def\<close>)
  have nz: "c \<noteq> 0" if c: "(c, k, f) \<in> set bs" for c k f
  proof -
    obtain xs ys where "bs = xs @ (c, k, f) # ys" using split_list [OF c] by blast
    then show ?thesis using heap_split(2) assms by blast
  qed
  have "(b, n, True) \<in> set cs \<Longrightarrow> set cs \<subseteq> set bs \<Longrightarrow> first_fit 0 cs \<noteq> 0" for cs
    by (induction cs) (auto dest: nz split: if_splits)
  then have ff: "first_fit 0 bs \<noteq> 0" using big by blast
  then obtain xs c k ys where bs: "bs = xs @ (c, k, True) # ys" "c = first_fit 0 bs" using first_fit_split by blast
  obtain m k' zs where sp: "split_block c 0 s = Some (s\<lparr>um := m\<rparr>)" "heap_ok (s\<lparr>um := m\<rparr>) (xs @ (c, k', True) # zs @ ys)"
    using split_ok [OF assms [unfolded bs(1)], of 0] by auto
  obtain m' where sf: "st32 (c + 8) 0 (s\<lparr>um := m\<rparr>) = Some (s\<lparr>um := m'\<rparr>)" "heap_ok (s\<lparr>um := m'\<rparr>) (xs @ (c, k', False) # zs @ ys)"
    using set_free_ok [OF sp(2), of 0] by auto
  note h = heap_split [OF sf(2)]
  have "sz \<noteq> 0" using big by auto
  then have "malloc sz s = Some (c + HDR, s\<lparr>um := m'\<rparr>)"
    using ff hit bs(2) sp(1) sf(1) by (simp add: malloc_def Let_def e8)
  moreover have "(c + HDR, k') \<in> live (xs @ (c, k', False) # zs @ ys)" by simp
  moreover have "c + HDR \<noteq> 0" using live_in_heap(3) [OF sf(2), of "c + HDR" k'] by simp
  moreover have "k' < sz" using h(10) big by (simp add: in_heap_def word_less_nat_alt)
  ultimately show "\<exists>p s' bs' k. malloc sz s = Some (p, s') \<and> p \<noteq> 0 \<and> heap_ok s' bs' \<and> (p, k) \<in> live bs' \<and> k < sz"
    using sf(2) by blast
next
  assume brk: "0x1000 \<le> ubrk s \<and> ubrk s < 0x80000000 \<and> \<not> useg s (ubrk s)"
  let ?s = "s\<lparr>ubrk := ubrk s - 0x1000, useg := \<lambda>a. useg s a \<and> \<not> (page_up (ubrk s - 0x1000) \<le> page_down a \<and> page_down a < ubrk s)\<rparr>"
  have need: "page_up (0xFFFFEFF0 + HDR) = - 0x1000" by (simp add: page_up_def)
  have u: "unat (ubrk s - 0x1000) = unat (ubrk s) - 4096" using brk by (simp add: unat_sub word_le_nat_alt)
  have pos: "\<not> sint (ubrk s) < 0" using brk by (simp add: sint_neg_unat word_less_nat_alt)
  have shrinks: "(ubrk s < ubrk s - 0x1000) = False" using u by (simp add: word_less_nat_alt)
  have sb: "sbrk (- 0x1000) s = (ubrk s, ?s)" using pos by (simp add: sbrk_def kernel_sbrk_def Let_def shrinks)
  then show "fst (sbrk (page_up (0xFFFFEFF0 + HDR)) s) = ubrk s" "ubrk (snd (sbrk (page_up (0xFFFFEFF0 + HDR)) s)) = ubrk s - 0x1000"
    unfolding need by simp_all
  have hit: "find_free 0xFFFFEFF0 s = Some (first_fit 0xFFFFEFF0 bs)"
    unfolding find_free_def by (rule find_from_ok) (use assms heap_member [OF assms] in \<open>auto simp: heap_ok_def\<close>)
  have "first_fit 0xFFFFEFF0 bs = 0"
  proof (rule ccontr)
    assume "first_fit 0xFFFFEFF0 bs \<noteq> 0"
    then obtain xs n ys where b: "bs = xs @ (first_fit 0xFFFFEFF0 bs, n, True) # ys" "0xFFFFEFF0 \<le> n" using first_fit_split by blast
    have "(first_fit 0xFFFFEFF0 bs, n, True) \<in> set bs" using b(1) by (metis in_set_conv_decomp)
    from heap_member(1) [OF assms this] b(2) show False by (simp add: in_heap_def word_le_nat_alt)
  qed
  have "4096 \<le> unat (ubrk s)" "unat (ubrk s) < 2147483648" using brk by (simp_all add: word_less_nat_alt word_le_nat_alt)
  then have lt: "unat (ubrk s - 0x1000) + 4095 < 2 ^ 32" and e: "unat (ubrk s) - 4096 + 4095 = unat (ubrk s) - Suc 0"
    unfolding u by simp_all
  have "unat (page_up (ubrk s - 0x1000)) = (unat (ubrk s) - Suc 0) div 4096 * 4096"
    unfolding unat_page_up [OF lt] u e ..
  moreover have "\<dots> \<le> unat (ubrk s) - Suc 0" by (rule div_times_less_eq_dividend)
  ultimately have "unat (page_up (ubrk s - 0x1000)) \<le> unat (ubrk s)" by linarith
  then have "\<not> accessible ?s (ubrk s)" using brk by (simp add: accessible_def heap_top_def)
  then have "grow 0xFFFFEFF0 s = None"
    using brk sb need pos by (auto simp: grow_def st32_def accessible4_def)
  then show "malloc 0xFFFFEFF0 s = None" using hit \<open>first_fit 0xFFFFEFF0 bs = 0\<close> by (simp add: malloc_def)
qed

theorem malloc_oversized_witness: "malloc 0xFFFFEFF0 heap_start = None"
  using malloc_oversized [OF heap_start_run(3)] by (simp add: heap_start_def)

end
