(* ===== verification/Stdlib.thy ===== *)
theory Stdlib
  imports Prelude
begin

text \<open>
  Number conversion of the C library, \<open>libc/stdlib/abs.c\<close>, \<open>atoi.c\<close> and \<open>strtol.c\<close>.  A C string is the list of its
  bytes before the terminating zero; a pointer into it is the rest of the list.  \<open>int\<close> and \<open>long\<close> are both 32 bits
  wide on the target; a signed overflow, which C leaves undefined, wraps around here as it does on the machine.
\<close>

text \<open>The byte a pointer shows, 0 at the end.\<close>

fun peek :: "u8 list \<Rightarrow> u8" where
  "peek [] = 0"
| "peek (c # cs) = c"

definition abs_c :: "u32 \<Rightarrow> u32" where
  "abs_c j = (if sint j < 0 then - j else j)"

text \<open>The sign: \<open>if (*s == '-') ... else if (*s == '+') s++;\<close>\<close>

definition read_sign :: "u8 list \<Rightarrow> u32 \<times> u8 list" where
  "read_sign s = (if peek s = 0x2D then (- 1, tl s) else if peek s = 0x2B then (1, tl s) else (1, s))"

fun atoi_digits :: "u32 \<Rightarrow> u8 list \<Rightarrow> u32" where
  "atoi_digits v [] = v"
| "atoi_digits v (c # cs) = (if 0x30 \<le> c \<and> c \<le> 0x39 then atoi_digits (v * 10 + (ucast c - 0x30)) cs else v)"

definition atoi :: "u8 list \<Rightarrow> u32" where
  "atoi s =
     (let s = dropWhile (\<lambda>c. c = 0x20 \<or> c = 9 \<or> c = 10) s; (sign, s) = read_sign s
      in sign * atoi_digits 0 s)"

definition digit_value :: "u8 \<Rightarrow> u32 option" where
  "digit_value c =
     (if 0x30 \<le> c \<and> c \<le> 0x39 then Some (ucast c - 0x30)
      else if 0x61 \<le> c \<and> c \<le> 0x7A then Some (ucast c - 0x61 + 10)
      else if 0x41 \<le> c \<and> c \<le> 0x5A then Some (ucast c - 0x41 + 10)
      else None)"

fun strtol_digits :: "u32 \<Rightarrow> u32 \<Rightarrow> u8 list \<Rightarrow> u32 \<times> u8 list" where
  "strtol_digits base v [] = (v, [])"
| "strtol_digits base v (c # cs) =
     (case digit_value c of
        None \<Rightarrow> (v, c # cs)
      | Some d \<Rightarrow> if sint d \<ge> sint base then (v, c # cs) else strtol_digits base (v * base + d) cs)"

text \<open>The value, and where \<open>*endptr\<close> points.\<close>

definition strtol :: "u8 list \<Rightarrow> u32 \<Rightarrow> u32 \<times> u8 list" where
  "strtol nptr base =
     (let s = dropWhile (\<lambda>c. c = 0x20 \<or> c = 9 \<or> c = 10 \<or> c = 11 \<or> c = 12 \<or> c = 13) nptr;
          (sign, s) = read_sign s;
          (s, base) =
            (if (base = 0 \<or> base = 16) \<and> peek s = 0x30 \<and> (peek (tl s) = 0x78 \<or> peek (tl s) = 0x58)
             then (tl (tl s), 16)
             else if base = 0 then (s, if peek s = 0x30 then 8 else 10)
             else (s, base));
          (v, rest) = strtol_digits base 0 s
      in (sign * v, if length rest = length s then nptr else rest))"

subsection \<open>Digits\<close>

text \<open>The number a list of digits, most significant first, stands for.\<close>

definition horner :: "nat \<Rightarrow> nat list \<Rightarrow> nat" where
  "horner b ds = foldl (\<lambda>v d. v * b + d) 0 ds"

lemma horner_snoc: "horner b (ds @ [d]) = horner b ds * b + d"
  by (simp add: horner_def)

lemma horner_Nil [simp]: "horner b [] = 0"
  by (simp add: horner_def)

lemma strtol_digits_run:
  assumes "sint base = int b" and "\<forall>(c, d) \<in> set (zip cs ds). digit_value c = Some (of_nat d) \<and> d < b" and "length cs = length ds"
    and "b \<le> 36" and "rest = [] \<or> digit_value (hd rest) = None"
  shows "strtol_digits base v (cs @ rest) = (foldl (\<lambda>v d. v * base + of_nat d) v ds, rest)"
  using assms(3,2)
proof (induction cs ds arbitrary: v rule: list_induct2)
  case Nil
  then show ?case using assms(5) by (cases rest) auto
next
  case (Cons c cs d ds)
  have d: "digit_value c = Some (of_nat d)" "d < b" using Cons.prems by auto
  have "d < 36" using d(2) assms(4) by simp
  then have "sint (of_nat d :: u32) = int d"
    by (simp add: sint_sign uint_nat unat_of_nat)
  then have "\<not> sint base \<le> sint (of_nat d :: u32)" using d(2) assms(1) by simp
  then show ?case using Cons.IH Cons.prems d(1) by simp
qed

lemma foldl_of_nat: "foldl (\<lambda>v d. v * of_nat b + of_nat d) (of_nat v) ds = (of_nat (foldl (\<lambda>v d. v * b + d) v ds) :: u32)"
  by (induction ds arbitrary: v) (simp_all flip: of_nat_mult of_nat_add)

lemma strtol_digits_horner:
  assumes "b \<le> 36" and "\<forall>(c, d) \<in> set (zip cs ds). digit_value c = Some (of_nat d) \<and> d < b" and "length cs = length ds"
    and "rest = [] \<or> digit_value (hd rest) = None"
  shows "strtol_digits (of_nat b) 0 (cs @ rest) = (of_nat (horner b ds), rest)"
proof -
  have "sint (of_nat b :: u32) = int b" using assms(1) by (simp add: sint_sign uint_nat unat_of_nat)
  from strtol_digits_run [OF this assms(2,3,1,4), of 0] show ?thesis
    using foldl_of_nat [of b 0 ds] by (simp add: horner_def)
qed

lemma atoi_digits_horner:
  assumes "\<forall>(c, d) \<in> set (zip cs ds). c = 0x30 + of_nat d \<and> d < 10" and "length cs = length ds"
    and "rest = [] \<or> \<not> (0x30 \<le> hd rest \<and> hd rest \<le> 0x39)"
  shows "atoi_digits 0 (cs @ rest) = of_nat (horner 10 ds)"
proof -
  have step: "0x30 \<le> (0x30 + of_nat d :: u8)" "(0x30 + of_nat d :: u8) \<le> 0x39" "ucast (0x30 + of_nat d :: u8) - 0x30 = (of_nat d :: u32)"
    if "d < 10" for d
  proof -
    have "d \<in> {0, 1, 2, 3, 4, 5, 6, 7, 8, 9}" using that by auto
    then show "0x30 \<le> (0x30 + of_nat d :: u8)" "(0x30 + of_nat d :: u8) \<le> 0x39" "ucast (0x30 + of_nat d :: u8) - 0x30 = (of_nat d :: u32)" by auto
  qed
  have "atoi_digits v (cs @ rest) = foldl (\<lambda>v d. v * 10 + of_nat d) v ds" for v
    using assms(2,1)
  proof (induction cs ds arbitrary: v rule: list_induct2)
    case Nil
    then show ?case using assms(3) by (cases rest) auto
  next
    case (Cons c cs d ds)
    then have c: "c = 0x30 + of_nat d" "d < 10" by auto
    show ?case using Cons.IH Cons.prems step [OF c(2)] c(1) by simp
  qed
  then show ?thesis using foldl_of_nat [of 10 0 ds] by (simp add: horner_def)
qed

end
