(* ===== verification/Printf.thy ===== *)
theory Printf
  imports Stdlib
begin

text \<open>
  Formatted output, \<open>libc/stdio/printf.c\<close>.  \<open>emit\<close> is the function that takes one character: it answers whether it
  succeeded, or None when it does not come back.  The format string and the string arguments are lists of bytes (without
  the terminating zero); an argument that is missing or of the other kind is undefined in C, here None.
\<close>

type_synonym 's emitter = "u8 \<Rightarrow> 's \<Rightarrow> (bool \<times> 's) option"

datatype parg = PInt u32 | PStr "u8 list"

fun print :: "'s emitter \<Rightarrow> u8 list \<Rightarrow> 's \<Rightarrow> (bool \<times> 's) option" where
  "print emit [] s = Some (True, s)"
| "print emit (c # cs) s = do { (ok, s) \<leftarrow> emit c s; if ok then print emit cs s else Some (False, s) }"

subsection \<open>Numbers\<close>

definition digits :: "bool \<Rightarrow> u8 list" where
  "digits uppercase = [0x30, 0x31, 0x32, 0x33, 0x34, 0x35, 0x36, 0x37, 0x38, 0x39] @
     (if uppercase then [0x41, 0x42, 0x43, 0x44, 0x45, 0x46] else [0x61, 0x62, 0x63, 0x64, 0x65, 0x66])"

text \<open>\<open>while (value != 0)\<close>: the digits, least significant first.  Base 0 is a division trap, base 1 never ends.\<close>

partial_function (option) digit_loop :: "u64 \<Rightarrow> bool \<Rightarrow> u64 \<Rightarrow> u8 list option" where
  "digit_loop base uppercase value =
     (if value = 0 then Some []
      else if base = 0 then None
      else Option.bind (digit_loop base uppercase (value div base))
        (\<lambda>r. Some (digits uppercase ! unat (value mod base) # r)))"

text \<open>\<open>for (j = 0; j < i / 2; j++)\<close>: swap \<open>buf[j]\<close> and \<open>buf[i - 1 - j]\<close>.\<close>

definition swap_ends :: "nat \<Rightarrow> 'a list \<Rightarrow> 'a list" where
  "swap_ends j buf = buf[j := buf ! (length buf - 1 - j), length buf - 1 - j := buf ! j]"

definition reverse_buf :: "'a list \<Rightarrow> 'a list" where
  "reverse_buf buf = fold swap_ends [0 ..< length buf div 2] buf"

definition print_number :: "'s emitter \<Rightarrow> u64 \<Rightarrow> u64 \<Rightarrow> bool \<Rightarrow> bool \<Rightarrow> u32 \<Rightarrow> u32 \<Rightarrow> 's \<Rightarrow> (bool \<times> u32 \<times> 's) option" where
  "print_number emit value base uppercase negative written maxrem s = do {
     buf \<leftarrow> (if value = 0 then Some [0x30] else digit_loop base uppercase value);
     let buf = (if negative then buf @ [0x2D] else buf);
     if unat maxrem < length buf then Some (False, written, s)
     else do {
       (ok, s) \<leftarrow> print emit (reverse_buf buf) s;
       Some (ok, if ok then written + of_nat (length buf) else written, s)
     }
   }"

subsection \<open>The interpreter of formats\<close>

definition is_flag :: "u8 \<Rightarrow> bool" where
  "is_flag c \<longleftrightarrow> c = 0x2D \<or> c = 0x2B \<or> c = 0x20 \<or> c = 0x23 \<or> c = 0x30"

definition is_digit :: "u8 \<Rightarrow> bool" where
  "is_digit c \<longleftrightarrow> 0x30 \<le> c \<and> c \<le> 0x39"

text \<open>
  One conversion, with \<open>f\<close> at the conversion letter (after the flags and the width, which are read and then
  ignored) and \<open>begun\<close> at the percent sign.  The result: did it succeed, the rest of the format, the rest of
  the arguments, \<open>written\<close>, the state.
\<close>

type_synonym 's conv_result = "(bool \<times> u8 list \<times> parg list \<times> u32 \<times> 's) option"

definition number_conv :: "'s emitter \<Rightarrow> u64 \<Rightarrow> u64 \<Rightarrow> bool \<Rightarrow> bool \<Rightarrow> u32 \<Rightarrow> u32 \<Rightarrow> u8 list \<Rightarrow> parg list \<Rightarrow> 's \<Rightarrow> 's conv_result" where
  "number_conv emit value base uppercase negative written maxrem f args s =
     map_option (\<lambda>(ok, written, s). (ok, f, args, written, s)) (print_number emit value base uppercase negative written maxrem s)"

definition text_conv :: "'s emitter \<Rightarrow> u8 list \<Rightarrow> u32 \<Rightarrow> u32 \<Rightarrow> u8 list \<Rightarrow> parg list \<Rightarrow> 's \<Rightarrow> 's conv_result" where
  "text_conv emit cs written maxrem f args s =
     (if unat maxrem < length cs then Some (False, f, args, written, s)
      else map_option (\<lambda>(ok, s). (ok, f, args, written + of_nat (length cs), s)) (print emit cs s))"

fun conversion :: "'s emitter \<Rightarrow> u8 list \<Rightarrow> u8 list \<Rightarrow> parg list \<Rightarrow> u32 \<Rightarrow> u32 \<Rightarrow> 's \<Rightarrow> 's conv_result" where
  "conversion emit begun f args written maxrem s =
     (let k = peek f in
      if k = 0x63 then
        (case args of PInt v # args \<Rightarrow> text_conv emit [ucast v] written maxrem (tl f) args s | _ \<Rightarrow> None)
      else if k = 0x73 then
        (case args of PStr str # args \<Rightarrow> text_conv emit str written maxrem (tl f) args s | _ \<Rightarrow> None)
      else if k = 0x64 \<or> k = 0x69 then
        (case args of
           PInt v # args \<Rightarrow>
             (let negative = sint v < 0; uvalue = (if negative then - (scast v :: u64) else scast v)
              in number_conv emit uvalue 10 False negative written maxrem (tl f) args s)
         | _ \<Rightarrow> None)
      else if k = 0x75 then
        (case args of PInt v # args \<Rightarrow> number_conv emit (ucast v) 10 False False written maxrem (tl f) args s | _ \<Rightarrow> None)
      else if k = 0x78 \<or> k = 0x58 then
        (case args of PInt v # args \<Rightarrow> number_conv emit (ucast v) 16 (k = 0x58) False written maxrem (tl f) args s | _ \<Rightarrow> None)
      else if k = 0x6F then
        (case args of PInt v # args \<Rightarrow> number_conv emit (ucast v) 8 False False written maxrem (tl f) args s | _ \<Rightarrow> None)
      else if k = 0x70 then
        (case args of
           PInt v # args \<Rightarrow>
             (if maxrem < 2 then Some (False, tl f, args, written, s)
              else do {
                (ok, s) \<leftarrow> print emit [0x30, 0x78] s;
                if ok then number_conv emit (ucast v) 16 False False (written + 2) (maxrem - 2) (tl f) args s
                else Some (False, tl f, args, written, s)
              })
         | _ \<Rightarrow> None)
      else text_conv emit begun written maxrem [] args s)"

text \<open>The text up to the next percent sign, its first character whatever it is.\<close>

definition literal :: "u8 list \<Rightarrow> u8 list" where
  "literal f = (case f of [] \<Rightarrow> [] | c # cs \<Rightarrow> c # takeWhile (\<lambda>c. c \<noteq> 0x25) cs)"

text \<open>\<open>fuel\<close> bounds the passes of the main loop; each consumes a character, and the entry point gives one more than the format has.\<close>

fun format_loop :: "nat \<Rightarrow> 's emitter \<Rightarrow> u8 list \<Rightarrow> parg list \<Rightarrow> u32 \<Rightarrow> 's \<Rightarrow> (u32 \<times> 's) option" where
  "format_loop 0 emit f args written s = None"
| "format_loop (Suc fuel) emit f args written s =
     (if f = [] then Some (written, s)
      else
        (let maxrem = 0x7FFFFFFF - written in
         if hd f \<noteq> 0x25 \<or> peek (tl f) = 0x25 then
           (let f = (if hd f = 0x25 then tl f else f); text = literal f in
            if unat maxrem < length text then Some (- 1, s)
            else do {
              (ok, s) \<leftarrow> print emit text s;
              if ok then format_loop fuel emit (drop (length text) f) args (written + of_nat (length text)) s
              else Some (- 1, s)
            })
         else do {
           (ok, f, args, written, s) \<leftarrow>
             conversion emit f (dropWhile is_digit (dropWhile is_flag (tl f))) args written maxrem s;
           if ok then format_loop fuel emit f args written s else Some (- 1, s)
         }))"

definition vprintf_gen :: "'s emitter \<Rightarrow> u8 list \<Rightarrow> parg list \<Rightarrow> 's \<Rightarrow> (u32 \<times> 's) option" where
  "vprintf_gen emit f args s = format_loop (Suc (length f)) emit f args 0 s"

text \<open>The fuel of the entry point is enough: every pass shortens the format, so more fuel changes nothing.\<close>

lemma conversion_rest:
  "conversion emit begun f args w m s = Some (ok, f', args', w', s') \<Longrightarrow> length f' \<le> length f"
  by (simp add: Let_def number_conv_def text_conv_def bind_eq_Some_conv split: if_splits list.splits parg.splits) auto

lemma literal_shortens: "f \<noteq> [] \<Longrightarrow> length (drop (length (literal f)) f) < length f"
  by (cases f) (simp_all add: literal_def)

lemma format_loop_fuel:
  "length f < n \<Longrightarrow> length f < m \<Longrightarrow> format_loop n emit f args w s = format_loop m emit f args w s"
proof (induction n arbitrary: m f args w s)
  case (Suc n)
  then obtain m' where m: "m = Suc m'" by (cases m) auto
  show ?case
  proof (cases "f = []")
    case False
    define g where "g = (if hd f = 0x25 then tl f else f)"
    have lit: "length (drop (length (literal g)) g) < length f" if "hd f \<noteq> 0x25 \<or> peek (tl f) = 0x25"
    proof -
      have "g \<noteq> []" using that False by (auto simp: g_def)
      moreover have "length g \<le> length f" by (simp add: g_def)
      ultimately show ?thesis using literal_shortens by (meson less_le_trans)
    qed
    have IH: "format_loop n emit f' args' w' s' = format_loop m' emit f' args' w' s'" if "length f' < length f" for f' args' w' s'
    proof (rule Suc.IH)
      show "length f' < n" "length f' < m'" using that Suc.prems m by linarith+
    qed
    have conv: "length f' < length f"
      if "conversion emit f (dropWhile is_digit (dropWhile is_flag (tl f))) args w x s = Some (ok, f', args', w', s')" for x ok f' args' w' s'
    proof -
      have "length f' \<le> length (tl f)"
        using conversion_rest [OF that] length_dropWhile_le [of is_digit "dropWhile is_flag (tl f)"] length_dropWhile_le [of is_flag "tl f"] by linarith
      then show ?thesis using False by (cases f) simp_all
    qed
    show ?thesis
    proof (cases "hd f \<noteq> 0x25 \<or> peek (tl f) = 0x25")
      case True
      then show ?thesis unfolding m using False IH [OF lit [OF True]] by (simp add: Let_def g_def [symmetric] cong: if_cong)
    next
      case no: False
      show ?thesis unfolding m using False no IH [OF conv]
        by (cases "conversion emit f (dropWhile is_digit (dropWhile is_flag (tl f))) args w (0x7FFFFFFF - w) s")
          (auto simp: Let_def split: if_splits)
    qed
  qed (simp add: m)
qed simp

subsection \<open>The digits of a number\<close>

lemma swap_ends_length [simp]: "length (swap_ends j buf) = length buf"
  by (simp add: swap_ends_def)

lemma swap_loop:
  "2 * k \<le> length buf \<Longrightarrow> length (fold swap_ends [0 ..< k] buf) = length buf \<and>
     (\<forall>i < length buf. fold swap_ends [0 ..< k] buf ! i =
        (if i < k \<or> length buf - k \<le> i then buf ! (length buf - 1 - i) else buf ! i))"
proof (induction k)
  case (Suc k)
  let ?b = "fold swap_ends [0 ..< k] buf"
  have l: "length ?b = length buf" and IH: "\<And>i. i < length buf \<Longrightarrow> ?b ! i =
      (if i < k \<or> length buf - k \<le> i then buf ! (length buf - 1 - i) else buf ! i)" using Suc by simp_all
  have k: "?b ! k = buf ! k" "?b ! (length buf - 1 - k) = buf ! (length buf - 1 - k)"
    using IH [of k] IH [of "length buf - 1 - k"] Suc.prems by auto
  show ?case
  proof (intro conjI allI impI)
    fix i assume i: "i < length buf"
    show "fold swap_ends [0 ..< Suc k] buf ! i =
        (if i < Suc k \<or> length buf - Suc k \<le> i then buf ! (length buf - 1 - i) else buf ! i)"
      using i l k IH [OF i] Suc.prems by (auto simp: swap_ends_def nth_list_update)
  qed (use l in simp)
qed simp

lemma reverse_buf_rev: "reverse_buf buf = rev buf"
proof (rule nth_equalityI)
  note loop = swap_loop [of "length buf div 2" buf]
  show l: "length (reverse_buf buf) = length (rev buf)" using loop by (simp add: reverse_buf_def)
  fix i assume "i < length (reverse_buf buf)"
  then have i: "i < length buf" using l by simp
  have "length buf - Suc i = i" if "\<not> i < length buf div 2" "\<not> length buf - length buf div 2 \<le> i" using that i by linarith
  then show "reverse_buf buf ! i = rev buf ! i" using loop i by (auto simp: reverse_buf_def rev_nth)
qed

lemma digits_length [simp]: "length (digits up) = 16"
  by (simp add: digits_def)

lemma digit_chars:
  assumes "d < 16"
  shows "digit_value (digits up ! d) = Some (of_nat d)" "d < 10 \<Longrightarrow> digits up ! d = 0x30 + of_nat d"
proof -
  let ?xs = "[0, 1, 2, 3, 4, 5, 6, 7, 8, 9, 10, 11, 12, 13, 14, 15] :: nat list"
  have all: "list_all (\<lambda>d. digit_value (digits up ! d) = Some (of_nat d) \<and> (d < 10 \<longrightarrow> digits up ! d = 0x30 + of_nat d)) ?xs"
    by (cases up) (simp_all add: digits_def digit_value_def)
  have "?xs = [0 ..< 16]" by (simp add: upt_rec)
  then have "set ?xs = {0 ..< 16}" by (metis set_upt)
  then have "d \<in> set ?xs" using assms by (metis atLeastLessThan_iff le0)
  from bspec [OF all [unfolded list_all_iff] this]
  show "digit_value (digits up ! d) = Some (of_nat d)" "d < 10 \<Longrightarrow> digits up ! d = 0x30 + of_nat d" by simp_all
qed

text \<open>The loop ends with the digits of the value; there are few enough of them for the buffer of 32 bytes.\<close>

lemma digit_loop_value:
  assumes "2 \<le> b" "b \<le> 16"
  shows "\<exists>ds. digit_loop (of_nat b) up v = Some (map (\<lambda>d. digits up ! d) ds) \<and> horner b (rev ds) = unat v \<and>
    (\<forall>d \<in> set ds. d < b) \<and> (v \<noteq> 0 \<longrightarrow> ds \<noteq> [] \<and> b ^ (length ds - 1) \<le> unat v)"
proof (induction "unat v" arbitrary: v rule: less_induct)
  case less
  have ub: "unat (of_nat b :: u64) = b" using assms by (simp add: unat_of_nat)
  then have b0: "(of_nat b :: u64) \<noteq> 0" using assms by auto
  show ?case
  proof (cases "v = 0")
    case True
    then show ?thesis by (intro exI [of _ "[]"]) (simp add: digit_loop.simps)
  next
    case False
    let ?q = "v div of_nat b"
    have q: "unat ?q = unat v div b" and r: "unat (v mod of_nat b) = unat v mod b"
      using ub by (simp_all add: unat_div_distrib unat_mod_distrib)
    have "unat v \<noteq> 0" using False by (simp add: unat_eq_0)
    then have "unat ?q < unat v" unfolding q using assms by (intro div_less_dividend) simp_all
    from less [OF this] obtain ds where ds: "digit_loop (of_nat b) up ?q = Some (map (\<lambda>d. digits up ! d) ds)"
      "horner b (rev ds) = unat ?q" "\<forall>d \<in> set ds. d < b" "?q \<noteq> 0 \<longrightarrow> ds \<noteq> [] \<and> b ^ (length ds - 1) \<le> unat ?q" by blast
    have "digit_loop (of_nat b) up v = Some (map (\<lambda>d. digits up ! d) (unat v mod b # ds))"
      using False b0 ds(1) r by (subst digit_loop.simps) simp
    moreover have "horner b (rev (unat v mod b # ds)) = unat v"
      using ds(2) q div_mult_mod_eq [of "unat v" b] by (simp add: horner_snoc)
    moreover have "b ^ length ds \<le> unat v"
    proof (cases "?q = 0")
      case True
      then have "digit_loop (of_nat b) up ?q = Some []" by (simp add: digit_loop.simps)
      with ds(1) have "ds = []" by simp
      then show ?thesis using \<open>unat v \<noteq> 0\<close> by simp
    next
      case False
      then have "ds \<noteq> []" "b ^ (length ds - 1) \<le> unat v div b" using ds(4) q by simp_all
      then have "b ^ (length ds - 1) * b \<le> unat v" using assms by (simp add: less_eq_div_iff_mult_less_eq)
      then show ?thesis using \<open>ds \<noteq> []\<close> by (cases ds) (simp_all add: mult.commute)
    qed
    ultimately show ?thesis using ds(3) assms by (intro exI [of _ "unat v mod b # ds"]) simp
  qed
qed

lemma number_fits_buffer:
  assumes "8 \<le> b" "b \<le> 16" "digit_loop (of_nat b) up v = Some cs"
  shows "length cs \<le> 22"
proof (cases "v = 0")
  case True
  then show ?thesis using assms(3) by (simp add: digit_loop.simps)
next
  case False
  obtain ds where ds: "digit_loop (of_nat b) up v = Some (map (\<lambda>d. digits up ! d) ds)" "b ^ (length ds - 1) \<le> unat v"
    using digit_loop_value [of b up v] assms(1,2) False by auto
  have "(8::nat) ^ (length ds - 1) \<le> b ^ (length ds - 1)" using assms(1) by (simp add: power_mono)
  also have "\<dots> < 2 ^ 64" using ds(2) unsigned_less [of v, where 'a = nat] by simp
  also have "(2::nat) ^ 64 < 8 ^ 22" by simp
  finally have "length ds - 1 < 22" by (simp only: power_strict_increasing_iff)
  then show ?thesis using ds(1) assms(3) by simp
qed

text \<open>The text of a number.\<close>

definition number_text :: "u64 \<Rightarrow> bool \<Rightarrow> bool \<Rightarrow> u64 \<Rightarrow> u8 list" where
  "number_text base uppercase negative v = (if negative then [0x2D] else []) @
     (if v = 0 then [0x30] else rev (the (digit_loop base uppercase v)))"

lemma number_text_digits:
  assumes "8 \<le> b" "b \<le> 16"
  shows "\<exists>ds. number_text (of_nat b) up neg v = (if neg then [0x2D] else []) @ map (\<lambda>d. digits up ! d) ds \<and>
    horner b ds = unat v \<and> (\<forall>d \<in> set ds. d < b) \<and> ds \<noteq> [] \<and> length ds \<le> 22"
proof (cases "v = 0")
  case True
  then show ?thesis using assms by (intro exI [of _ "[0]"]) (auto simp: number_text_def digits_def horner_def)
next
  case False
  obtain ds where ds: "digit_loop (of_nat b) up v = Some (map (\<lambda>d. digits up ! d) ds)" "horner b (rev ds) = unat v"
    "\<forall>d \<in> set ds. d < b" "ds \<noteq> []"
    using digit_loop_value [of b up v] assms False by auto
  then show ?thesis using False number_fits_buffer [OF assms ds(1)]
    by (intro exI [of _ "rev ds"]) (simp add: number_text_def rev_map)
qed

text \<open>Read back: the inverse of the text.\<close>

lemma strtol_number_text:
  assumes b: "8 \<le> b" "b \<le> 16"
  shows "strtol (number_text (of_nat b) up neg v) (of_nat b) = (if neg then - of_nat (unat v) else of_nat (unat v), [])"
proof -
  obtain ds where ds: "number_text (of_nat b) up neg v = (if neg then [0x2D] else []) @ map (\<lambda>d. digits up ! d) ds"
    "horner b ds = unat v" "\<forall>d \<in> set ds. d < b" "ds \<noteq> []" using number_text_digits [OF b] by blast
  let ?cs = "map (\<lambda>d. digits up ! d) ds"
  have dv: "digit_value (digits up ! d) = Some (of_nat d)" if "d \<in> set ds" for d
    using digit_chars(1) [of d up] ds(3) that b(2) by fastforce
  then have "\<forall>(c, d) \<in> set (zip ?cs ds). digit_value c = Some (of_nat d) \<and> d < b"
    using ds(3) by (auto simp: zip_map1 set_zip split: prod.splits)
  then have run: "strtol_digits (of_nat b) 0 ?cs = (of_nat (unat v), [])"
    using strtol_digits_horner [of b ?cs ds "[]"] ds(2) b(2) by simp
  obtain d ds' where cons: "ds = d # ds'" using ds(4) by (cases ds) auto
  have plain: "\<not> (c = 0x20 \<or> c = 9 \<or> c = 10 \<or> c = 11 \<or> c = 12 \<or> c = 13)" "c \<noteq> 0x2D" "c \<noteq> 0x2B"
    if "digit_value c = Some x" for c x
    using that by (auto simp: digit_value_def)
  have first: "digit_value (peek ?cs) = Some (of_nat d)" using dv [of d] cons by simp
  have "peek (tl ?cs) \<noteq> 0x78 \<and> peek (tl ?cs) \<noteq> 0x58"
  proof (cases ds')
    case (Cons e es)
    have "e < 16" using ds(3) cons Cons b(2) by simp
    then have "digit_value (digits up ! e) = Some (of_nat e)" "unat (of_nat e :: u32) < 16" using digit_chars(1) by (auto simp: unat_of_nat)
    then have "digits up ! e \<noteq> 0x78" "digits up ! e \<noteq> 0x58" by (auto simp: digit_value_def)
    then show ?thesis using cons Cons by simp
  qed (simp add: cons)
  moreover have "(of_nat b :: u32) \<noteq> 0"
  proof
    assume "(of_nat b :: u32) = 0"
    then have "unat (of_nat b :: u32) = 0" by simp
    then show False using b by (simp add: unat_of_nat)
  qed
  moreover have "dropWhile (\<lambda>c. c = 0x20 \<or> c = 9 \<or> c = 10 \<or> c = 11 \<or> c = 12 \<or> c = 13) ((if neg then [0x2D] else []) @ ?cs) =
      (if neg then [0x2D] else []) @ ?cs" "read_sign ((if neg then [0x2D] else []) @ ?cs) = (if neg then - 1 else 1, ?cs)"
    using plain [OF first] cons by (simp_all add: read_sign_def)
  ultimately show ?thesis
    unfolding strtol_def ds(1) Let_def using run ds(4) by simp
qed

lemma atoi_number_text:
  "atoi (number_text 10 up neg v) = (if neg then - of_nat (unat v) else of_nat (unat v))"
proof -
  obtain ds where ds: "number_text (of_nat 10) up neg v = (if neg then [0x2D] else []) @ map (\<lambda>d. digits up ! d) ds"
    "horner 10 ds = unat v" "\<forall>d \<in> set ds. d < 10" "ds \<noteq> []" using number_text_digits [of 10 up neg v] by auto
  let ?cs = "map (\<lambda>d. digits up ! d) ds"
  have dv: "digits up ! d = 0x30 + of_nat d" if "d \<in> set ds" for d
    using digit_chars(2) [of d up] ds(3) that by fastforce
  then have "\<forall>(c, d) \<in> set (zip ?cs ds). c = 0x30 + of_nat d \<and> d < 10"
    using ds(3) by (auto simp: zip_map1 set_zip split: prod.splits)
  then have run: "atoi_digits 0 ?cs = of_nat (unat v)" using atoi_digits_horner [of ?cs ds "[]"] ds(2) by simp
  obtain d ds' where cons: "ds = d # ds'" using ds(4) by (cases ds) auto
  have "digit_value (digits up ! d) = Some (of_nat d)" using digit_chars(1) [of d up] ds(3) cons by simp
  then have "dropWhile (\<lambda>c. c = 0x20 \<or> c = 9 \<or> c = 10) ((if neg then [0x2D] else []) @ ?cs) = (if neg then [0x2D] else []) @ ?cs"
    "read_sign ((if neg then [0x2D] else []) @ ?cs) = (if neg then - 1 else 1, ?cs)"
    using cons by (auto simp: digit_value_def read_sign_def)
  then show ?thesis using run ds(1) by (simp add: atoi_def)
qed

subsection \<open>Where the characters go\<close>

text \<open>
  What the formatter relies on: a sink that is ready for some number of characters takes one,
  appends what it stands for to its output, and is ready for one less.
\<close>

locale char_sink =
  fixes emit :: "'s emitter" and ready :: "nat \<Rightarrow> 's \<Rightarrow> bool" and out :: "'s \<Rightarrow> 'b list" and enc :: "u8 \<Rightarrow> 'b list"
  assumes takes: "ready (Suc n) s \<Longrightarrow> \<exists>s'. emit c s = Some (True, s') \<and> ready n s' \<and> out s' = out s @ enc c"
begin

lemma print_ok:
  "ready (length cs + n) s \<Longrightarrow> \<exists>s'. print emit cs s = Some (True, s') \<and> ready n s' \<and> out s' = out s @ concat (map enc cs)"
proof (induction cs arbitrary: s)
  case (Cons c cs)
  then have "ready (Suc (length cs + n)) s" by simp
  from takes [OF this] obtain s1 where s1: "emit c s = Some (True, s1)" "ready (length cs + n) s1" "out s1 = out s @ enc c" by blast
  from Cons.IH [OF s1(2)] show ?case using s1 by auto
qed simp

lemma print_number_ok:
  assumes b: "8 \<le> b" "b \<le> 16" and "ready (length (number_text (of_nat b) up neg v) + n) s"
    and "length (number_text (of_nat b) up neg v) \<le> unat maxrem"
  shows "\<exists>s'. print_number emit v (of_nat b) up neg w maxrem s =
      Some (True, w + of_nat (length (number_text (of_nat b) up neg v)), s') \<and> ready n s' \<and>
      out s' = out s @ concat (map enc (number_text (of_nat b) up neg v))"
proof -
  obtain cs where cs: "digit_loop (of_nat b) up v = Some cs" using digit_loop_value [of b up v] b by auto
  let ?buf = "(if v = 0 then [0x30] else cs) @ (if neg then [0x2D] else [])"
  have rt: "rev ?buf = number_text (of_nat b) up neg v" using cs by (simp add: number_text_def)
  have len: "length ?buf = length (number_text (of_nat b) up neg v)" unfolding rt [symmetric] by simp
  obtain s' where s': "print emit (rev ?buf) s = Some (True, s')" "ready n s'"
    "out s' = out s @ concat (map enc (number_text (of_nat b) up neg v))"
    using print_ok [of "number_text (of_nat b) up neg v" n s] assms(3) unfolding rt by blast
  have "print_number emit v (of_nat b) up neg w maxrem s =
      (if unat maxrem < length ?buf then Some (False, w, s)
       else do { (ok, s) \<leftarrow> print emit (rev ?buf) s; Some (ok, if ok then w + of_nat (length ?buf) else w, s) })"
    using cs by (simp add: print_number_def reverse_buf_rev Let_def add.commute cong: if_cong)
  also have "\<dots> = Some (True, w + of_nat (length ?buf), s')" using assms(4) s'(1) len by simp
  finally show ?thesis unfolding len using s'(2,3) by blast
qed

text \<open>Text without a percent sign, before another directive or the end.\<close>

lemma literal_pass:
  assumes "pre \<noteq> []" "0x25 \<notin> set pre" "f = [] \<or> hd f = 0x25" "ready (length pre + n) s" "unat w + length pre \<le> 0x7FFFFFFF"
  shows "\<exists>s'. format_loop (Suc fuel) emit (pre @ f) args w s = format_loop fuel emit f args (w + of_nat (length pre)) s' \<and>
    ready n s' \<and> out s' = out s @ concat (map enc pre)"
proof -
  obtain c cs where pre: "pre = c # cs" using assms(1) by (cases pre) auto
  have "takeWhile (\<lambda>c. c \<noteq> 0x25) (cs @ f) = cs"
    using assms(2,3) pre by (cases f) (auto simp: takeWhile_append)
  then have lit: "literal (pre @ f) = pre" by (simp add: pre literal_def)
  have "unat (0x7FFFFFFF - w) = 0x7FFFFFFF - unat w" using assms(5) by (simp add: unat_sub word_le_nat_alt)
  then have room: "\<not> unat (0x7FFFFFFF - w) < length pre" using assms(5) by linarith
  obtain s' where s': "print emit pre s = Some (True, s')" "ready n s'" "out s' = out s @ concat (map enc pre)"
    using print_ok [OF assms(4)] by blast
  have "hd (pre @ f) \<noteq> 0x25" using assms(2) pre by auto
  then have "format_loop (Suc fuel) emit (pre @ f) args w s = format_loop fuel emit f args (w + of_nat (length pre)) s'"
    using assms(1) lit room s'(1) by (simp add: Let_def)
  then show ?thesis using s' by blast
qed

text \<open>A number conversion without flags and width.\<close>

lemma number_pass:
  assumes run: "conversion emit (0x25 # k # f) (k # f) (PInt v # args) w (0x7FFFFFFF - w) s =
      number_conv emit uv (of_nat b) up neg w (0x7FFFFFFF - w) f args s"
    and k: "\<not> is_flag k" "\<not> is_digit k" "k \<noteq> 0x25" and b: "8 \<le> b" "b \<le> 16"
    and "ready (length (number_text (of_nat b) up neg uv) + n) s" "unat w + length (number_text (of_nat b) up neg uv) \<le> 0x7FFFFFFF"
  shows "\<exists>s'. format_loop (Suc fuel) emit (0x25 # k # f) (PInt v # args) w s =
      format_loop fuel emit f args (w + of_nat (length (number_text (of_nat b) up neg uv))) s' \<and>
    ready n s' \<and> out s' = out s @ concat (map enc (number_text (of_nat b) up neg uv))"
proof -
  have "unat (0x7FFFFFFF - w) = 0x7FFFFFFF - unat w" using assms(8) by (simp add: unat_sub word_le_nat_alt)
  then have room: "length (number_text (of_nat b) up neg uv) \<le> unat (0x7FFFFFFF - w)" using assms(8) by linarith
  obtain s' where s': "print_number emit uv (of_nat b) up neg w (0x7FFFFFFF - w) s =
      Some (True, w + of_nat (length (number_text (of_nat b) up neg uv)), s')" "ready n s'"
      "out s' = out s @ concat (map enc (number_text (of_nat b) up neg uv))"
    using print_number_ok [OF b assms(7) room] by blast
  have "format_loop (Suc fuel) emit (0x25 # k # f) (PInt v # args) w s =
      format_loop fuel emit f args (w + of_nat (length (number_text (of_nat b) up neg uv))) s'"
    using k run s'(1) by (simp add: number_conv_def Let_def del: conversion.simps)
  then show ?thesis using s' by blast
qed

lemma literal_pass':
  assumes "0x25 \<notin> set pre" "f = [] \<or> hd f = 0x25" "ready (length pre + n) s" "unat w + length pre \<le> 0x7FFFFFFF"
  shows "\<exists>s'. format_loop (fuel + length pre) emit (pre @ f) args w s =
      format_loop (fuel + length pre - (if pre = [] then 0 else 1)) emit f args (w + of_nat (length pre)) s' \<and>
    ready n s' \<and> out s' = out s @ concat (map enc pre)"
proof (cases pre)
  case Nil
  then show ?thesis using assms(3) by (intro exI [of _ s]) simp
next
  case (Cons c cs)
  then have "pre \<noteq> []" by simp
  from literal_pass [OF this assms, of "fuel + length cs"] show ?thesis using Cons by simp
qed

text \<open>Text, one number, text.\<close>

lemma text_number_text:
  assumes run: "\<And>w s. conversion emit (0x25 # k # post) (k # post) [PInt v] w (0x7FFFFFFF - w) s =
      number_conv emit uv (of_nat b) up neg w (0x7FFFFFFF - w) post [] s"
    and k: "\<not> is_flag k" "\<not> is_digit k" "k \<noteq> 0x25" and b: "8 \<le> b" "b \<le> 16"
    and num: "num = number_text (of_nat b) up neg uv"
    and plain: "0x25 \<notin> set pre" "0x25 \<notin> set post"
    and ready: "ready (length pre + (length num + (length post + n))) s"
    and room: "length pre + length num + length post \<le> 0x7FFFFFFF"
  shows "\<exists>s'. vprintf_gen emit (pre @ 0x25 # k # post) [PInt v] s = Some (of_nat (length (pre @ num @ post)), s') \<and>
    ready n s' \<and> out s' = out s @ concat (map enc (pre @ num @ post))"
proof -
  let ?f1 = "3 + length post + length pre - (if pre = [] then 0 else 1)"
  let ?w1 = "of_nat (length pre) :: u32" and ?w2 = "of_nat (length pre + length num) :: u32"
  have w1: "unat ?w1 = length pre" using room by (simp add: unat_of_nat)
  have w2: "unat ?w2 = length pre + length num" using room unat_of_nat [of "length pre + length num", where 'a = 32] by (simp del: of_nat_add)
  obtain s1 where s1: "format_loop (3 + length post + length pre) emit (pre @ 0x25 # k # post) [PInt v] 0 s =
      format_loop ?f1 emit (0x25 # k # post) [PInt v] ?w1 s1" "ready (length num + (length post + n)) s1"
      "out s1 = out s @ concat (map enc pre)"
    using literal_pass' [OF plain(1) _ ready, of "0x25 # k # post" 0 "3 + length post" "[PInt v]"] room by auto
  obtain g where g: "?f1 = Suc (g + 1 + length post)" by (cases pre) (auto intro: that [of "length pre"] that [of 0] that [of 1])
  obtain s2 where s2: "format_loop ?f1 emit (0x25 # k # post) [PInt v] ?w1 s1 =
      format_loop (g + 1 + length post) emit post [] ?w2 s2" "ready (length post + n) s2" "out s2 = out s1 @ concat (map enc num)"
    using number_pass [OF run k b, of "length post + n" s1 ?w1 "g + 1 + length post"] s1(2) w1 room
    unfolding g num [symmetric] by auto
  obtain s3 where s3: "format_loop (g + 1 + length post) emit (post @ []) [] ?w2 s2 =
      format_loop (g + 1 + length post - (if post = [] then 0 else 1)) emit [] [] (?w2 + of_nat (length post)) s3"
      "ready n s3" "out s3 = out s2 @ concat (map enc post)"
    using literal_pass' [OF plain(2) _ s2(2), of "[]" ?w2 "g + 1" "[]"] w2 room by auto
  obtain h where "g + 1 + length post - (if post = [] then 0 else 1) = Suc h" by (cases post) auto
  then have "vprintf_gen emit (pre @ 0x25 # k # post) [PInt v] s = Some (?w2 + of_nat (length post), s3)"
    using s1(1) s2(1) s3(1) by (simp add: vprintf_gen_def numeral_eq_Suc add.commute)
  then show ?thesis using s1(3) s2(3) s3(2,3) by (simp add: add.assoc)
qed

end

end
