(* ===== verification/Console.thy ===== *)
theory Console
  imports Tty Printf
begin

text \<open>
  The kernel's console: \<open>putchar\<close>, \<open>puts\<close> and \<open>printf\<close> as \<open>libc/stdio/putchar.c\<close>, \<open>puts.c\<close> and \<open>printf.c\<close> compile for
  the kernel (\<open>__is_libk\<close>), on the terminal.  None: the serial line never gets ready.
\<close>

definition putchar_k :: "u32 \<Rightarrow> tty \<Rightarrow> (u32 \<times> tty) option" where
  "putchar_k ic t = map_option (\<lambda>t. (ic, t)) (terminal_write [ucast ic] t)"

definition puts_k :: "u8 list \<Rightarrow> tty \<Rightarrow> (u32 \<times> tty) option" where
  "puts_k str t = do { t \<leftarrow> terminal_write str t; t \<leftarrow> terminal_write [10] t; Some (1, t) }"

definition emit_stdout_k :: "tty emitter" where
  "emit_stdout_k c t = do { (r, t) \<leftarrow> putchar_k (ucast c) t; Some (r \<noteq> - 1, t) }"

definition printf_k :: "u8 list \<Rightarrow> parg list \<Rightarrow> tty \<Rightarrow> (u32 \<times> tty) option" where
  "printf_k f args t = vprintf_gen emit_stdout_k f args t"

definition console_ready :: "nat \<Rightarrow> tty \<Rightarrow> bool" where
  "console_ready n t \<longleftrightarrow> tty_ok t \<and> line_ready (10 * n) (tty_ports t)"

lemma emit_stdout_takes:
  assumes "console_ready (Suc n) t"
  shows "\<exists>t'. emit_stdout_k c t = Some (True, t') \<and> console_ready n t' \<and> sent t' = sent t @ serial_text c"
proof -
  have t: "tty_ok t" "line_ready (10 * n + 10) (tty_ports t)" using assms by (simp_all add: console_ready_def add.commute)
  obtain t' where t': "terminal_putchar c t = Some t'" "tty_ok t'" "line_ready (10 * n) (tty_ports t')" "sent t' = sent t @ serial_text c"
    using putchar_refines [OF t] by blast
  have "ucast (ucast c :: u32) = c" by (rule bit_word_eqI) (simp add: bit_simps)
  then show ?thesis using t' byte_not_eof [of c] by (simp add: emit_stdout_k_def putchar_k_def console_ready_def)
qed

interpretation console: char_sink emit_stdout_k console_ready sent serial_text
  by unfold_locales (rule emit_stdout_takes)

text \<open>The conversions and what they read.\<close>

lemma number_convs:
  "conversion emit (0x25 # 0x64 # f) (0x64 # f) [PInt v] w m s =
     number_conv emit (if sint v < 0 then - scast v else scast v) (of_nat 10) False (sint v < 0) w m f [] s"
  "conversion emit (0x25 # 0x69 # f) (0x69 # f) [PInt v] w m s =
     number_conv emit (if sint v < 0 then - scast v else scast v) (of_nat 10) False (sint v < 0) w m f [] s"
  "conversion emit (0x25 # 0x75 # f) (0x75 # f) [PInt v] w m s = number_conv emit (ucast v) (of_nat 10) False False w m f [] s"
  "conversion emit (0x25 # 0x78 # f) (0x78 # f) [PInt v] w m s = number_conv emit (ucast v) (of_nat 16) False False w m f [] s"
  "conversion emit (0x25 # 0x58 # f) (0x58 # f) [PInt v] w m s = number_conv emit (ucast v) (of_nat 16) True False w m f [] s"
  "conversion emit (0x25 # 0x6F # f) (0x6F # f) [PInt v] w m s = number_conv emit (ucast v) (of_nat 8) False False w m f [] s"
  by (simp_all add: Let_def)

lemma unat_ucast64: "of_nat (unat (ucast (v::u32) :: u64)) = v"
proof -
  have "unat (ucast v :: u64) = unat v"
    using unat_less_2p32 [of v] by (simp add: unsigned_ucast_eq take_bit_eq_mod)
  then show ?thesis by simp
qed

lemma of_nat_unat64: "(of_nat (unat (x::u64)) :: u32) = ucast x"
  by simp

lemma abs_value64:
  "(if sint v < 0 then - of_nat (unat (if sint v < 0 then - scast v else scast v :: u64))
    else of_nat (unat (if sint v < 0 then - scast v else scast v :: u64))) = (v::u32)"
proof -
  have s: "(ucast (scast v :: u64) :: u32) = v" by (rule bit_word_eqI) (simp add: bit_simps)
  have down: "(ucast (word_of_int i :: u64) :: u32) = word_of_int i" for i
    by (rule bit_word_eqI) (simp add: bit_simps)
  have "(ucast (- word_of_int i :: u64) :: u32) = - ucast (word_of_int i :: u64)" for i
    unfolding down by (simp only: wi_hom_neg down)
  from this [of "uint (scast v :: u64)"] have "(ucast (- (scast v :: u64)) :: u32) = - ucast (scast v :: u64)" by simp
  then show ?thesis using s by (simp add: of_nat_unat64)
qed

lemma number_text_short:
  assumes "8 \<le> b" "b \<le> 16"
  shows "length (number_text (of_nat b) up neg v) \<le> 23" "number_text (of_nat b) up neg v \<noteq> []"
  using number_text_digits [OF assms, of up neg v] by auto

definition number_letters :: "(u8 \<times> nat) list" where
  "number_letters = [(0x64, 10), (0x69, 10), (0x75, 10), (0x78, 16), (0x58, 16), (0x6F, 8)]"

lemma printf_number:
  assumes run: "\<And>w s. conversion emit_stdout_k (0x25 # k # post) (k # post) [PInt v] w (0x7FFFFFFF - w) s =
      number_conv emit_stdout_k uv (of_nat b) up neg w (0x7FFFFFFF - w) post [] s"
    and k: "\<not> is_flag k" "\<not> is_digit k" "k \<noteq> 0x25" and b: "8 \<le> b" "b \<le> 16"
    and undo: "(if neg then - of_nat (unat uv) else of_nat (unat uv)) = v"
    and plain: "0x25 \<notin> set pre" "0x25 \<notin> set post"
    and ready: "console_ready (length pre + 23 + length post) t" and room: "length pre + 23 + length post \<le> 0x7FFFFFFF"
  shows "\<exists>num t'. printf_k (pre @ [0x25, k] @ post) [PInt v] t = Some (of_nat (length (pre @ num @ post)), t') \<and> tty_ok t' \<and>
    sent t' = sent t @ concat (map serial_text (pre @ num @ post)) \<and> num \<noteq> [] \<and>
    strtol num (of_nat b) = (v, []) \<and> (b = 10 \<longrightarrow> atoi num = v)"
proof -
  let ?num = "number_text (of_nat b) up neg uv"
  note short = number_text_short [OF b, of up neg uv]
  have "console_ready (length pre + (length ?num + (length post + 0))) t"
    using ready short by (auto simp: console_ready_def line_ready_def)
  then obtain t' where t': "vprintf_gen emit_stdout_k (pre @ 0x25 # k # post) [PInt v] t = Some (of_nat (length (pre @ ?num @ post)), t')"
    "console_ready 0 t'" "sent t' = sent t @ concat (map serial_text (pre @ ?num @ post))"
    using console.text_number_text [OF run k b refl plain] short(1) room by force
  have "strtol ?num (of_nat b) = (v, [])" using strtol_number_text [OF b, of up neg uv] undo by simp
  moreover have "b = 10 \<Longrightarrow> atoi ?num = v" using atoi_number_text [of up neg uv] undo by simp
  ultimately show ?thesis using t' short(2) by (intro exI [of _ ?num] exI [of _ t']) (simp add: printf_k_def console_ready_def)
qed

text \<open>
  C35. Numbers printed can be read back.  On a terminal ready for the text, the kernel's \<open>printf\<close> of a
  text with one conversion \<open>%d %i %u %x %X %o\<close> prints the text with a number in its place and returns how many
  characters these are; \<open>strtol\<close> of that number, in the base of the conversion, is the argument, for every
  32-bit argument, and consumes all of it, and so does \<open>atoi\<close> in base 10.
\<close>

theorem printf_number_roundtrip:
  assumes "(k, b) \<in> set number_letters" and "0x25 \<notin> set pre" and "0x25 \<notin> set post"
    and "tty_ok t" and "line_ready (10 * (length pre + 23 + length post)) (tty_ports t)" and "length pre + 23 + length post \<le> 0x7FFFFFFF"
  shows "\<exists>num t'. printf_k (pre @ [0x25, k] @ post) [PInt v] t = Some (of_nat (length (pre @ num @ post)), t') \<and> tty_ok t' \<and>
    sent t' = sent t @ concat (map serial_text (pre @ num @ post)) \<and> num \<noteq> [] \<and>
    strtol num (of_nat b) = (v, []) \<and> (b = 10 \<longrightarrow> atoi num = v)"
proof -
  have ready: "console_ready (length pre + 23 + length post) t" using assms(4,5) by (simp add: console_ready_def)
  have flags: "\<not> is_flag k" "\<not> is_digit k" "k \<noteq> 0x25" "8 \<le> b" "b \<le> 16"
    using assms(1) by (auto simp: number_letters_def is_flag_def is_digit_def)
  have plus: "(if False then - of_nat (unat (ucast v :: u64)) else of_nat (unat (ucast v :: u64))) = v" by (simp only: if_False unat_ucast64)
  note go = printf_number [OF _ flags _ assms(2,3) ready assms(6)]
  consider "k = 0x64" "b = 10" | "k = 0x69" "b = 10" | "k = 0x75" "b = 10" | "k = 0x78" "b = 16" | "k = 0x58" "b = 16" | "k = 0x6F" "b = 8"
    using assms(1) by (auto simp: number_letters_def)
  then show ?thesis
  proof cases
    case 1
    show ?thesis unfolding 1 by (rule go [unfolded 1, OF number_convs(1) abs_value64])
  next
    case 2
    show ?thesis unfolding 2 by (rule go [unfolded 2, OF number_convs(2) abs_value64])
  next
    case 3
    show ?thesis unfolding 3 by (rule go [unfolded 3, OF number_convs(3) plus])
  next
    case 4
    show ?thesis unfolding 4 by (rule go [unfolded 4, OF number_convs(4) plus])
  next
    case 5
    show ?thesis unfolding 5 by (rule go [unfolded 5, OF number_convs(5) plus])
  next
    case 6
    show ?thesis unfolding 6 by (rule go [unfolded 6, OF number_convs(6) plus])
  qed
qed

definition tty_quiet :: tty where
  "tty_quiet = terminal_initialize \<lparr>terminal_row = 0, terminal_column = 0, terminal_color = 0,
     terminal_buffer = replicate 2000 0, terminal_anchor = 0, tty_ports = \<lparr>ins = replicate 300 0x20, outs = []\<rparr>\<rparr>"

lemma tty_quiet_ok: "tty_ok tty_quiet" "n \<le> 300 \<Longrightarrow> line_ready n (tty_ports tty_quiet)"
proof -
  show "tty_ok tty_quiet" unfolding tty_quiet_def by (rule tty_ok_operations(1)) simp_all
  have "ins (tty_ports tty_quiet) = replicate 300 0x20"
    by (simp add: tty_quiet_def terminal_initialize_def blank_rows_def del: upt_rec_numeral)
  then show "n \<le> 300 \<Longrightarrow> line_ready n (tty_ports tty_quiet)"
    by (simp add: line_ready_def transmit_empty_def)
qed

theorem printf_number_roundtrip_witness:
  "\<exists>num t'. printf_k ([] @ [0x25, 0x64] @ []) [PInt (- 5)] tty_quiet = Some (of_nat (length num), t') \<and>
     strtol num (of_nat 10) = (- 5, []) \<and> atoi num = - 5"
proof -
  have letter: "(0x64, 10) \<in> set number_letters" by (simp add: number_letters_def)
  have none: "0x25 \<notin> set ([] :: u8 list)" by simp
  have ready: "line_ready (10 * (length ([] :: u8 list) + 23 + length ([] :: u8 list))) (tty_ports tty_quiet)"
    by (rule tty_quiet_ok(2)) simp
  have room: "length ([] :: u8 list) + 23 + length ([] :: u8 list) \<le> 0x7FFFFFFF" by simp
  from printf_number_roundtrip [OF letter none none tty_quiet_ok(1) ready room, of "- 5"]
  obtain num t' where "printf_k ([] @ [0x25, 0x64] @ []) [PInt (- 5)] tty_quiet = Some (of_nat (length ([] @ num @ [])), t')"
    "strtol num (of_nat 10) = (- 5, [])" "10 = (10::nat) \<longrightarrow> atoi num = - 5" by blast
  then show ?thesis by (intro exI [of _ num] exI [of _ t']) simp
qed

end
