(* ===== verification/Stdio.thy ===== *)
theory Stdio
  imports Printf
begin

text \<open>
  Buffered output of the C library in a user program: \<open>libc/stdio/stdio.c\<close>, \<open>fprintf.c\<close>, \<open>putchar.c\<close>, \<open>puts.c\<close>, the
  \<open>FILE\<close> of \<open>stdio_impl.h\<close>, and \<open>write\<close> of \<open>libc/unistd/write.c\<close> as the program sees it: \<open>sys_write\<close> (theory Syscall) puts the
  bytes on the console for descriptors 1 and 2 and answers \<open>-EBADF\<close> for any other.
\<close>

abbreviation (input) EOF :: u32 where "EOF \<equiv> - 1"
abbreviation (input) FILE_BUFSIZ :: nat where "FILE_BUFSIZ \<equiv> 256"
abbreviation (input) F_WRITE :: u32 where "F_WRITE \<equiv> 1"
abbreviation (input) F_LINEBUF :: u32 where "F_LINEBUF \<equiv> 2"
abbreviation (input) F_ERR :: u32 where "F_ERR \<equiv> 4"

record cfile =
  cf_fd :: u32
  cf_flags :: u32
  cf_pos :: nat
  cf_buf :: "u8 list"

datatype stream = Stdin | Stdout | Stderr

text \<open>The program's side of the console: what has been written to it, \<open>errno\<close>, and the three files.\<close>

record cio =
  io_console :: "u8 list"
  io_errno :: u32
  io_file :: "stream \<Rightarrow> cfile"

fun start_file :: "stream \<Rightarrow> cfile" where
  "start_file Stdout = \<lparr>cf_fd = 1, cf_flags = F_WRITE OR F_LINEBUF, cf_pos = 0, cf_buf = replicate FILE_BUFSIZ 0\<rparr>"
| "start_file Stderr = \<lparr>cf_fd = 2, cf_flags = F_WRITE, cf_pos = 0, cf_buf = replicate FILE_BUFSIZ 0\<rparr>"
| "start_file Stdin = \<lparr>cf_fd = 0, cf_flags = 0, cf_pos = 0, cf_buf = replicate FILE_BUFSIZ 0\<rparr>"

definition set_file :: "stream \<Rightarrow> cfile \<Rightarrow> cio \<Rightarrow> cio" where
  "set_file x f s = s\<lparr>io_file := (io_file s)(x := f)\<rparr>"

definition uwrite :: "u32 \<Rightarrow> u8 list \<Rightarrow> cio \<Rightarrow> u32 \<times> cio" where
  "uwrite fd bs s =
     (if fd = 1 \<or> fd = 2 then (of_nat (length bs), s\<lparr>io_console := io_console s @ bs\<rparr>)
      else (- 1, s\<lparr>io_errno := 9\<rparr>))"

text \<open>The operations; None as a stream is a null pointer.\<close>

fun fflush :: "stream option \<Rightarrow> cio \<Rightarrow> u32 \<times> cio" where
  "fflush None s = (0, s)"
| "fflush (Some x) s =
     (let f = io_file s x in
      if cf_pos f = 0 then (0, s)
      else
        (let (n, s) = uwrite (cf_fd f) (take (cf_pos f) (cf_buf f)) s; s = set_file x (f\<lparr>cf_pos := 0\<rparr>) s in
         if sint n < 0 then (EOF, set_file x (f\<lparr>cf_pos := 0, cf_flags := cf_flags f OR F_ERR\<rparr>) s) else (0, s)))"

fun fputc :: "u32 \<Rightarrow> stream option \<Rightarrow> cio \<Rightarrow> u32 \<times> cio" where
  "fputc c None s = (EOF, s)"
| "fputc c (Some x) s =
     (let f = io_file s x in
      if cf_flags f AND F_WRITE = 0 then (EOF, s)
      else
        (let f = f\<lparr>cf_buf := (cf_buf f)[cf_pos f := ucast c], cf_pos := cf_pos f + 1\<rparr>; s = set_file x f s in
         if cf_pos f = FILE_BUFSIZ \<or> cf_flags f AND F_LINEBUF = 0 \<or> c = 10 then
           (let (r, s) = fflush (Some x) s in if r = EOF then (EOF, s) else (c, s))
         else (c, s)))"

text \<open>\<open>char\<close> is signed: the byte is sign-extended to the \<open>int\<close> that \<open>fputc\<close> takes.\<close>

fun fputs :: "u8 list \<Rightarrow> stream option \<Rightarrow> cio \<Rightarrow> u32 \<times> cio" where
  "fputs [] x s = (0, s)"
| "fputs (c # cs) x s = (let (r, s) = fputc (scast c) x s in if r = EOF then (EOF, s) else fputs cs x s)"

fun fwrite_loop :: "u8 list \<Rightarrow> nat \<Rightarrow> stream option \<Rightarrow> cio \<Rightarrow> nat option \<times> cio" where
  "fwrite_loop [] i x s = (None, s)"
| "fwrite_loop (c # cs) i x s = (let (r, s) = fputc (ucast c) x s in if r = EOF then (Some i, s) else fwrite_loop cs (i + 1) x s)"

text \<open>\<open>bytes\<close> is the memory from \<open>ptr\<close> on, at least \<open>size * nmemb\<close> bytes of it.\<close>

definition fwrite :: "u8 list \<Rightarrow> u32 \<Rightarrow> u32 \<Rightarrow> stream option \<Rightarrow> cio \<Rightarrow> u32 \<times> cio" where
  "fwrite bytes sz nmemb x s =
     (if sz = 0 \<or> nmemb = 0 then (0, s)
      else (case fwrite_loop (take (unat (sz * nmemb)) bytes) 0 x s of
          (Some i, s) \<Rightarrow> (of_nat i div sz, s)
        | (None, s) \<Rightarrow> (nmemb, s)))"

text \<open>\<open>rd\<close> is the answer of the system call \<open>read\<close> for that many bytes.\<close>

definition fread :: "u32 \<Rightarrow> u32 \<Rightarrow> stream option \<Rightarrow> (u32 \<Rightarrow> u32) \<Rightarrow> u32" where
  "fread sz nmemb x rd =
     (if x = None \<or> sz = 0 \<or> nmemb = 0 then 0
      else (let n = rd (sz * nmemb) in if sint n \<le> 0 then 0 else n div sz))"

definition emit_file :: "stream option \<Rightarrow> cio emitter" where
  "emit_file x c s = (let (r, s) = fputc (ucast c) x s in Some (r \<noteq> EOF, s))"

definition fprintf :: "stream option \<Rightarrow> u8 list \<Rightarrow> parg list \<Rightarrow> cio \<Rightarrow> (u32 \<times> cio) option" where
  "fprintf x f args s = vprintf_gen (emit_file x) f args s"

definition putchar_u :: "u32 \<Rightarrow> cio \<Rightarrow> u32 \<times> cio" where
  "putchar_u ic s =
     (let c = ucast ic :: u8; (n, s) = uwrite 1 [c] s in
      if n \<noteq> 1 then (let (r, s) = fputc (scast c) (Some Stdout) s in (if r = EOF then EOF else ic, s)) else (ic, s))"

definition puts_u :: "u8 list \<Rightarrow> cio \<Rightarrow> u32 \<times> cio" where
  "puts_u str s =
     (let (n, s) = uwrite 1 str s in
      if n \<noteq> of_nat (length str) then (EOF, s)
      else (let (n, s) = uwrite 1 [10] s in (if n \<noteq> 1 then EOF else 1, s)))"

definition emit_stdout_u :: "cio emitter" where
  "emit_stdout_u c s = (let (r, s) = putchar_u (ucast c) s in Some (r \<noteq> EOF, s))"

definition printf_u :: "u8 list \<Rightarrow> parg list \<Rightarrow> cio \<Rightarrow> (u32 \<times> cio) option" where
  "printf_u f args s = vprintf_gen emit_stdout_u f args s"

text \<open>\<open>exit\<close> up to the system call: both buffers are flushed.\<close>

definition exit_flush :: "cio \<Rightarrow> cio" where
  "exit_flush s = snd (fflush (Some Stderr) (snd (fflush (Some Stdout) s)))"

subsection \<open>The stream behind the buffer\<close>

definition pending :: "stream \<Rightarrow> cio \<Rightarrow> u8 list" where
  "pending x s = take (cf_pos (io_file s x)) (cf_buf (io_file s x))"

text \<open>The two output files as they are from the start on.\<close>

definition file_ok :: "stream \<Rightarrow> cio \<Rightarrow> bool" where
  "file_ok x s \<longleftrightarrow> cf_fd (io_file s x) = cf_fd (start_file x) \<and> cf_flags (io_file s x) = cf_flags (start_file x) \<and>
     length (cf_buf (io_file s x)) = FILE_BUFSIZ \<and> cf_pos (io_file s x) < FILE_BUFSIZ"

definition is_output :: "stream \<Rightarrow> bool" where
  "is_output x \<longleftrightarrow> x = Stdout \<or> x = Stderr"

lemma fflush_ok:
  assumes "is_output x" "cf_fd (io_file s x) = cf_fd (start_file x)" "cf_flags (io_file s x) = cf_flags (start_file x)"
    "length (cf_buf (io_file s x)) = FILE_BUFSIZ" "cf_pos (io_file s x) \<le> FILE_BUFSIZ"
  shows "\<exists>s'. fflush (Some x) s = (0, s') \<and> file_ok x s' \<and> pending x s' = [] \<and> io_console s' = io_console s @ pending x s \<and>
    (\<forall>y. y \<noteq> x \<longrightarrow> io_file s' y = io_file s y)"
proof (cases "cf_pos (io_file s x) = 0")
  case True
  then show ?thesis using assms by (simp add: file_ok_def pending_def)
next
  case False
  have "sint (of_nat (cf_pos (io_file s x)) :: u32) \<ge> 0" using assms(5) by (simp add: sint_sign uint_nat unat_of_nat)
  then show ?thesis using assms False
    by (auto simp: Let_def uwrite_def set_file_def file_ok_def pending_def is_output_def min_def)
qed

lemma fputc_ok:
  assumes x: "is_output x" and ok: "file_ok x s"
  shows "\<exists>s'. fputc c (Some x) s = (c, s') \<and> file_ok x s' \<and>
    io_console s' @ pending x s' = io_console s @ pending x s @ [ucast c] \<and> (c = 10 \<or> x = Stderr \<longrightarrow> pending x s' = []) \<and>
    (\<forall>y. y \<noteq> x \<longrightarrow> io_file s' y = io_file s y)"
proof -
  let ?f = "io_file s x"
  let ?g = "?f\<lparr>cf_buf := (cf_buf ?f)[cf_pos ?f := ucast c], cf_pos := cf_pos ?f + 1\<rparr>"
  let ?s = "set_file x ?g s"
  have w: "cf_flags ?f AND F_WRITE \<noteq> 0" "cf_flags ?f AND F_LINEBUF = 0 \<longleftrightarrow> x = Stderr"
    using x ok by (auto simp: is_output_def file_ok_def)
  have p: "take (cf_pos ?f + 1) ((cf_buf ?f)[cf_pos ?f := ucast c]) = pending x s @ [ucast c]"
    using ok by (simp add: pending_def file_ok_def take_Suc_conv_app_nth)
  have g: "io_file ?s x = ?g" "io_console ?s = io_console s" "pending x ?s = pending x s @ [ucast c]"
    using p by (simp_all add: set_file_def pending_def)
  have keep: "cf_fd (io_file ?s x) = cf_fd (start_file x)" "cf_flags (io_file ?s x) = cf_flags (start_file x)"
    "length (cf_buf (io_file ?s x)) = FILE_BUFSIZ" "cf_pos (io_file ?s x) \<le> FILE_BUFSIZ" "\<forall>y. y \<noteq> x \<longrightarrow> io_file ?s y = io_file s y"
    using ok g(1) by (simp_all add: file_ok_def set_file_def)
  show ?thesis
  proof (cases "cf_pos ?g = FILE_BUFSIZ \<or> x = Stderr \<or> c = 10")
    case True
    obtain s' where s': "fflush (Some x) ?s = (0, s')" "file_ok x s'" "pending x s' = []" "io_console s' = io_console s @ pending x s @ [ucast c]"
      "\<forall>y. y \<noteq> x \<longrightarrow> io_file s' y = io_file ?s y" using fflush_ok [OF x keep(1-4)] g by auto
    have "fputc c (Some x) s = (c, s')" using w True s'(1) by (auto simp: Let_def simp del: fflush.simps)
    then show ?thesis using s'(2-5) keep(5) by (intro exI [of _ s']) (auto simp del: fputc.simps)
  next
    case False
    have "fputc c (Some x) s = (c, ?s)" using w False by (simp add: Let_def)
    moreover have "file_ok x ?s" using ok g(1) False by (simp add: file_ok_def)
    ultimately show ?thesis using g keep(5) False by simp
  qed
qed

definition stream_text :: "stream \<Rightarrow> cio \<Rightarrow> u8 list" where
  "stream_text x s = io_console s @ pending x s"

lemma fputc_char:
  assumes "is_output x" "file_ok x s"
  shows "\<exists>s'. fputc (ucast (c::u8)) (Some x) s = (ucast c, s') \<and> file_ok x s' \<and> stream_text x s' = stream_text x s @ [c] \<and>
    (c = 10 \<or> x = Stderr \<longrightarrow> pending x s' = [])"
proof -
  have "(ucast c :: u32) \<noteq> EOF" by (rule byte_not_eof)
  moreover have "ucast (ucast c :: u32) = c" by (rule bit_word_eqI) (simp add: bit_simps)
  moreover have "(ucast c :: u32) = 10 \<longleftrightarrow> c = 10"
  proof
    assume "(ucast c :: u32) = 10"
    then have "ucast (ucast c :: u32) = (ucast (10::u32) :: u8)" by simp
    with \<open>ucast (ucast c :: u32) = c\<close> show "c = 10" by simp
  qed simp
  ultimately show ?thesis using fputc_ok [OF assms, of "ucast c"] by (auto simp: stream_text_def simp del: fputc.simps)
qed

lemma emit_file_takes:
  assumes "is_output x" "file_ok x s"
  shows "\<exists>s'. emit_file (Some x) c s = Some (True, s') \<and> file_ok x s' \<and> stream_text x s' = stream_text x s @ [c] \<and>
    (c = 10 \<or> x = Stderr \<longrightarrow> pending x s' = [])"
proof -
  obtain s' where "fputc (ucast c) (Some x) s = (ucast c, s')" "file_ok x s'" "stream_text x s' = stream_text x s @ [c]"
    "c = 10 \<or> x = Stderr \<longrightarrow> pending x s' = []" using fputc_char [OF assms] by blast
  moreover have "(ucast c :: u32) \<noteq> EOF" by (rule byte_not_eof)
  ultimately show ?thesis by (simp add: emit_file_def del: fputc.simps)
qed

interpretation stdout_sink: char_sink "emit_file (Some Stdout)" "\<lambda>_. file_ok Stdout" "stream_text Stdout" "\<lambda>c. [c]"
  by unfold_locales (use emit_file_takes [of Stdout] in \<open>auto simp: is_output_def\<close>)

interpretation stderr_sink: char_sink "emit_file (Some Stderr)" "\<lambda>_. file_ok Stderr" "stream_text Stderr" "\<lambda>c. [c]"
  by unfold_locales (use emit_file_takes [of Stderr] in \<open>auto simp: is_output_def\<close>)

text \<open>\<open>fputs\<close> stops after the first byte 0xFF, which \<open>fputc\<close> gives back as the end of file.\<close>

definition taken :: "u8 list \<Rightarrow> u8 list" where
  "taken str = takeWhile (\<lambda>c. c \<noteq> 0xFF) str @ (if 0xFF \<in> set str then [0xFF] else [])"

lemma signed_char:
  "ucast (scast c :: u32) = (c::u8)" "(scast c :: u32) = EOF \<longleftrightarrow> c = 0xFF" "(scast c :: u32) = 10 \<longleftrightarrow> c = 10"
proof -
  show low: "ucast (scast c :: u32) = c" by (rule bit_word_eqI) (simp add: bit_simps)
  have "(ucast (- 1 :: u32) :: u8) = - 1" by (rule bit_word_eqI) (simp add: bit_simps)
  then have "(ucast (- 1 :: u32) :: u8) = 0xFF" by simp
  moreover have "(ucast (10 :: u32) :: u8) = 10" "(scast (0xFF :: u8) :: u32) = - 1" "(scast (10 :: u8) :: u32) = 10"
    by simp_all
  ultimately show "(scast c :: u32) = EOF \<longleftrightarrow> c = 0xFF" "(scast c :: u32) = 10 \<longleftrightarrow> c = 10" using low by metis+
qed

lemma fputs_ok:
  assumes "is_output x" "file_ok x s"
  shows "\<exists>s'. fputs str (Some x) s = (if 0xFF \<in> set str then EOF else 0, s') \<and> file_ok x s' \<and>
    stream_text x s' = stream_text x s @ taken str \<and> (str \<noteq> [] \<and> last str = 10 \<and> 0xFF \<notin> set str \<longrightarrow> pending x s' = [])"
  using assms(2)
proof (induction str arbitrary: s)
  case Nil
  then show ?case by (simp add: taken_def)
next
  case (Cons c str)
  obtain s1 where s1: "fputc (scast c) (Some x) s = (scast c, s1)" "file_ok x s1" "stream_text x s1 = stream_text x s @ [c]"
    "c = 10 \<longrightarrow> pending x s1 = []"
    using fputc_ok [OF assms(1) Cons.prems, of "scast c"] signed_char by (auto simp: stream_text_def simp del: fputc.simps)
  show ?case
  proof (cases "c = 0xFF")
    case True
    then show ?thesis using s1 signed_char(2) [of c] by (simp add: taken_def del: fputc.simps)
  next
    case False
    obtain s' where s': "fputs str (Some x) s1 = (if 0xFF \<in> set str then EOF else 0, s')" "file_ok x s'"
      "stream_text x s' = stream_text x s1 @ taken str" "str \<noteq> [] \<and> last str = 10 \<and> 0xFF \<notin> set str \<longrightarrow> pending x s' = []"
      using Cons.IH [OF s1(2)] by blast
    have "fputs (c # str) (Some x) s = (if 0xFF \<in> set (c # str) then EOF else 0, s')"
      using False s1(1) s'(1) signed_char(2) [of c] by (simp del: fputc.simps)
    moreover have "pending x s' = []" if "last (c # str) = 10" "0xFF \<notin> set (c # str)"
    proof (cases "str = []")
      case True
      then have "s' = s1" using s'(1) by simp
      then show ?thesis using that(1) True s1(4) by simp
    qed (use that s'(4) in simp)
    ultimately show ?thesis using s'(2,3) s1(3) False by (intro exI [of _ s']) (simp add: taken_def)
  qed
qed

text \<open>
  C36. Standard output is a stream with a buffer in front of it.  What a program has put on it and not yet
  seen on the console is in the buffer, which never overflows: \<open>fputs\<close> appends its text to the stream and returns 0, except
  that it stops after a byte 0xFF and reports the end of file; a text that ends with a newline leaves nothing
  pending; \<open>fflush\<close> brings the console up to date, as does \<open>exit\<close>.  But \<open>puts\<close> goes past the buffer: its line appears before the text that is pending.
\<close>

theorem stdout_stream:
  assumes "file_ok Stdout s" and "file_ok Stderr s" and "pending Stderr s = []"
  shows "\<exists>s'. fputs str (Some Stdout) s = (if 0xFF \<in> set str then EOF else 0, s') \<and> file_ok Stdout s' \<and>
    stream_text Stdout s' = stream_text Stdout s @ taken str \<and>
    (str \<noteq> [] \<and> last str = 10 \<and> 0xFF \<notin> set str \<longrightarrow> pending Stdout s' = []) \<and>
    (\<exists>s2. fflush (Some Stdout) s' = (0, s2) \<and> io_console s2 = stream_text Stdout s' \<and> pending Stdout s2 = []) \<and>
    io_console (exit_flush s') = stream_text Stdout s' \<and>
    io_console (snd (puts_u line s')) = io_console s' @ line @ [10] \<and> pending Stdout (snd (puts_u line s')) = pending Stdout s'"
proof -
  have out: "is_output Stdout" "is_output Stderr" by (simp_all add: is_output_def)
  have others: "\<And>s. file_ok Stdout s \<Longrightarrow> io_file (snd (fputs str (Some Stdout) s)) Stderr = io_file s Stderr" for str
  proof (induction str)
    case (Cons c str)
    obtain s1 where s1: "fputc (scast c) (Some Stdout) s = (scast c, s1)" "file_ok Stdout s1" "\<forall>y. y \<noteq> Stdout \<longrightarrow> io_file s1 y = io_file s y"
      using fputc_ok [OF out(1) Cons.prems, of "scast c"] by blast
    then show ?case using Cons.IH [OF s1(2)] by (simp del: fputc.simps)
  qed simp
  obtain s' where s': "fputs str (Some Stdout) s = (if 0xFF \<in> set str then EOF else 0, s')" "file_ok Stdout s'"
    "stream_text Stdout s' = stream_text Stdout s @ taken str" "str \<noteq> [] \<and> last str = 10 \<and> 0xFF \<notin> set str \<longrightarrow> pending Stdout s' = []"
    using fputs_ok [OF out(1) assms(1)] by blast
  have err: "io_file s' Stderr = io_file s Stderr" using others [OF assms(1), of str] s'(1) by simp
  obtain s2 where s2: "fflush (Some Stdout) s' = (0, s2)" "io_console s2 = stream_text Stdout s'" "pending Stdout s2 = []"
    "\<forall>y. y \<noteq> Stdout \<longrightarrow> io_file s2 y = io_file s' y"
    using fflush_ok [OF out(1), of s'] s'(2) by (auto simp: file_ok_def stream_text_def simp del: fflush.simps)
  have "io_file s2 Stderr = io_file s Stderr" using s2(4) err by simp
  moreover have "cf_pos (io_file s Stderr) = 0" using assms(2,3) by (auto simp: pending_def file_ok_def)
  ultimately have "fflush (Some Stderr) s2 = (0, s2)" by simp
  then have "io_console (exit_flush s') = stream_text Stdout s'" using s2(1,2) by (simp add: exit_flush_def)
  moreover have "snd (puts_u line s') = s'\<lparr>io_console := io_console s' @ line @ [10]\<rparr>"
    by (simp add: puts_u_def uwrite_def)
  ultimately show ?thesis using s' s2 by (intro exI [of _ s']) (simp add: pending_def del: fflush.simps)
qed

definition cio_start :: cio where
  "cio_start = \<lparr>io_console = [], io_errno = 0, io_file = start_file\<rparr>"

theorem stdout_stream_witness:
  "\<exists>s'. fputs [0x61, 0x62] (Some Stdout) cio_start = (0, s') \<and> stream_text Stdout s' = [0x61, 0x62] \<and>
     io_console (exit_flush s') = [0x61, 0x62]"
proof -
  have "file_ok Stdout cio_start" "file_ok Stderr cio_start" "pending Stderr cio_start = []" "stream_text Stdout cio_start = []"
    by (simp_all add: cio_start_def file_ok_def pending_def stream_text_def)
  with stdout_stream [OF this(1-3), of "[0x61, 0x62]" "[]"] show ?thesis
    by (elim exE conjE) (auto simp: taken_def simp del: fputs.simps fflush.simps)
qed

end
