(* ===== verification/Descriptors.thy ===== *)
theory Descriptors
  imports Prelude
begin

text \<open>
  The descriptor tables of the processor: \<open>kernel/arch/i386/gdt.c\<close>, \<open>idt.c\<close> and \<open>tss.c\<close>.  The entries are records with
  the fields of the packed structs; what the processor makes of them is written down as decoders.  The addresses of
  the tables and of the assembly entry points are parameters.  Loading the tables (\<open>lgdt\<close>, \<open>lidt\<close>, \<open>ltr\<close>) is the boundary.
\<close>

record gdt_entry =
  limit_low :: u16
  base_low :: u16
  base_middle :: u8
  access :: u8
  granularity :: u8
  base_high :: u8

record idt_entry =
  idt_base_low :: u16
  selector :: u16
  always0 :: u8
  idt_flags :: u8
  idt_base_high :: u16

text \<open>\<open>struct tss_entry\<close>: the fields that are set; the others stay zero, as \<open>memset\<close> leaves them.\<close>

record tss_entry =
  ts_esp0 :: u32
  ts_ss0 :: u32
  ts_iomap_base :: u16

record tables =
  gdt :: "gdt_entry list"
  gp_limit :: u16
  gp_base :: u32
  idt :: "idt_entry list"
  ip_limit :: u16
  ip_base :: u32
  tss :: tss_entry

definition gdt_set_gate :: "nat \<Rightarrow> u32 \<Rightarrow> u32 \<Rightarrow> u8 \<Rightarrow> u8 \<Rightarrow> tables \<Rightarrow> tables" where
  "gdt_set_gate num base limit acc gran t = t\<lparr>gdt := (gdt t)[num :=
     \<lparr>limit_low = ucast (limit AND 0xFFFF), base_low = ucast (base AND 0xFFFF), base_middle = ucast (drop_bit 16 base AND 0xFF),
      access = acc, granularity = ucast (drop_bit 16 limit AND 0x0F) OR (gran AND 0xF0), base_high = ucast (drop_bit 24 base AND 0xFF)\<rparr>]\<rparr>"

text \<open>\<open>sizeof(struct tss_entry)\<close> is 104: 25 words, \<open>ldt\<close> included, and two half words.\<close>

definition tss_install :: "nat \<Rightarrow> u16 \<Rightarrow> u32 \<Rightarrow> u32 \<Rightarrow> tables \<Rightarrow> tables" where
  "tss_install num ss0 esp0 tss_addr t =
     (let t = t\<lparr>tss := \<lparr>ts_esp0 = esp0, ts_ss0 = ucast ss0, ts_iomap_base = 104\<rparr>\<rparr>
      in gdt_set_gate num tss_addr (104 - 1) 0x89 0x00 t)"

definition tss_set_stack :: "u32 \<Rightarrow> tables \<Rightarrow> tables" where
  "tss_set_stack esp0 t = t\<lparr>tss := (tss t)\<lparr>ts_esp0 := esp0\<rparr>\<rparr>"

definition gdt_initialize :: "u32 \<Rightarrow> u32 \<Rightarrow> tables \<Rightarrow> tables" where
  "gdt_initialize gdt_addr tss_addr t =
     (let t = t\<lparr>gp_limit := 8 * 6 - 1, gp_base := gdt_addr\<rparr>;
          t = gdt_set_gate 0 0 0 0x00 0x00 t;
          t = gdt_set_gate 1 0 0xFFFFF 0x9A 0xC0 t;
          t = gdt_set_gate 2 0 0xFFFFF 0x92 0xC0 t;
          t = gdt_set_gate 3 0 0xFFFFF 0xFA 0xC0 t;
          t = gdt_set_gate 4 0 0xFFFFF 0xF2 0xC0 t
      in tss_install 5 0x10 0 tss_addr t)"

definition idt_set_gate :: "nat \<Rightarrow> u32 \<Rightarrow> u16 \<Rightarrow> u8 \<Rightarrow> tables \<Rightarrow> tables" where
  "idt_set_gate num base sel flags t = t\<lparr>idt := (idt t)[num :=
     \<lparr>idt_base_low = ucast (base AND 0xFFFF), selector = sel, always0 = 0, idt_flags = flags, idt_base_high = ucast (drop_bit 16 base AND 0xFFFF)\<rparr>]\<rparr>"

definition zero_gate :: idt_entry where
  "zero_gate = \<lparr>idt_base_low = 0, selector = 0, always0 = 0, idt_flags = 0, idt_base_high = 0\<rparr>"

text \<open>\<open>isr i\<close> and \<open>irq i\<close> are the addresses of the entry points \<open>isr0\<close>, ..., \<open>irq15\<close>; \<open>isr 128\<close> is the system call's.\<close>

definition idt_initialize :: "u32 \<Rightarrow> (nat \<Rightarrow> u32) \<Rightarrow> (nat \<Rightarrow> u32) \<Rightarrow> tables \<Rightarrow> tables" where
  "idt_initialize idt_addr isr irq t =
     (let t = t\<lparr>idt := replicate 256 zero_gate, ip_limit := 8 * 256 - 1, ip_base := idt_addr\<rparr>;
          t = fold (\<lambda>i. idt_set_gate i (isr i) 0x08 0x8E) [0 ..< 32] t;
          t = fold (\<lambda>i. idt_set_gate (32 + i) (irq i) 0x08 0x8E) [0 ..< 16] t
      in idt_set_gate 0x80 (isr 128) 0x08 0xEE t)"

subsection \<open>What the processor reads\<close>

definition seg_base :: "gdt_entry \<Rightarrow> u32" where
  "seg_base e = ucast (base_low e) OR push_bit 16 (ucast (base_middle e)) OR push_bit 24 (ucast (base_high e))"

definition seg_limit :: "gdt_entry \<Rightarrow> u32" where
  "seg_limit e = ucast (limit_low e) OR push_bit 16 (ucast (granularity e AND 0x0F))"

definition gate_offset :: "idt_entry \<Rightarrow> u32" where
  "gate_offset e = ucast (idt_base_low e) OR push_bit 16 (ucast (idt_base_high e))"

definition gate_present :: "idt_entry \<Rightarrow> bool" where
  "gate_present e \<longleftrightarrow> bit (idt_flags e) 7"

definition gate_dpl :: "idt_entry \<Rightarrow> nat" where
  "gate_dpl e = unat (drop_bit 5 (idt_flags e) AND 3)"

text \<open>
  Where vector \<open>v\<close> leads when an \<open>int\<close> instruction raises it in ring \<open>cpl\<close>: the entry point, or None for a general
  protection or not-present fault.
\<close>

definition int_target :: "tables \<Rightarrow> nat \<Rightarrow> nat \<Rightarrow> u32 option" where
  "int_target t cpl v =
     (let e = idt t ! v in
      if v < length (idt t) \<and> gate_present e \<and> cpl \<le> gate_dpl e then Some (gate_offset e) else None)"

lemma masks16: "(0xFFFF :: u32) = mask 16" "(0xFF :: u32) = mask 8" "(0xF :: u32) = mask 4" "(0xF :: u8) = mask 4" "(0xF0 :: u8) = push_bit 4 (mask 4)"
  by (simp_all add: mask_eq_exp_minus_1)

lemma gate_offset_set: "n < length (idt t) \<Longrightarrow> gate_offset (idt (idt_set_gate n base sel flags t) ! n) = base"
  unfolding gate_offset_def idt_set_gate_def masks16
  by (simp, rule bit_word_eqI) (auto simp: bit_simps)

lemma seg_base_set:
  assumes "n < length (gdt t)"
  shows "seg_base (gdt (gdt_set_gate n base limit acc gran t) ! n) = base"
proof (rule bit_word_eqI)
  fix k :: nat assume "k < LENGTH(32)"
  then consider "k < 16" | "16 \<le> k" "k < 24" | "24 \<le> k" "k < 32" by fastforce
  then show "bit (seg_base (gdt (gdt_set_gate n base limit acc gran t) ! n)) k = bit base k"
    using assms unfolding seg_base_def gdt_set_gate_def masks16 by cases (auto simp: bit_simps)
qed

lemma seg_limit_set:
  assumes "n < length (gdt t)" "limit < 0x100000"
  shows "seg_limit (gdt (gdt_set_gate n base limit acc gran t) ! n) = limit"
proof (rule bit_word_eqI)
  fix k :: nat assume "k < LENGTH(32)"
  have high: "\<not> bit limit k" if "20 \<le> k"
  proof -
    have "unat limit < 2 ^ 20" using assms(2) by (simp add: word_less_nat_alt)
    moreover have "(2::nat) ^ 20 \<le> 2 ^ k" using that by (intro power_increasing) simp_all
    ultimately have "unat limit div 2 ^ k = 0" by (intro div_less) linarith
    then have "\<not> bit (unat limit) k" by (simp add: bit_iff_odd)
    then show ?thesis by (auto simp: bit_unsigned_iff)
  qed
  consider "k < 16" | "16 \<le> k" "k < 20" | "20 \<le> k" "k < 32" using \<open>k < LENGTH(32)\<close> by fastforce
  then show "bit (seg_limit (gdt (gdt_set_gate n base limit acc gran t) ! n)) k = bit limit k"
    using assms(1) high unfolding seg_limit_def gdt_set_gate_def masks16 by cases (auto simp: bit_simps)
qed

text \<open>Code and data of both rings are flat; the last descriptor is the task state segment.\<close>

lemma gdt_flat:
  assumes "length (gdt t) = 6"
  shows "map seg_base (gdt (gdt_initialize ga ta t)) = [0, 0, 0, 0, 0, ta]"
    "map seg_limit (gdt (gdt_initialize ga ta t)) = [0, 0xFFFFF, 0xFFFFF, 0xFFFFF, 0xFFFFF, 103]"
    "map access (gdt (gdt_initialize ga ta t)) = [0, 0x9A, 0x92, 0xFA, 0xF2, 0x89]"
proof -
  obtain a b c d e f where g: "gdt t = [a, b, c, d, e, f]"
    using assms by (auto simp: numeral_eq_Suc length_Suc_conv)
  let ?u = "\<lparr>gdt = [a], gp_limit = 0, gp_base = 0, idt = [], ip_limit = 0, ip_base = 0, tss = tss t\<rparr>"
  have "seg_base \<lparr>limit_low = 103, base_low = ucast (ta AND 0xFFFF), base_middle = ucast (drop_bit 16 ta AND 0xFF),
      access = 0x89, granularity = 0, base_high = ucast (drop_bit 24 ta AND 0xFF)\<rparr> = ta"
    using seg_base_set [of 0 ?u ta 103 "0x89" 0] by (simp add: gdt_set_gate_def)
  then show "map seg_base (gdt (gdt_initialize ga ta t)) = [0, 0, 0, 0, 0, ta]"
    "map seg_limit (gdt (gdt_initialize ga ta t)) = [0, 0xFFFFF, 0xFFFFF, 0xFFFFF, 0xFFFFF, 103]"
    "map access (gdt (gdt_initialize ga ta t)) = [0, 0x9A, 0x92, 0xFA, 0xF2, 0x89]"
    by (simp_all add: gdt_initialize_def tss_install_def gdt_set_gate_def g)
      (simp_all add: seg_base_def seg_limit_def)
qed

subsection \<open>The interrupt table\<close>

lemma set_gate_idt:
  "length (idt (idt_set_gate n base sel flags t)) = length (idt t)"
  "m \<noteq> n \<Longrightarrow> idt (idt_set_gate n base sel flags t) ! m = idt t ! m"
  "n < length (idt t) \<Longrightarrow> idt_flags (idt (idt_set_gate n base sel flags t) ! n) = flags"
  by (simp_all add: idt_set_gate_def)

lemma set_gates:
  assumes "lo + n \<le> length (idt t)"
  shows "length (idt (fold (\<lambda>i. idt_set_gate (lo + i) (f i) sel flags) [0 ..< n] t)) = length (idt t) \<and>
    (\<forall>v. v < lo \<or> lo + n \<le> v \<longrightarrow> idt (fold (\<lambda>i. idt_set_gate (lo + i) (f i) sel flags) [0 ..< n] t) ! v = idt t ! v) \<and>
    (\<forall>i < n. gate_offset (idt (fold (\<lambda>i. idt_set_gate (lo + i) (f i) sel flags) [0 ..< n] t) ! (lo + i)) = f i \<and>
      idt_flags (idt (fold (\<lambda>i. idt_set_gate (lo + i) (f i) sel flags) [0 ..< n] t) ! (lo + i)) = flags)"
  using assms
proof (induction n)
  case (Suc n)
  then show ?case by (auto simp: set_gate_idt gate_offset_set less_Suc_eq)
qed simp

lemma idt_entries:
  assumes T_def: "T = idt (idt_initialize ia isr irq t)"
  shows "length T = 256"
    "v < 32 \<Longrightarrow> gate_offset (T ! v) = isr v \<and> idt_flags (T ! v) = 0x8E"
    "i < 16 \<Longrightarrow> gate_offset (T ! (32 + i)) = irq i \<and> idt_flags (T ! (32 + i)) = 0x8E"
    "gate_offset (T ! 128) = isr 128 \<and> idt_flags (T ! 128) = 0xEE"
    "48 \<le> v \<Longrightarrow> v < 256 \<Longrightarrow> v \<noteq> 128 \<Longrightarrow> T ! v = zero_gate"
proof -
  let ?t0 = "t\<lparr>idt := replicate 256 zero_gate, ip_limit := 8 * 256 - 1, ip_base := ia\<rparr>"
  let ?t1 = "fold (\<lambda>i. idt_set_gate (0 + i) (isr i) 0x08 0x8E) [0 ..< 32] ?t0"
  let ?t2 = "fold (\<lambda>i. idt_set_gate (32 + i) (irq i) 0x08 0x8E) [0 ..< 16] ?t1"
  have T: "T = idt (idt_set_gate 0x80 (isr 128) 0x08 0xEE ?t2)"
    by (simp add: T_def idt_initialize_def del: upt_rec_numeral)
  have l0: "length (idt ?t0) = 256" by simp
  note g1 = set_gates [of 0 32 ?t0 isr "0x08" "0x8E", unfolded l0]
  have l1: "length (idt ?t1) = 256" using g1 by simp
  note g2 = set_gates [of 32 16 ?t1 irq "0x08" "0x8E", unfolded l1]
  have l2: "length (idt ?t2) = 256" using g2 by simp
  show "length T = 256" unfolding T set_gate_idt(1) by (rule l2)
  have low: "T ! v = idt ?t2 ! v" if "v \<noteq> 128" for v unfolding T using that by (intro set_gate_idt(2)) simp
  show "gate_offset (T ! v) = isr v \<and> idt_flags (T ! v) = 0x8E" if "v < 32"
    using low [of v] g1 g2 that by simp
  show "gate_offset (T ! (32 + i)) = irq i \<and> idt_flags (T ! (32 + i)) = 0x8E" if "i < 16"
    using low [of "32 + i"] g2 that by simp
  show "gate_offset (T ! 128) = isr 128 \<and> idt_flags (T ! 128) = 0xEE"
    unfolding T using gate_offset_set [of 128 ?t2] set_gate_idt(3) [of 128 ?t2] l2 by simp
  show "T ! v = zero_gate" if "48 \<le> v" "v < 256" "v \<noteq> 128"
    using low [OF that(3)] g1 g2 that by simp
qed

text \<open>
  C37. After \<open>idt_initialize\<close> an \<open>int\<close> instruction in user mode reaches the kernel through vector 0x80 only, and there it
  reaches the entry point of the system call; from ring 0 the exception vectors 0 to 31 and the hardware vectors 32 to
  47 lead to their own entry points; every other vector faults, in every ring.
\<close>

theorem user_gate_only_syscall:
  "int_target (idt_initialize ia isr irq t) cpl v =
     (if v = 128 \<and> cpl \<le> 3 then Some (isr 128)
      else if v < 32 \<and> cpl = 0 then Some (isr v)
      else if 32 \<le> v \<and> v < 48 \<and> cpl = 0 then Some (irq (v - 32))
      else None)"
proof -
  note E = idt_entries [where ia = ia and isr = isr and irq = irq and t = t, OF refl]
  have flags: "bit (0x8E :: u8) 7" "drop_bit 5 (0x8E :: u8) AND 3 = 0" "bit (0xEE :: u8) 7" "drop_bit 5 (0xEE :: u8) AND 3 = 3"
    by (simp_all add: bit_numeral_rec)
  consider "v < 32" | i where "v = 32 + i" "i < 16" | "v = 128" | "48 \<le> v" "v < 256" "v \<noteq> 128" | "256 \<le> v"
  proof -
    have "v < 32 \<or> (\<exists>i. v = 32 + i \<and> i < 16) \<or> v = 128 \<or> 48 \<le> v \<and> v < 256 \<and> v \<noteq> 128 \<or> 256 \<le> v"
      by presburger
    then show thesis using that by blast
  qed
  then show ?thesis
  proof cases
    case 1
    then show ?thesis using E(1) E(2) [OF 1] flags by (simp add: int_target_def Let_def gate_present_def gate_dpl_def)
  next
    case 2
    then show ?thesis using E(1) E(3) [OF 2(2)] flags by (simp add: int_target_def Let_def gate_present_def gate_dpl_def)
  next
    case 3
    then show ?thesis using E(1,4) flags by (simp add: int_target_def Let_def gate_present_def gate_dpl_def)
  next
    case 4
    then show ?thesis using E(1) E(5) [OF 4] by (simp add: int_target_def Let_def gate_present_def zero_gate_def)
  next
    case 5
    then show ?thesis using E(1) by (simp add: int_target_def Let_def)
  qed
qed

end
