(* ===== verification/Kdb.thy ===== *)
theory Kdb
  imports Console Syscall
begin

text \<open>
  The kernel's debugger, \<open>kernel/arch/i386/kdb.c\<close> and \<open>debug.c\<close>: symbol lookup, stack traces, memory dumps, the
  history of commands, the line editor on the keyboard controller, and the commands.  It prints on the console and
  reads the kernel's state; nothing here can change that state.  The symbol table and the bounds of the kernel's code are
  parameters, made by the build.  None: an access that faults, or a device or a list that never gives what is waited for.
\<close>

definition ascii :: "string \<Rightarrow> u8 list" where
  "ascii s = map of_char s"

text \<open>\<open>printf\<close> as a statement, and several in a row.\<close>

definition say :: "string \<Rightarrow> parg list \<Rightarrow> tty \<Rightarrow> tty option" where
  "say f args t = map_option snd (printf_k (ascii f) args t)"

fun says :: "(string \<times> parg list) list \<Rightarrow> tty \<Rightarrow> tty option" where
  "says [] t = Some t"
| "says ((f, args) # ps) t = do { t \<leftarrow> say f args t; says ps t }"

type_synonym symbols = "(u32 \<times> u8 list) list"

record code_map =
  ksymbols :: symbols
  kernel_start :: u32
  kernel_end :: u32

subsection \<open>Diagnostics\<close>

definition better :: "u32 \<Rightarrow> u32 \<times> u8 list \<Rightarrow> (u32 \<times> u8 list) option \<Rightarrow> (u32 \<times> u8 list) option" where
  "better addr s best =
     (if fst s \<le> addr \<and> (case best of None \<Rightarrow> True | Some b \<Rightarrow> fst s > fst b) then Some s else best)"

definition symbol_lookup :: "symbols \<Rightarrow> u32 \<Rightarrow> (u8 list \<times> u32) option" where
  "symbol_lookup tab addr = map_option (\<lambda>b. (snd b, addr - fst b)) (fold (better addr) tab None)"

text \<open>\<open>n\<close>: frames still allowed; \<open>i\<close>: the number of the frame.\<close>

fun stack_trace_from :: "code_map \<Rightarrow> mm_state \<Rightarrow> u32 \<Rightarrow> u32 \<Rightarrow> nat \<Rightarrow> tty \<Rightarrow> tty option" where
  "stack_trace_from cm m frame i 0 t = Some t"
| "stack_trace_from cm m frame i (Suc n) t =
     (if frame = 0 then Some t
      else do {
        bad \<leftarrow> (if frame AND 3 \<noteq> 0 then Some True else map_option (\<lambda>p. p = 0xFFFFFFFF) (paging_virt_to_phys frame m));
        if bad then say ''  <bad frame pointer 0x%x>\<newline>'' [PInt frame] t
        else do {
          eip \<leftarrow> vread32 m (frame + 4);
          if eip < kernel_start cm \<or> eip > kernel_end cm then say ''  <trace ends at assembly boundary>\<newline>'' [] t
          else do {
            t \<leftarrow> (case symbol_lookup (ksymbols cm) eip of
                Some (name, off) \<Rightarrow> say ''  [%d] 0x%x  %s+0x%x\<newline>'' [PInt i, PInt eip, PStr name, PInt off] t
              | None \<Rightarrow> say ''  [%d] 0x%x\<newline>'' [PInt i, PInt eip] t);
            up \<leftarrow> vread32 m frame;
            stack_trace_from cm m up (i + 1) n t
          }
        }
      })"

text \<open>\<open>ebp\<close> is the frame pointer at the call.\<close>

definition stack_trace :: "code_map \<Rightarrow> mm_state \<Rightarrow> u32 \<Rightarrow> nat \<Rightarrow> tty \<Rightarrow> tty option" where
  "stack_trace cm m ebp max_frames t = do { t \<leftarrow> say ''Stack trace:\<newline>'' [] t; stack_trace_from cm m ebp 0 max_frames t }"

fun dump_hex :: "mm_state \<Rightarrow> u32 list \<Rightarrow> tty \<Rightarrow> tty option" where
  "dump_hex m [] t = Some t"
| "dump_hex m (a # as) t = do { b \<leftarrow> vread8 m a; t \<leftarrow> say ''%x '' [PInt (ucast b)] t; dump_hex m as t }"

fun dump_chars :: "mm_state \<Rightarrow> u32 list \<Rightarrow> tty \<Rightarrow> tty option" where
  "dump_chars m [] t = Some t"
| "dump_chars m (a # as) t = do {
     b \<leftarrow> vread8 m a;
     t \<leftarrow> say ''%c'' [PInt (if 32 \<le> b \<and> b < 127 then ucast b else 0x2E)] t;
     dump_chars m as t
   }"

fun hexdump_rows :: "mm_state \<Rightarrow> u32 list \<Rightarrow> tty \<Rightarrow> tty option" where
  "hexdump_rows m [] t = Some t"
| "hexdump_rows m (a # as) t =
     (let row = map (\<lambda>j. a + of_nat j) [0 ..< 16] in do {
        t \<leftarrow> say ''%x: '' [PInt a] t;
        t \<leftarrow> dump_hex m row t;
        t \<leftarrow> say '' '' [] t;
        t \<leftarrow> dump_chars m row t;
        t \<leftarrow> say ''\<newline>'' [] t;
        hexdump_rows m as t
      })"

text \<open>For at most 0xFFFFFFF0 bytes; the one caller asks for 128.\<close>

definition hexdump :: "mm_state \<Rightarrow> u32 \<Rightarrow> u32 \<Rightarrow> tty \<Rightarrow> tty option" where
  "hexdump m addr bytes t = hexdump_rows m (map (\<lambda>r. addr + of_nat (16 * r)) [0 ..< (unat bytes + 15) div 16]) t"

definition dump_registers :: "int_frame \<Rightarrow> tty \<Rightarrow> tty option" where
  "dump_registers r t = says
     [(''eax=%x ebx=%x ecx=%x edx=%x\<newline>'', [PInt (f_eax r), PInt (f_ebx r), PInt (f_ecx r), PInt (f_edx r)]),
      (''esi=%x edi=%x ebp=%x esp=%x\<newline>'', [PInt (f_esi r), PInt (f_edi r), PInt (f_ebp r), PInt (f_esp_dummy r)]),
      (''eip=%x cs=%x eflags=%x\<newline>'', [PInt (f_eip r), PInt (f_cs r), PInt (f_eflags r)])] t"

subsection \<open>The history of commands\<close>

abbreviation (input) HIST_SIZE :: nat where "HIST_SIZE \<equiv> 16"

text \<open>Each entry is the string its 80 bytes hold.\<close>

record history =
  hist :: "u8 list list"
  hist_count :: nat
  hist_next :: nat

definition hist_get :: "nat \<Rightarrow> history \<Rightarrow> u8 list" where
  "hist_get pos h = hist h ! nat ((int (hist_next h) - 1 - int pos + int HIST_SIZE * 2) mod int HIST_SIZE)"

definition hist_add :: "u8 list \<Rightarrow> history \<Rightarrow> history" where
  "hist_add line h =
     (if line = [] then h
      else if hist_count h \<noteq> 0 \<and> hist_get 0 h = line then h
      else h\<lparr>hist := (hist h)[hist_next h := take 79 line],
             hist_next := (hist_next h + 1) mod HIST_SIZE,
             hist_count := (if hist_count h < HIST_SIZE then hist_count h + 1 else hist_count h)\<rparr>)"

subsection \<open>The keyboard, polled\<close>

definition kdb_keys :: "u8 list" where
  "kdb_keys = [0, 27] @ ascii ''1234567890-='' @ [8, 9] @ ascii ''qwertyuiop[]'' @ [10, 0] @ ascii ''asdfghjkl;'' @ [0x27, 0x60, 0, 0x5C] @
     ascii ''zxcvbnm,./'' @ [0, 0x2A, 0, 0x20] @ replicate 70 0"

definition arrow :: "u8 \<Rightarrow> u32 option" where
  "arrow sc = (if sc = 0x48 then Some 0x100 else if sc = 0x50 then Some 0x101
     else if sc = 0x4B then Some 0x102 else if sc = 0x4D then Some 0x103 else None)"

partial_function (option) kdb_getchar :: "bool \<Rightarrow> ports \<Rightarrow> (u32 \<times> ports) option" where
  "kdb_getchar ext d = do {
     (st, d) \<leftarrow> inb d;
     if st AND 1 = 0 then kdb_getchar ext d
     else do {
       (sc, d) \<leftarrow> inb d;
       if sc = 0xE0 then kdb_getchar True d
       else if sc AND 0x80 \<noteq> 0 then kdb_getchar False d
       else if ext then (case arrow sc of Some k \<Rightarrow> Some (k, d) | None \<Rightarrow> kdb_getchar False d)
       else if kdb_keys ! unat sc \<noteq> 0 then Some (ucast (kdb_keys ! unat sc), d)
       else kdb_getchar ext d
     }
   }"

subsection \<open>The line editor\<close>

text \<open>\<open>i\<close>, \<open>hpos\<close> (\<open>-1\<close>: a fresh line) and the buffer of \<open>max\<close> bytes.\<close>

record edit =
  ed_i :: nat
  ed_hpos :: int
  ed_buf :: "u8 list"

text \<open>\<open>strcpy\<close> into the buffer.\<close>

definition copy_in :: "u8 list \<Rightarrow> u8 list \<Rightarrow> u8 list" where
  "copy_in s buf = s @ [0] @ drop (length s + 1) buf"

text \<open>One key other than newline: the new state of the line and what is printed.\<close>

definition edit_key :: "nat \<Rightarrow> history \<Rightarrow> u32 \<Rightarrow> edit \<Rightarrow> edit \<times> (string \<times> parg list) list" where
  "edit_key mx h c e =
     (if c = 8 then (if ed_i e \<noteq> 0 then (e\<lparr>ed_i := ed_i e - 1\<rparr>, [([CHR 8], [])]) else (e, []))
      else if c = 0x100 \<or> c = 0x101 then
        (if hist_count h = 0 then (e, [])
         else if c = 0x100 \<and> ed_hpos e \<ge> int (hist_count h) - 1 then (e, [])
         else if c \<noteq> 0x100 \<and> ed_hpos e < 0 then (e, [])
         else
           (let p = (if c = 0x100 then ed_hpos e + 1 else ed_hpos e - 1); rub = replicate (ed_i e) ([CHR 8], []) in
            if p \<ge> 0 then
              (let s = hist_get (nat p) h
               in (e\<lparr>ed_i := length s, ed_hpos := p, ed_buf := copy_in s (ed_buf e)\<rparr>, rub @ [(''%s'', [PStr s])]))
            else (e\<lparr>ed_i := 0, ed_hpos := p\<rparr>, rub)))
      else if c < 128 \<and> ed_i e < mx - 1 then
        (e\<lparr>ed_i := ed_i e + 1, ed_buf := (ed_buf e)[ed_i e := ucast c]\<rparr>, [(''%c'', [PInt c])])
      else (e, []))"

partial_function (option) readline_loop :: "nat \<Rightarrow> edit \<Rightarrow> history \<Rightarrow> tty \<Rightarrow> (u8 list \<times> history \<times> tty) option" where
  "readline_loop mx e h t = do {
     (c, d) \<leftarrow> kdb_getchar False (tty_ports t);
     let t = t\<lparr>tty_ports := d\<rparr>;
     if c = 10 then
       (let line = takeWhile (\<lambda>c. c \<noteq> 0) ((ed_buf e)[ed_i e := 0])
        in do { t \<leftarrow> say ''\<newline>'' [] t; Some (line, hist_add line h, t) })
     else
       (let (e, ps) = edit_key mx h c e in do { t \<leftarrow> says ps t; readline_loop mx e h t })
   }"

definition kdb_readline :: "u8 list \<Rightarrow> history \<Rightarrow> tty \<Rightarrow> (u8 list \<times> history \<times> tty) option" where
  "kdb_readline buf h t = readline_loop (length buf) \<lparr>ed_i = 0, ed_hpos = - 1, ed_buf = buf\<rparr> h t"

subsection \<open>Hexadecimal arguments\<close>

definition hex_digit :: "u8 \<Rightarrow> u32 option" where
  "hex_digit c =
     (if 0x30 \<le> c \<and> c \<le> 0x39 then Some (ucast c - 0x30)
      else if 0x61 \<le> c \<and> c \<le> 0x66 then Some (ucast c - 0x61 + 10)
      else if 0x41 \<le> c \<and> c \<le> 0x46 then Some (ucast c - 0x41 + 10)
      else None)"

text \<open>The shift comes before the character is looked at.\<close>

fun hex_loop :: "u8 list \<Rightarrow> u32 \<Rightarrow> u32" where
  "hex_loop [] v = v"
| "hex_loop (c # cs) v =
     (let v = push_bit 4 v in case hex_digit c of None \<Rightarrow> v | Some d \<Rightarrow> hex_loop cs (v OR d))"

definition parse_hex :: "u8 list \<Rightarrow> u32" where
  "parse_hex s =
     (let s = (if peek s = 0x30 \<and> (peek (tl s) = 0x78 \<or> peek (tl s) = 0x58) then tl (tl s) else s)
      in hex_loop s 0)"

subsection \<open>The commands\<close>

definition cmd_help :: "tty \<Rightarrow> tty option" where
  "cmd_help t = says (map (\<lambda>s. (s @ ''\<newline>'', []))
     [''Commands:'',
      ''  r          registers'',
      ''  bt         backtrace'',
      ''  x <addr>   hexdump 128 bytes'',
      ''  sym <addr> resolve address to symbol'',
      ''  v <addr>   translate virtual to physical'',
      ''  mem        memory statistics'',
      ''  tasks      list all tasks'',
      ''  ls         list initrd files'',
      ''  cat <name> print a file'',
      ''  history    shows history of commands'',
      ''  clear      clear the screen'',
      ''  c          continue'',
      ''  reboot     triple-fault reset'']) t"

text \<open>The \<open>do ... while\<close> around the ring; a null \<open>next\<close> is a fault.\<close>

partial_function (option) tasks_loop :: "code_map \<Rightarrow> kernel \<Rightarrow> task_ref \<Rightarrow> task_ref \<Rightarrow> u32 \<Rightarrow> tty \<Rightarrow> tty option" where
  "tasks_loop cm k cur t i y = do {
     let r = task_regs (tasks (sched k) t);
     let n = (case symbol_lookup (ksymbols cm) (t_eip r) of None \<Rightarrow> ascii ''?'' | Some (name, _) \<Rightarrow> name);
     y \<leftarrow> say ''  [%d]%s eip=%x esp=%x %s\<newline>''
       [PInt i, PStr (if t = cur then ascii '' *'' else ascii ''  ''), PInt (t_eip r), PInt (t_esp r), PStr n] y;
     y \<leftarrow> (if t \<noteq> cur then stack_trace_from cm (mm k) (t_ebp r) 0 5 y else Some y);
     nx \<leftarrow> task_next (tasks (sched k) t);
     if nx = cur then Some y else tasks_loop cm k cur nx (i + 1) y
   }"

definition cmd_tasks :: "code_map \<Rightarrow> kernel \<Rightarrow> tty \<Rightarrow> tty option" where
  "cmd_tasks cm k t = tasks_loop cm k (running (sched k)) (running (sched k)) 0 t"

partial_function (option) ls_loop :: "fs_state \<Rightarrow> u32 \<Rightarrow> tty \<Rightarrow> tty option" where
  "ls_loop f i t =
     (case vfs_readdir f (fs_root f) i of
        None \<Rightarrow> Some t
      | Some (name, _) \<Rightarrow> do {
          let len = (case vfs_finddir f (fs_root f) name of None \<Rightarrow> 0 | Some n \<Rightarrow> node_length (node_of f n));
          t \<leftarrow> say ''  %s  (%d bytes)\<newline>'' [PStr name, PInt len] t;
          ls_loop f (i + 1) t
        })"

definition cmd_ls :: "kernel \<Rightarrow> tty \<Rightarrow> tty option" where
  "cmd_ls k t = ls_loop (fs k) 0 t"

text \<open>\<open>%s\<close> prints the buffer up to the first zero byte of the file, or the one put behind what was read.\<close>

partial_function (option) cat_loop :: "kernel \<Rightarrow> node_ref \<Rightarrow> u32 \<Rightarrow> tty \<Rightarrow> tty option" where
  "cat_loop k n off t =
     (if \<not> off < node_length (node_of (fs k) n) then Some t
      else do {
        (got, bs) \<leftarrow> vfs_read (\<lambda>dst src len _. read_bytes (vread8 (mm k)) src len) (fs k) (Some n) off 127 0 [];
        if got = 0 then Some t
        else do { t \<leftarrow> say ''%s'' [PStr (takeWhile (\<lambda>c. c \<noteq> 0) bs)] t; cat_loop k n (off + got) t }
      })"

definition cmd_cat :: "kernel \<Rightarrow> u8 list \<Rightarrow> tty \<Rightarrow> tty option" where
  "cmd_cat k name t =
     (case vfs_finddir (fs k) (fs_root (fs k)) name of
        None \<Rightarrow> say ''not found: %s\<newline>'' [PStr name] t
      | Some n \<Rightarrow> do { t \<leftarrow> cat_loop k n 0 t; say ''\<newline>'' [] t })"

definition cmd_history :: "history \<Rightarrow> tty \<Rightarrow> tty option" where
  "cmd_history h t = says (map (\<lambda>p. (''  %d  %s\<newline>'', [PInt (of_nat (hist_count h - p)), PStr (hist_get p h)]))
     (rev [0 ..< hist_count h])) t"

datatype kdb_next = Kdb_Stay | Kdb_Continue | Kdb_Reset

text \<open>
  One line.  \<open>regs\<close> is None for a null pointer; \<open>ebp\<close> is the frame pointer for the backtrace.  \<open>sym\<close> and \<open>v\<close>
  without an argument dereference a null pointer.
\<close>

definition kdb_command :: "code_map \<Rightarrow> kernel \<Rightarrow> int_frame option \<Rightarrow> u32 \<Rightarrow> u8 list \<Rightarrow> history \<Rightarrow> tty \<Rightarrow> (kdb_next \<times> tty) option" where
  "kdb_command cm k regs ebp input h t =
     (let line = takeWhile (\<lambda>c. c \<noteq> 0x20) input;
          arg = (if 0x20 \<in> set input then Some (tl (dropWhile (\<lambda>c. c \<noteq> 0x20) input)) else None);
          stay = map_option (Pair Kdb_Stay) in
      if line = ascii ''help'' then stay (cmd_help t)
      else if line = ascii ''r'' then
        stay (case regs of Some r \<Rightarrow> dump_registers r t | None \<Rightarrow> say ''no saved state\<newline>'' [] t)
      else if line = ascii ''bt'' then stay (stack_trace cm (mm k) ebp 16 t)
      else if line = ascii ''x'' then
        stay (case arg of Some a \<Rightarrow> hexdump (mm k) (parse_hex a) 128 t | None \<Rightarrow> Some t)
      else if line = ascii ''sym'' then
        stay (case arg of
            None \<Rightarrow> None
          | Some a \<Rightarrow> (case symbol_lookup (ksymbols cm) (parse_hex a) of
                Some (n, off) \<Rightarrow> say ''%s+0x%x\<newline>'' [PStr n, PInt off] t
              | None \<Rightarrow> say ''<unknown>\<newline>'' [] t))
      else if line = ascii ''v'' then
        stay (case arg of
            None \<Rightarrow> None
          | Some a \<Rightarrow> do { p \<leftarrow> paging_virt_to_phys (parse_hex a) (mm k); say ''phys = 0x%x\<newline>'' [PInt p] t })
      else if line = ascii ''mem'' then
        stay (says [(''free frames: %d\<newline>'', [PInt (pmm_free_frame_count (pmm (mm k)))]),
          (''heap used:   %d bytes\<newline>'', [PInt (kheap_used (heap k))])] t)
      else if line = ascii ''tasks'' then stay (cmd_tasks cm k t)
      else if line = ascii ''ls'' then stay (cmd_ls k t)
      else if line = ascii ''cat'' then stay (case arg of Some a \<Rightarrow> cmd_cat k a t | None \<Rightarrow> Some t)
      else if line = ascii ''history'' then stay (cmd_history h t)
      else if line = ascii ''clear'' then stay (Some (terminal_clear_to_anchor t))
      else if line = ascii ''c'' then Some (Kdb_Continue, t)
      else if line = ascii ''reboot'' then Some (Kdb_Reset, t)
      else if line \<noteq> [] then stay (say ''unknown: %s\<newline>'' [PStr line] t)
      else Some (Kdb_Stay, t))"

text \<open>The result says whether the debugger was left with \<open>c\<close>.  What the line buffer held before does not matter: a line ends at its own zero byte.\<close>

partial_function (option) kdb_loop :: "code_map \<Rightarrow> kernel \<Rightarrow> int_frame option \<Rightarrow> u32 \<Rightarrow> history \<Rightarrow> tty \<Rightarrow> (kdb_next \<times> history \<times> tty) option" where
  "kdb_loop cm k regs ebp h t = do {
     t \<leftarrow> say ''kdb> '' [] t;
     (input, h, t) \<leftarrow> kdb_readline (replicate 80 0) h t;
     (r, t) \<leftarrow> kdb_command cm k regs ebp input h t;
     if r = Kdb_Stay then kdb_loop cm k regs ebp h t else Some (r, h, t)
   }"

definition kdb_enter :: "code_map \<Rightarrow> kernel \<Rightarrow> int_frame option \<Rightarrow> u32 \<Rightarrow> history \<Rightarrow> tty \<Rightarrow> (kdb_next \<times> history \<times> tty) option" where
  "kdb_enter cm k regs ebp h t = do {
     t \<leftarrow> say ''\<newline>=== kernel debugger === (type 'help')\<newline>'' [] (terminal_set_anchor t);
     kdb_loop cm k regs ebp h t
   }"

text \<open>\<open>panic\<close>: the message, the trace and the debugger; when that is left the processor halts for good.\<close>

definition panic :: "code_map \<Rightarrow> kernel \<Rightarrow> u8 list \<Rightarrow> u32 \<Rightarrow> history \<Rightarrow> tty \<Rightarrow> (kdb_next \<times> history \<times> tty) option" where
  "panic cm k msg ebp h t = do {
     t \<leftarrow> say ''\<newline>*** KERNEL PANIC ***\<newline>%s\<newline>'' [PStr msg] t;
     t \<leftarrow> stack_trace cm (mm k) ebp 16 t;
     kdb_enter cm k None ebp h t
   }"

subsection \<open>What they compute\<close>

text \<open>The symbol found is the last one at or below the address.\<close>

lemma symbol_scan:
  "case fold (better addr) tab best of
     None \<Rightarrow> best = None \<and> (\<forall>s \<in> set tab. \<not> fst s \<le> addr)
   | Some b \<Rightarrow> (b \<in> set tab \<and> fst b \<le> addr \<or> best = Some b) \<and> (\<forall>s \<in> set tab. fst s \<le> addr \<longrightarrow> fst s \<le> fst b) \<and>
       (\<forall>c. best = Some c \<longrightarrow> fst c \<le> fst b)"
proof (induction tab arbitrary: best)
  case Nil
  then show ?case by (simp split: option.splits)
next
  case (Cons s tab)
  note IH = Cons.IH [of "better addr s best"]
  consider "better addr s best = Some s" "fst s \<le> addr" "\<forall>c. best = Some c \<longrightarrow> fst c \<le> fst s"
    | "better addr s best = best" "fst s \<le> addr \<longrightarrow> (\<exists>c. best = Some c \<and> fst s \<le> fst c)"
  proof (cases "fst s \<le> addr \<and> (case best of None \<Rightarrow> True | Some b \<Rightarrow> fst s > fst b)")
    case True
    then show thesis by (intro that(1)) (auto simp: better_def split: option.splits)
  next
    case False
    then show thesis by (intro that(2)) (auto simp: better_def split: option.splits)
  qed
  then show ?case
  proof cases
    case 1
    then show ?thesis using IH by (fastforce split: option.splits)
  next
    case 2
    then show ?thesis using IH by (fastforce split: option.splits)
  qed
qed

lemma symbol_lookup_nearest:
  "case symbol_lookup tab addr of
     None \<Rightarrow> \<forall>s \<in> set tab. \<not> fst s \<le> addr
   | Some (name, off) \<Rightarrow> \<exists>a. (a, name) \<in> set tab \<and> a \<le> addr \<and> off = addr - a \<and> (\<forall>s \<in> set tab. fst s \<le> addr \<longrightarrow> fst s \<le> a)"
  using symbol_scan [where addr = addr and tab = tab and best = None] by (auto simp: symbol_lookup_def split: option.splits)

text \<open>Hexadecimal digits up to the end are their number; a character behind them multiplies it by 16.\<close>

lemma push_or:
  assumes "d < (16::u32)"
  shows "push_bit 4 v OR d = v * 16 + d"
proof -
  have "push_bit 4 v AND d = 0"
  proof (rule bit_word_eqI)
    fix k :: nat
    have "\<not> bit d k" if "4 \<le> k"
    proof -
      have "unat d < 2 ^ 4" using assms by (simp add: word_less_nat_alt)
      moreover have "(2::nat) ^ 4 \<le> 2 ^ k" using that by (intro power_increasing) simp_all
      ultimately have "unat d div 2 ^ k = 0" by (intro div_less) linarith
      then have "\<not> bit (unat d) k" by (simp add: bit_iff_odd)
      then show ?thesis by (auto simp: bit_unsigned_iff)
    qed
    then show "bit (push_bit 4 v AND d) k = bit (0::u32) k" by (auto simp: bit_simps)
  qed
  then have "push_bit 4 v OR d = push_bit 4 v + d" by (rule disjunctive_add_eq_or [symmetric])
  then show ?thesis by (simp add: push_bit_eq_mult)
qed

lemma hex_digit_less: "hex_digit c = Some d \<Longrightarrow> d < 16"
proof -
  assume d: "hex_digit c = Some d"
  have u: "unat c < 256" using unsigned_less [of c, where 'a = nat] by simp
  have cu: "unat (ucast c :: u32) = unat c" using u by (simp add: unsigned_ucast_eq take_bit_eq_mod)
  show ?thesis using d u
    by (auto simp: hex_digit_def word_le_nat_alt word_less_nat_alt cu unat_sub_if' unat_word_ariths split: if_splits)
qed

lemma hex_loop_value:
  assumes "map hex_digit cs = map Some ds"
  shows "hex_loop (cs @ rest) v = (case rest of
      [] \<Rightarrow> foldl (\<lambda>v d. v * 16 + d) v ds
    | c # _ \<Rightarrow> if hex_digit c = None then foldl (\<lambda>v d. v * 16 + d) v ds * 16 else hex_loop rest (foldl (\<lambda>v d. v * 16 + d) v ds))"
  using assms
proof (induction cs arbitrary: ds v)
  case Nil
  then show ?case by (auto simp: push_bit_eq_mult split: list.splits)
next
  case (Cons c cs)
  then obtain d ds' where d: "ds = d # ds'" "hex_digit c = Some d" "map hex_digit cs = map Some ds'" by (cases ds) auto
  show ?case using Cons.IH [OF d(3)] d(1,2) push_or [OF hex_digit_less [OF d(2)]] by (cases rest) (simp_all add: Let_def)
qed

subsection \<open>The history as a list\<close>

text \<open>Most recent first.\<close>

definition recent :: "history \<Rightarrow> u8 list list" where
  "recent h = map (\<lambda>p. hist_get p h) [0 ..< hist_count h]"

definition hist_ok :: "history \<Rightarrow> bool" where
  "hist_ok h \<longleftrightarrow> length (hist h) = HIST_SIZE \<and> hist_next h < HIST_SIZE \<and> hist_count h \<le> HIST_SIZE \<and>
     (\<forall>s \<in> set (hist h). length s \<le> 79)"

definition hist_slot :: "nat \<Rightarrow> nat \<Rightarrow> nat" where
  "hist_slot nx p = (nx + 31 - p) mod 16"

lemma hist_get_slot: "p < 16 \<Longrightarrow> hist_get p h = hist h ! hist_slot (hist_next h) p"
proof -
  assume p: "p < 16"
  have "int (hist_next h) - 1 - int p + int HIST_SIZE * 2 = int (hist_next h + 31 - p)" using p by simp
  then have "(int (hist_next h) - 1 - int p + int HIST_SIZE * 2) mod int HIST_SIZE = int ((hist_next h + 31 - p) mod 16)"
    by (simp only: zmod_int)
  then show ?thesis by (simp add: hist_get_def hist_slot_def)
qed

lemma hist_slot_less: "hist_slot nx p < 16"
  by (simp add: hist_slot_def)

lemma hist_slot_step:
  assumes "nx < 16" "p < 15"
  shows "hist_slot ((nx + 1) mod 16) (Suc p) = hist_slot nx p" "hist_slot ((nx + 1) mod 16) 0 = nx" "hist_slot nx p \<noteq> nx"
proof -
  have s: "(nx + 1) mod 16 = (if nx = 15 then 0 else nx + 1)" using assms(1) by (auto simp: mod_if)
  show "hist_slot ((nx + 1) mod 16) (Suc p) = hist_slot nx p"
  proof (cases "nx = 15")
    case True
    have "46 - p = 30 - p + 16" using assms(2) by simp
    then have "(46 - p) mod 16 = (30 - p) mod 16" by (simp only: mod_add_self2)
    then show ?thesis using True unfolding hist_slot_def s by simp
  next
    case False
    then have "nx + 1 + 31 - Suc p = nx + 31 - p" using assms(2) by simp
    then show ?thesis using False unfolding hist_slot_def s by simp
  qed
  show "hist_slot ((nx + 1) mod 16) 0 = nx"
  proof (cases "nx = 15")
    case False
    then have "nx + 1 + 31 - 0 = nx + 16 * 2" by simp
    then show ?thesis using False assms(1) unfolding hist_slot_def s by (simp only: if_False mod_mult_self2) simp
  qed (simp add: hist_slot_def s)
  show "hist_slot nx p \<noteq> nx"
  proof (cases "p < nx")
    case True
    then have "nx + 31 - p = (nx - 1 - p) + 16 * 2" by simp
    then have "hist_slot nx p = (nx - 1 - p) mod 16" unfolding hist_slot_def by (simp only: mod_mult_self2)
    also have "\<dots> = nx - 1 - p" using assms by simp
    finally show ?thesis using True by simp
  next
    case False
    then have "nx + 31 - p = (nx + 15 - p) + 16" using assms(2) by simp
    then have "hist_slot nx p = (nx + 15 - p) mod 16" unfolding hist_slot_def by (simp only: mod_add_self2)
    also have "\<dots> = nx + 15 - p" using False by simp
    finally show ?thesis using assms(2) by simp
  qed
qed

lemma hist_add_recent:
  assumes ok: "hist_ok h" and len: "length line \<le> 79"
  shows "hist_ok (hist_add line h)"
    "recent (hist_add line h) = (if line = [] \<or> recent h \<noteq> [] \<and> hd (recent h) = line then recent h else take 16 (line # recent h))"
proof -
  have h: "length (hist h) = 16" "hist_next h < 16" "hist_count h \<le> 16" using ok by (simp_all add: hist_ok_def)
  show "hist_ok (hist_add line h)"
    using ok len by (auto simp: hist_ok_def hist_add_def dest: set_update_subset_insert [THEN subsetD])
  have hd: "recent h \<noteq> [] \<and> hd (recent h) = line \<longleftrightarrow> hist_count h \<noteq> 0 \<and> hist_get 0 h = line"
    by (auto simp: recent_def hd_map upt_rec)
  show "recent (hist_add line h) = (if line = [] \<or> recent h \<noteq> [] \<and> hd (recent h) = line then recent h else take 16 (line # recent h))"
  proof (cases "line = [] \<or> hist_count h \<noteq> 0 \<and> hist_get 0 h = line")
    case True
    then show ?thesis unfolding hd by (auto simp: hist_add_def)
  next
    case False
    let ?g = "hist_add line h"
    have g: "hist ?g = (hist h)[hist_next h := line]" "hist_next ?g = (hist_next h + 1) mod 16"
      "hist_count ?g = min 16 (Suc (hist_count h))" using False len h by (auto simp: hist_add_def)
    have "recent ?g ! i = take 16 (line # recent h) ! i" if "i < hist_count ?g" for i
    proof (cases i)
      case 0
      have "recent ?g ! i = hist_get 0 ?g"
        using that 0 by (simp add: recent_def nth_map del: upt_Suc)
      also have "\<dots> = line" using g h hist_slot_step(2) [of "hist_next h" 0] by (simp add: hist_get_slot)
      finally show ?thesis using 0 by simp
    next
      case (Suc p)
      then have p: "p < 15" "p < hist_count h" "i < 16" using that g(3) by auto
      have "hist_get i ?g = hist_get p h"
        using hist_slot_step [OF h(2) p(1)] p h g Suc by (simp add: hist_get_slot)
      moreover have "recent ?g ! i = hist_get i ?g" "recent h ! p = hist_get p h" using that p by (simp_all add: recent_def nth_map del: upt_Suc)
      ultimately show ?thesis using Suc p by simp
    qed
    moreover have "length (recent ?g) = length (take 16 (line # recent h))" using g(3) by (simp add: recent_def min.commute)
    moreover have "length (recent ?g) = hist_count ?g" by (simp add: recent_def)
    ultimately have "recent ?g = take 16 (line # recent h)" by (intro nth_equalityI) simp_all
    then show ?thesis using False unfolding hd by auto
  qed
qed

text \<open>The editor stays in its buffer.\<close>

definition edit_ok :: "nat \<Rightarrow> history \<Rightarrow> edit \<Rightarrow> bool" where
  "edit_ok mx h e \<longleftrightarrow> length (ed_buf e) = mx \<and> ed_i e < mx \<and> - 1 \<le> ed_hpos e \<and> ed_hpos e < int (hist_count h)"

lemma hist_get_short:
  assumes "hist_ok h" "0 \<le> p" "p < int (hist_count h)"
  shows "length (hist_get (nat p) h) \<le> 79"
proof -
  have "hist_count h \<le> 16" using assms(1) by (simp add: hist_ok_def)
  then have "nat p < 16" using assms(2,3) by linarith
  then have "hist_get (nat p) h \<in> set (hist h)"
    using hist_slot_less [of "hist_next h" "nat p"] assms(1) by (simp add: hist_get_slot hist_ok_def)
  then show ?thesis using assms(1) by (simp add: hist_ok_def)
qed

lemma edit_recall_ok:
  assumes "hist_ok h" "length buf = 80" "0 \<le> p" "p < int (hist_count h)"
  shows "edit_ok 80 h (e\<lparr>ed_i := length (hist_get (nat p) h), ed_hpos := p, ed_buf := copy_in (hist_get (nat p) h) buf\<rparr>)"
  using hist_get_short [OF assms(1,3,4)] assms by (simp add: edit_ok_def copy_in_def)

lemma edit_key_ok:
  assumes h: "hist_ok h" and e: "edit_ok 80 h e"
  shows "edit_ok 80 h (fst (edit_key 80 h c e))"
proof -
  consider "c = 0x100" | "c = 0x101" | "c \<noteq> 0x100" "c \<noteq> 0x101" by blast
  then show ?thesis
  proof cases
    case 1
    then show ?thesis using e edit_recall_ok [OF h, of "ed_buf e" "ed_hpos e + 1" e] by (simp add: edit_key_def edit_ok_def Let_def)
  next
    case 2
    then show ?thesis using e edit_recall_ok [OF h, of "ed_buf e" "ed_hpos e - 1" e] by (simp add: edit_key_def edit_ok_def Let_def)
  next
    case 3
    then show ?thesis using e by (auto simp: edit_key_def edit_ok_def)
  qed
qed

text \<open>The keys of a line one after the other, and the string in the buffer when newline ends it.\<close>

definition typed :: "history \<Rightarrow> u8 list \<Rightarrow> u32 list \<Rightarrow> edit" where
  "typed h buf keys = fold (\<lambda>c e. fst (edit_key 80 h c e)) keys \<lparr>ed_i = 0, ed_hpos = - 1, ed_buf = buf\<rparr>"

definition entered :: "edit \<Rightarrow> u8 list" where
  "entered e = takeWhile (\<lambda>c. c \<noteq> 0) ((ed_buf e)[ed_i e := 0])"

lemma typed_ok:
  assumes "hist_ok h" "length buf = 80"
  shows "edit_ok 80 h (typed h buf keys)"
proof -
  have "edit_ok 80 h (fold (\<lambda>c e. fst (edit_key 80 h c e)) keys e)" if "edit_ok 80 h e" for e
    using that edit_key_ok [OF assms(1)] by (induction keys arbitrary: e) simp_all
  then show ?thesis using assms(2) by (simp add: typed_def edit_ok_def)
qed

lemma entered_short: "edit_ok 80 h e \<Longrightarrow> length (entered e) \<le> 79"
proof -
  assume e: "edit_ok 80 h e"
  then have "(ed_buf e)[ed_i e := 0] = take (ed_i e) (ed_buf e) @ 0 # drop (Suc (ed_i e)) (ed_buf e)"
    by (intro upd_conv_take_nth_drop) (simp add: edit_ok_def)
  then have "length (entered e) \<le> length (take (ed_i e) (ed_buf e))"
    unfolding entered_def using length_takeWhile_le [of "\<lambda>c. c \<noteq> 0" "take (ed_i e) (ed_buf e)"] by (simp add: takeWhile_append)
  then show ?thesis using e by (simp add: edit_ok_def)
qed

lemma readline_loop_typed:
  assumes "readline_loop mx e h t = Some (line, h', t')"
  shows "\<exists>keys. line = entered (fold (\<lambda>c e. fst (edit_key mx h c e)) keys e) \<and> h' = hist_add line h"
proof -
  have "(\<lambda>mx e h t r. \<exists>keys. fst r = entered (fold (\<lambda>c e. fst (edit_key mx h c e)) keys e) \<and> fst (snd r) = hist_add (fst r) h) mx e h t (line, h', t')"
  proof (rule readline_loop.raw_induct [OF _ assms])
    fix loop mx e h t r
    assume IH: "\<And>mx e h t r. loop mx e h t = Some r \<Longrightarrow>
        \<exists>keys. fst r = entered (fold (\<lambda>c e. fst (edit_key mx h c e)) keys e) \<and> fst (snd r) = hist_add (fst r) h"
      and run: "(do {
         (c, d) \<leftarrow> kdb_getchar False (tty_ports t);
         let t = t\<lparr>tty_ports := d\<rparr>;
         if c = 10 then
           (let line = takeWhile (\<lambda>c. c \<noteq> 0) ((ed_buf e)[ed_i e := 0])
            in do { t \<leftarrow> say ''\<newline>'' [] t; Some (line, hist_add line h, t) })
         else (let (e, ps) = edit_key mx h c e in do { t \<leftarrow> says ps t; loop mx e h t })
       }) = Some r"
    then obtain c d where c: "kdb_getchar False (tty_ports t) = Some (c, d)" by (auto simp: bind_eq_Some_conv)
    show "\<exists>keys. fst r = entered (fold (\<lambda>c e. fst (edit_key mx h c e)) keys e) \<and> fst (snd r) = hist_add (fst r) h"
    proof (cases "c = 10")
      case True
      then show ?thesis using run c by (intro exI [of _ "[]"]) (auto simp: bind_eq_Some_conv Let_def entered_def)
    next
      case False
      then obtain t1 where "loop mx (fst (edit_key mx h c e)) h t1 = Some r"
        using run c by (auto simp: bind_eq_Some_conv Let_def split: prod.splits)
      from IH [OF this] obtain keys where
        "fst r = entered (fold (\<lambda>c e. fst (edit_key mx h c e)) keys (fst (edit_key mx h c e)))" "fst (snd r) = hist_add (fst r) h" by blast
      then show ?thesis by (intro exI [of _ "c # keys"]) simp
    qed
  qed
  then show ?thesis by simp
qed

text \<open>
  C38. The debugger's line editor and history.  Whatever keys are pressed, the position stays inside the buffer of 80
  bytes and the recalled entry inside the history, so that the final zero byte and every recalled line fit.  A line
  that is read has at most 79 characters; the history then is the most recent 16 lines, newest first, without empty
  lines and without a repetition of the newest one.
\<close>

theorem kdb_line_editor:
  assumes "hist_ok h" and "length buf = 80"
  shows "edit_ok 80 h (typed h buf keys) \<and>
    (\<forall>t line h' t'. kdb_readline buf h t = Some (line, h', t') \<longrightarrow> length line \<le> 79 \<and> hist_ok h' \<and>
      recent h' = (if line = [] \<or> recent h \<noteq> [] \<and> hd (recent h) = line then recent h else take 16 (line # recent h)))"
proof (intro conjI allI impI)
  show "edit_ok 80 h (typed h buf keys)" by (rule typed_ok [OF assms])
  fix t line h' t' assume "kdb_readline buf h t = Some (line, h', t')"
  then obtain ks where ks: "line = entered (typed h buf ks)" "h' = hist_add line h"
    using readline_loop_typed assms(2) unfolding kdb_readline_def typed_def by fastforce
  have "length line \<le> 79" unfolding ks(1) by (rule entered_short [OF typed_ok [OF assms]])
  then show "length line \<le> 79" "hist_ok h'"
    "recent h' = (if line = [] \<or> recent h \<noteq> [] \<and> hd (recent h) = line then recent h else take 16 (line # recent h))"
    using hist_add_recent [OF assms(1)] ks(2) by simp_all
qed

definition kdb_tty :: tty where
  "kdb_tty = \<lparr>terminal_row = 0, terminal_column = 0, terminal_color = 7, terminal_buffer = [], terminal_anchor = 0,
     tty_ports = \<lparr>ins = [1, 0x1E, 0x20, 1, 0x1C, 0x20, 0x20], outs = []\<rparr>\<rparr>"

definition hist_start :: history where
  "hist_start = \<lparr>hist = replicate 16 [], hist_count = 0, hist_next = 0\<rparr>"

lemma kdb_line_keys:
  "kdb_getchar False \<lparr>ins = 1 # 0x1E # bs, outs = os\<rparr> = Some (0x61, \<lparr>ins = bs, outs = os\<rparr>)"
  "kdb_getchar False \<lparr>ins = 1 # 0x1C # bs, outs = os\<rparr> = Some (10, \<lparr>ins = bs, outs = os\<rparr>)"
proof -
  have k: "kdb_keys ! 30 = 0x61" "kdb_keys ! 28 = 10" by code_simp+
  show "kdb_getchar False \<lparr>ins = 1 # 0x1E # bs, outs = os\<rparr> = Some (0x61, \<lparr>ins = bs, outs = os\<rparr>)"
    by (subst kdb_getchar.simps) (simp add: inb_def k)
  show "kdb_getchar False \<lparr>ins = 1 # 0x1C # bs, outs = os\<rparr> = Some (10, \<lparr>ins = bs, outs = os\<rparr>)"
    by (subst kdb_getchar.simps) (simp add: inb_def k)
qed

lemma say_plain:
  "say ''%c'' [PInt c] t = terminal_putchar (ucast c) t"
  "say ''\<newline>'' [] t = terminal_putchar 10 t"
proof -
  have u: "(ucast (ucast b :: u32) :: u8) = b" for b :: u8 by (rule bit_word_eqI) (simp add: bit_simps)
  have e: "emit_stdout_k b t = map_option (Pair True) (terminal_putchar b t)" for b
    using byte_not_eof [of b] by (cases "terminal_putchar b t") (simp_all add: emit_stdout_k_def putchar_k_def u)
  show "say ''%c'' [PInt c] t = terminal_putchar (ucast c) t"
    by (cases "terminal_putchar (ucast c) t") (simp_all add: say_def ascii_def printf_k_def vprintf_gen_def text_conv_def is_flag_def is_digit_def e)
  show "say ''\<newline>'' [] t = terminal_putchar 10 t"
    by (cases "terminal_putchar 10 t") (simp_all add: say_def ascii_def printf_k_def vprintf_gen_def literal_def e)
qed

theorem kdb_line_editor_witness:
  "\<exists>t'. kdb_readline (replicate 80 0) hist_start kdb_tty = Some (ascii ''a'', hist_add (ascii ''a'') hist_start, t') \<and>
     recent (hist_add (ascii ''a'') hist_start) = [ascii ''a''] \<and> edit_ok 80 hist_start (typed hist_start (replicate 80 0) [0x61, 8, 0x100])"
proof -
  have h: "hist_ok hist_start" by (simp add: hist_ok_def hist_start_def del: replicate_Suc)
  have l: "length (replicate 80 (0 :: u8)) = 80" by simp
  let ?e1 = "\<lparr>ed_i = Suc 0, ed_hpos = - 1, ed_buf = (replicate 80 0)[0 := 0x61]\<rparr>"
  have k: "edit_key 80 hist_start 0x61 \<lparr>ed_i = 0, ed_hpos = - 1, ed_buf = replicate 80 0\<rparr> = (?e1, [(''%c'', [PInt 0x61])])"
    by (simp add: edit_key_def)
  note defs = terminal_putchar_def terminal_put_plain_def echo_serial_def serial_putchar_def serial_put_byte_def poll_def
    transmit_empty_def screen_put_def next_row_def terminal_update_cursor_def terminal_putentryat_def outb_def
  have "\<exists>t1 os. terminal_putchar 0x61 (kdb_tty\<lparr>tty_ports := \<lparr>ins = [0x20, 1, 0x1C, 0x20, 0x20], outs = []\<rparr>\<rparr>) = Some t1 \<and>
    tty_ports t1 = \<lparr>ins = [1, 0x1C, 0x20, 0x20], outs = os\<rparr> \<and> terminal_row t1 = 0"
    by (simp add: defs kdb_tty_def Let_def)
  then obtain t1 os where t1: "terminal_putchar 0x61 (kdb_tty\<lparr>tty_ports := \<lparr>ins = [0x20, 1, 0x1C, 0x20, 0x20], outs = []\<rparr>\<rparr>) = Some t1"
    "tty_ports t1 = \<lparr>ins = [1, 0x1C, 0x20, 0x20], outs = os\<rparr>" "terminal_row t1 = 0" by blast
  have "\<exists>t2. terminal_putchar 10 (t1\<lparr>tty_ports := \<lparr>ins = [0x20, 0x20], outs = os\<rparr>\<rparr>) = Some t2"
    using t1(3) by (simp add: defs Let_def)
  then obtain t2 where t2: "terminal_putchar 10 (t1\<lparr>tty_ports := \<lparr>ins = [0x20, 0x20], outs = os\<rparr>\<rparr>) = Some t2" by blast
  have p: "tty_ports kdb_tty = \<lparr>ins = 1 # 0x1E # [0x20, 1, 0x1C, 0x20, 0x20], outs = []\<rparr>" by (simp add: kdb_tty_def)
  have e: "takeWhile (\<lambda>c. c \<noteq> 0) ((replicate 80 (0 :: u8))[0 := 0x61, Suc 0 := 0]) = ascii ''a''" by code_simp
  have two: "readline_loop 80 ?e1 hist_start t1 = Some (ascii ''a'', hist_add (ascii ''a'') hist_start, t2)"
    by (subst readline_loop.simps) (simp add: t1(2) kdb_line_keys say_plain t2 e Let_def)
  have run: "kdb_readline (replicate 80 0) hist_start kdb_tty = Some (ascii ''a'', hist_add (ascii ''a'') hist_start, t2)"
    unfolding kdb_readline_def l
    by (subst readline_loop.simps) (simp add: p kdb_line_keys k say_plain t1(1) two del: replicate_Suc)
  note ok = kdb_line_editor [OF h l, of "[0x61, 8, 0x100]"]
  have r: "recent hist_start = []" by (simp add: recent_def hist_start_def)
  have "recent (hist_add (ascii ''a'') hist_start) =
      (if ascii ''a'' = [] \<or> recent hist_start \<noteq> [] \<and> hd (recent hist_start) = ascii ''a'' then recent hist_start
       else take 16 (ascii ''a'' # recent hist_start))"
    using ok run by blast
  then have "recent (hist_add (ascii ''a'') hist_start) = [ascii ''a'']" by (simp add: r ascii_def)
  then show ?thesis using ok run by blast
qed

end
