(* ===== verification/Interrupts.thy ===== *)
theory Interrupts
  imports Kdb Keyboard Steps
begin

text \<open>
  Interrupts and exceptions: \<open>isr.c\<close>, \<open>irq.c\<close>, the handlers of \<open>timer.c\<close> and \<open>keyboard.c\<close>, and the kernel's \<open>abort\<close>, over the
  whole machine.  They tie the drivers to the process layer: a system call prints on the terminal, the timer yields,
  the keyboard may enter the debugger.  The entry stubs only push the registers (\<open>int_frame\<close>); \<open>cr2\<close> and the frame
  pointer \<open>ebp\<close> are parameters.
\<close>

subsection \<open>The machine\<close>

datatype irq_fn = Timer_Callback | Keyboard_Callback

text \<open>The devices share one stream of port accesses, which the terminal's record holds.\<close>

record machine =
  m_kernel :: kernel
  m_tty :: tty
  m_kbd :: kbd
  m_hist :: history
  m_tick :: u32
  m_handlers :: "irq_fn option list"

abbreviation ports_of :: "machine \<Rightarrow> ports" where
  "ports_of s \<equiv> tty_ports (m_tty s)"

definition set_ports :: "ports \<Rightarrow> machine \<Rightarrow> machine" where
  "set_ports d s = s\<lparr>m_tty := (m_tty s)\<lparr>tty_ports := d\<rparr>\<rparr>"

text \<open>How a handler leaves: it returns, hangs for good, or resets the processor.\<close>

datatype isr_result = Isr_Syscall sys_result | Isr_Return | Isr_Hang | Isr_Reset

definition after_kdb :: "isr_result \<Rightarrow> kdb_next \<times> history \<times> tty \<Rightarrow> machine \<Rightarrow> isr_result \<times> machine" where
  "after_kdb cont r s =
     (case r of (n, h, t) \<Rightarrow> (if n = Kdb_Reset then Isr_Reset else cont, s\<lparr>m_hist := h, m_tty := t\<rparr>))"

definition enter_kdb :: "code_map \<Rightarrow> int_frame \<Rightarrow> u32 \<Rightarrow> machine \<Rightarrow> (isr_result \<times> machine) option" where
  "enter_kdb cm regs ebp s =
     map_option (\<lambda>r. after_kdb Isr_Return r s) (kdb_enter cm (m_kernel s) (Some regs) ebp (m_hist s) (m_tty s))"

subsection \<open>Hardware interrupts\<close>

text \<open>The callers pass 0 and 1; the table has 16 entries.\<close>

definition irq_install_handler :: "u8 \<Rightarrow> irq_fn \<Rightarrow> machine \<Rightarrow> machine" where
  "irq_install_handler irq h s = s\<lparr>m_handlers := (m_handlers s)[unat irq := Some h]\<rparr>"

abbreviation (input) TIMER_QUANTUM :: u32 where "TIMER_QUANTUM \<equiv> 10"

definition timer_ticks :: "machine \<Rightarrow> u32" where
  "timer_ticks s = m_tick s"

definition timer_callback :: "machine \<Rightarrow> machine option" where
  "timer_callback s =
     (let s = s\<lparr>m_tick := m_tick s + 1\<rparr> in
      if m_tick s mod TIMER_QUANTUM = 0 then map_option (\<lambda>k. s\<lparr>m_kernel := k\<rparr>) (yield (m_kernel s)) else Some s)"

definition timer_initialize :: "u32 \<Rightarrow> machine \<Rightarrow> machine option" where
  "timer_initialize frequency s =
     map_option (\<lambda>d. irq_install_handler 0 Timer_Callback (set_ports d s)) (timer_program frequency (ports_of s))"

definition keyboard_initialize :: "machine \<Rightarrow> machine" where
  "keyboard_initialize s = irq_install_handler 1 Keyboard_Callback s"

text \<open>\<open>keyboard_callback\<close> on the machine: the byte comes from the data port, the lights and the debugger use the same ports.\<close>

definition keyboard_irq :: "code_map \<Rightarrow> int_frame \<Rightarrow> u32 \<Rightarrow> machine \<Rightarrow> (isr_result \<times> machine) option" where
  "keyboard_irq cm regs ebp s = do {
     (sc, d) \<leftarrow> inb (ports_of s);
     (debug, kb) \<leftarrow> keyboard_callback sc ((m_kbd s)\<lparr>kbd_ports := d\<rparr>);
     let s = set_ports (kbd_ports kb) (s\<lparr>m_kbd := kb\<rparr>);
     if debug then enter_kdb cm regs ebp s else Some (Isr_Return, s)
   }"

text \<open>None beyond the table: the entry stubs raise the vectors 32 to 47 only.\<close>

definition irq_handler :: "code_map \<Rightarrow> int_frame \<Rightarrow> u32 \<Rightarrow> machine \<Rightarrow> (isr_result \<times> machine) option" where
  "irq_handler cm regs ebp s =
     (let irq = ucast (f_int_no regs - 32) :: u8;
          s = set_ports (pic_send_eoi irq (ports_of s)) s in
      if irq \<ge> 16 then None
      else (case m_handlers s ! unat irq of
          None \<Rightarrow> Some (Isr_Return, s)
        | Some Timer_Callback \<Rightarrow> map_option (Pair Isr_Return) (timer_callback s)
        | Some Keyboard_Callback \<Rightarrow> keyboard_irq cm regs ebp s))"

subsection \<open>Exceptions and system calls\<close>

definition exception_messages :: "string list" where
  "exception_messages =
     [''Divide by zero'', ''Debug'', ''Non-maskable interrupt'', ''Breakpoint'', ''Overflow'', ''Bound range exceeded'',
      ''Invalid opcode'', ''Device not available'', ''Double fault'', ''Coprocessor segment overrun'', ''Invalid TSS'',
      ''Segment not present'', ''Stack-segment fault'', ''General protection fault'', ''Page fault'', ''Reserved'',
      ''x87 floating-point exception'', ''Alignment check'', ''Machine check'', ''SIMD floating-point exception'',
      ''Virtualization exception'', ''Control protection exception'', ''Reserved'', ''Reserved'', ''Reserved'', ''Reserved'',
      ''Reserved'', ''Reserved'', ''Hypervisor injection exception'', ''VMM communication exception'',
      ''Security exception'', ''Reserved'']"

text \<open>The kernel's \<open>abort\<close> prints and loops for good.\<close>

definition abort_k :: "tty \<Rightarrow> tty option" where
  "abort_k t = say ''kernel: panic: abort()\<newline>'' [] t"

definition page_fault :: "int_frame \<Rightarrow> u32 \<Rightarrow> tty \<Rightarrow> tty option" where
  "page_fault regs cr2 t = says
     [(''\<newline>=== PAGE FAULT at 0x%x ===\<newline>'', [PInt cr2]),
      (''%s, %s, %s\<newline>'',
        [PStr (ascii (if f_err_code regs AND 1 \<noteq> 0 then ''protection violation'' else ''not present'')),
         PStr (ascii (if f_err_code regs AND 2 \<noteq> 0 then ''write'' else ''read'')),
         PStr (ascii (if f_err_code regs AND 4 \<noteq> 0 then ''user'' else ''kernel''))]),
      (''eip=0x%x\<newline>'', [PInt (f_eip regs)])] t"

text \<open>None past the end of \<open>exception_messages\<close>, which the entry stubs exclude.\<close>

definition other_exception :: "code_map \<Rightarrow> int_frame \<Rightarrow> u32 \<Rightarrow> machine \<Rightarrow> (isr_result \<times> machine) option" where
  "other_exception cm regs ebp s =
     (if f_int_no regs \<ge> 32 then None
      else do {
        t \<leftarrow> says
          [(''\<newline>=== EXCEPTION %d: %s ===\<newline>'', [PInt (f_int_no regs), PStr (ascii (exception_messages ! unat (f_int_no regs)))]),
           (''err=0x%x  eip=0x%x  cs=0x%x  eflags=0x%x\<newline>'',
             [PInt (f_err_code regs), PInt (f_eip regs), PInt (f_cs regs), PInt (f_eflags regs)]),
           (''eax=0x%x ebx=0x%x ecx=0x%x edx=0x%x\<newline>'',
             [PInt (f_eax regs), PInt (f_ebx regs), PInt (f_ecx regs), PInt (f_edx regs)])] (m_tty s);
        t \<leftarrow> stack_trace cm (mm (m_kernel s)) ebp 16 t;
        r \<leftarrow> kdb_enter cm (m_kernel s) (Some regs) ebp (m_hist s) t;
        let (a, s) = after_kdb Isr_Hang r s;
        if a = Isr_Reset then Some (a, s)
        else do { t \<leftarrow> abort_k (m_tty s); Some (a, s\<lparr>m_tty := t\<rparr>) }
      })"

text \<open>What a system call wrote to the kernel's console is printed on the terminal.\<close>

definition isr_handler :: "code_map \<Rightarrow> int_frame \<Rightarrow> u32 \<Rightarrow> u32 \<Rightarrow> machine \<Rightarrow> (isr_result \<times> machine) option" where
  "isr_handler cm regs cr2 ebp s =
     (if f_int_no regs = 128 then do {
        (r, k) \<leftarrow> syscall_handler regs (m_kernel s);
        t \<leftarrow> terminal_write (drop (length (console (m_kernel s))) (console k)) (m_tty s);
        Some (Isr_Syscall r, s\<lparr>m_kernel := k, m_tty := t\<rparr>)
      }
      else if f_int_no regs = 14 then do {
        t \<leftarrow> page_fault regs cr2 (m_tty s);
        t \<leftarrow> abort_k t;
        Some (Isr_Hang, s\<lparr>m_tty := t\<rparr>)
      }
      else if f_int_no regs = 3 then do {
        t \<leftarrow> say ''--- breakpoint at 0x%x ---\<newline>'' [PInt (f_eip regs)] (m_tty s);
        enter_kdb cm regs ebp (s\<lparr>m_tty := t\<rparr>)
      }
      else other_exception cm regs ebp s)"

subsection \<open>The machine as a transition system\<close>

text \<open>A page fault has the vector 14 in its frame and a hardware interrupt 32 to 47; user mode stores and computes as in \<open>kstep\<close>.\<close>

inductive mstep :: "code_map \<Rightarrow> machine \<Rightarrow> machine \<Rightarrow> bool" for cm where
  Exception: "isr_handler cm regs cr2 ebp s = Some (r, s') \<Longrightarrow> mstep cm s s'"
| Hardware: "irq_handler cm regs ebp s = Some (r, s') \<Longrightarrow> mstep cm s s'"
| Store: "user_accessible (mm (m_kernel s)) a \<Longrightarrow> vwrite8 (mm (m_kernel s)) a b = Some m \<Longrightarrow>
    mstep cm s (s\<lparr>m_kernel := (m_kernel s)\<lparr>mm := m\<rparr>\<rparr>)"
| Compute: "c_cr3 c = c_cr3 (cpu (m_kernel s)) \<Longrightarrow> mstep cm s (s\<lparr>m_kernel := (m_kernel s)\<lparr>cpu := c\<rparr>\<rparr>)"

inductive_cases mstepE: "mstep cm s s'"

lemma after_kdb_kernel [simp]: "m_kernel (snd (after_kdb c r s)) = m_kernel s"
  by (simp add: after_kdb_def split: prod.splits)

lemma set_ports_simps [simp]:
  "m_kernel (set_ports d s) = m_kernel s" "m_handlers (set_ports d s) = m_handlers s" "m_tick (set_ports d s) = m_tick s"
  "m_kbd (set_ports d s) = m_kbd s" "m_hist (set_ports d s) = m_hist s" "ports_of (set_ports d s) = d"
  by (simp_all add: set_ports_def)

lemma enter_kdb_kernel: "enter_kdb cm regs ebp s = Some (r, s') \<Longrightarrow> m_kernel s' = m_kernel s"
  by (auto simp: enter_kdb_def after_kdb_def)

lemma isr_kernel:
  assumes "isr_handler cm regs cr2 ebp s = Some (r, s')"
  shows "m_kernel s' = m_kernel s \<or> (\<exists>v. syscall_handler regs (m_kernel s) = Some (v, m_kernel s'))"
proof (cases "f_int_no regs = 128")
  case True
  then show ?thesis using assms by (auto simp: isr_handler_def bind_eq_Some_conv)
next
  case False
  have "m_kernel s' = m_kernel s" if "other_exception cm regs ebp s = Some (r, s')"
    using that by (auto simp: other_exception_def after_kdb_def Let_def bind_eq_Some_conv split: if_splits)
  then show ?thesis using assms False
    by (auto simp: isr_handler_def bind_eq_Some_conv dest: enter_kdb_kernel split: if_splits)
qed

lemma irq_kernel:
  assumes "irq_handler cm regs ebp s = Some (r, s')"
  shows "m_kernel s' = m_kernel s \<or> yield (m_kernel s) = Some (m_kernel s')"
  using assms
  by (auto simp: irq_handler_def keyboard_irq_def timer_callback_def Let_def bind_eq_Some_conv dest!: enter_kdb_kernel
      split: if_splits option.splits irq_fn.splits)

lemma mstep_kstep: "mstep cm s s' \<Longrightarrow> kstep\<^sup>*\<^sup>* (m_kernel s) (m_kernel s')"
proof (erule mstepE)
  show "isr_handler cm regs cr2 ebp s = Some (r, s') \<Longrightarrow> kstep\<^sup>*\<^sup>* (m_kernel s) (m_kernel s')" for regs cr2 ebp r
    using isr_kernel [of cm regs cr2 ebp s r s'] by (auto intro: Syscall)
  show "irq_handler cm regs ebp s = Some (r, s') \<Longrightarrow> kstep\<^sup>*\<^sup>* (m_kernel s) (m_kernel s')" for regs ebp r
    using irq_kernel [of cm regs ebp s r s'] by (auto intro: Timer)
qed (auto intro: User_Store User_Compute)


subsection \<open>The timer\<close>

fun timer_irqs :: "code_map \<Rightarrow> u32 \<Rightarrow> int_frame list \<Rightarrow> machine \<Rightarrow> machine option" where
  "timer_irqs cm ebp [] s = Some s"
| "timer_irqs cm ebp (r # rs) s = Option.bind (irq_handler cm r ebp s) (\<lambda>(_, s). timer_irqs cm ebp rs s)"

lemma timer_irqs_append: "timer_irqs cm ebp (xs @ ys) s = Option.bind (timer_irqs cm ebp xs s) (timer_irqs cm ebp ys)"
proof (induction xs arbitrary: s)
  case (Cons r xs)
  then show ?case by (cases "irq_handler cm r ebp s") auto
qed simp

definition timer_live :: "machine \<Rightarrow> bool" where
  "timer_live s \<longleftrightarrow> m_handlers s ! 0 = Some Timer_Callback \<and> kinv (m_kernel s)"

lemma timer_interrupt:
  assumes "timer_live s" "f_int_no r = 32"
  shows "\<exists>s'. irq_handler cm r ebp s = Some (Isr_Return, s') \<and> timer_live s' \<and> m_tick s' = m_tick s + 1 \<and>
    (if (m_tick s + 1) mod 10 = 0 then yield (m_kernel s) = Some (m_kernel s') else m_kernel s' = m_kernel s)"
proof -
  obtain k where k: "yield (m_kernel s) = Some k" "kinv k" using kinv_yield assms(1) unfolding timer_live_def by blast
  show ?thesis
    using assms k by (auto simp: irq_handler_def timer_callback_def timer_live_def Let_def)
qed

text \<open>The next yield comes within ten ticks, also where the 32-bit counter wraps around.\<close>

lemma next_quantum: "\<exists>j < 10. ((tick :: u32) + of_nat (Suc j)) mod 10 = 0"
proof -
  have l: "unat tick < 4294967296" by (rule unat_less_2p32)
  obtain j where j: "j < 10" "(unat tick + Suc j) mod 4294967296 mod 10 = 0"
  proof (cases "unat tick + 10 < 4294967296")
    case True
    have "(unat tick + (10 - unat tick mod 10)) mod 10 = 0" by presburger
    moreover have "Suc (9 - unat tick mod 10) = 10 - unat tick mod 10" by presburger
    ultimately show ?thesis using True by (intro that [of "9 - unat tick mod 10"]) simp_all
  next
    case False
    then show ?thesis using l by (intro that [of "4294967295 - unat tick"]) simp_all
  qed
  have "unat ((tick + of_nat (Suc j)) mod 10) = (unat tick + Suc j) mod 4294967296 mod 10"
    using j(1) by (simp only: unat_mod unat_word_ariths unat_of_nat) simp
  then show ?thesis using j by (intro exI [of _ j]) (simp add: unat_eq_0)
qed

lemma until_yield:
  assumes "timer_live s" "\<forall>r \<in> set rs. f_int_no r = 32" "Suc n \<le> length rs" "(m_tick s + of_nat (Suc n)) mod 10 = 0"
  shows "\<exists>j s'. j \<le> Suc n \<and> timer_irqs cm ebp (take j rs) s = Some s' \<and> timer_live s' \<and> yield (m_kernel s) = Some (m_kernel s')"
  using assms
proof (induction n arbitrary: s rs)
  case 0
  then obtain r rs' where rs: "rs = r # rs'" "f_int_no r = 32" by (cases rs) auto
  obtain s' where "irq_handler cm r ebp s = Some (Isr_Return, s')" "timer_live s'" "yield (m_kernel s) = Some (m_kernel s')"
    using timer_interrupt [OF 0(1) rs(2), of cm ebp] 0(4) by auto
  then show ?case using rs by (intro exI [of _ 1] exI [of _ s']) simp
next
  case (Suc n)
  then obtain r rs' where rs: "rs = r # rs'" "f_int_no r = 32" by (cases rs) auto
  obtain s1 where s1: "irq_handler cm r ebp s = Some (Isr_Return, s1)" "timer_live s1" "m_tick s1 = m_tick s + 1"
    "if (m_tick s + 1) mod 10 = 0 then yield (m_kernel s) = Some (m_kernel s1) else m_kernel s1 = m_kernel s"
    using timer_interrupt [OF Suc.prems(1) rs(2), of cm ebp] by blast
  show ?case
  proof (cases "(m_tick s + 1) mod 10 = 0")
    case True
    then show ?thesis using s1 rs by (intro exI [of _ 1] exI [of _ s1]) simp
  next
    case False
    have "(m_tick s1 + of_nat (Suc n)) mod 10 = 0" using Suc.prems(4) s1(3) by (simp add: add.assoc)
    then obtain j s' where "j \<le> Suc n" "timer_irqs cm ebp (take j rs') s1 = Some s'" "timer_live s'" "yield (m_kernel s1) = Some (m_kernel s')"
      using Suc.IH [OF s1(2), of rs'] Suc.prems(2,3) rs(1) by auto
    then show ?thesis using s1 False rs by (intro exI [of _ "Suc j"] exI [of _ s']) simp
  qed
qed

lemma yields_by_timer:
  assumes "timer_live s" "\<forall>r \<in> set rs. f_int_no r = 32" "10 * n \<le> length rs" "yield_times n (m_kernel s) = Some k"
  shows "\<exists>m s'. m \<le> 10 * n \<and> timer_irqs cm ebp (take m rs) s = Some s' \<and> m_kernel s' = k"
  using assms
proof (induction n arbitrary: s rs)
  case 0
  then show ?case by (intro exI [of _ 0]) simp
next
  case (Suc n)
  obtain j where j: "j < 10" "(m_tick s + of_nat (Suc j)) mod 10 = 0" using next_quantum [of "m_tick s"] by (elim exE conjE) (rule that)
  have "Suc j \<le> length rs" using j(1) Suc.prems(3) by simp
  from until_yield [OF Suc.prems(1,2) this j(2)] obtain i s1 where s1: "i \<le> Suc j" "timer_irqs cm ebp (take i rs) s = Some s1"
    "timer_live s1" "yield (m_kernel s) = Some (m_kernel s1)" by blast
  have "\<forall>r \<in> set (drop i rs). f_int_no r = 32" using Suc.prems(2) by (auto dest: in_set_dropD)
  moreover have "10 * n \<le> length (drop i rs)" using s1(1) j(1) Suc.prems(3) by simp
  moreover have "yield_times n (m_kernel s1) = Some k" using Suc.prems(4) s1(4) by simp
  ultimately obtain m s' where m: "m \<le> 10 * n" "timer_irqs cm ebp (take m (drop i rs)) s1 = Some s'" "m_kernel s' = k"
    using Suc.IH [OF s1(3)] by blast
  have "timer_irqs cm ebp (take (i + m) rs) s = Some s'" using s1(2) m(2) by (simp add: take_add timer_irqs_append)
  then show ?case using m s1(1) j(1) by (intro exI [of _ "i + m"] exI [of _ s']) simp
qed


definition frame_irq0 :: int_frame where
  "frame_irq0 = \<lparr>f_ds = 0x10, f_edi = 0, f_esi = 0, f_ebp = 0, f_esp_dummy = 0, f_ebx = 0, f_edx = 0, f_ecx = 0, f_eax = 0,
     f_int_no = 32, f_err_code = 0, f_eip = 0x400000, f_cs = 0x1B, f_eflags = 0x202, f_useresp = 0xB0004000, f_ss = 0x23\<rparr>"

definition machine_boot :: machine where
  "machine_boot = \<lparr>m_kernel = kernel_boot, m_tty = tty_quiet, m_kbd = kbd_init, m_hist = hist_start, m_tick = 0xFFFFFFFA,
     m_handlers = replicate 16 None\<rparr>"


definition machine_raw :: machine where
  "machine_raw = irq_install_handler 0 Timer_Callback (machine_boot\<lparr>m_kernel := kernel_raw\<rparr>)"


end
