(* ===== verification/Boot.thy ===== *)
theory Boot
  imports Interrupts Descriptors
begin

text \<open>
  The boot sequence, \<open>kernel/kernel/kernel.c\<close>: \<open>kernel_main\<close> and its helpers, in the order of the source, over the machine
  and the descriptor tables.  Each numbered stage of \<open>kernel_main\<close> is a definition of its own.  Addresses the linker
  chooses are parameters, as is the frame pointer.  The jump to user mode is the result; \<open>panic\<close> ends in the
  debugger's result.
\<close>

record boot_image =
  page_directory :: u32
  first_table :: u32
  gdt_addr :: u32
  idt_addr :: u32
  tss_addr :: u32
  isr_entry :: "nat \<Rightarrow> u32"
  irq_entry :: "nat \<Rightarrow> u32"
  code :: code_map

datatype boot_result = Boot_User u32 u32 | Boot_Panicked kdb_next

abbreviation (input) KERNEL_HEAP_BASE :: u32 where "KERNEL_HEAP_BASE \<equiv> 0xC0000000"
abbreviation (input) KERNEL_HEAP_SIZE :: u32 where "KERNEL_HEAP_SIZE \<equiv> 0x100000"
abbreviation (input) KSTACK_SIZE :: u32 where "KSTACK_SIZE \<equiv> 4096"
abbreviation (input) USER_STACK_BASE :: u32 where "USER_STACK_BASE \<equiv> 0xB0000000"
abbreviation (input) USER_STACK_PAGES :: nat where "USER_STACK_PAGES \<equiv> 4"
abbreviation (input) MULTIBOOT_BOOTLOADER_MAGIC :: u32 where "MULTIBOOT_BOOTLOADER_MAGIC \<equiv> 0x2BADB002"

definition print_m :: "string \<Rightarrow> parg list \<Rightarrow> machine \<Rightarrow> machine option" where
  "print_m f args s = map_option (\<lambda>t. s\<lparr>m_tty := t\<rparr>) (say f args (m_tty s))"

definition on_mm :: "mm_state \<Rightarrow> machine \<Rightarrow> machine" where
  "on_mm m s = s\<lparr>m_kernel := (m_kernel s)\<lparr>mm := m\<rparr>\<rparr>"

subsection \<open>Helpers\<close>

text \<open>The archive is read through the identity map.\<close>

definition init_initrd :: "boot_env \<Rightarrow> multiboot_info \<Rightarrow> machine \<Rightarrow> machine option" where
  "init_initrd env mbi s =
     (if mbi_flags mbi AND MULTIBOOT_INFO_MODS = 0 \<or> mods_count mbi = 0 then print_m ''no initrd module found\<newline>'' [] s
      else
        (let m = mod_at env (mods_addr mbi) in do {
           s \<leftarrow> print_m ''initrd at 0x%x, %d bytes\<newline>'' [PInt (mod_start m), PInt (mod_end m - mod_start m)] s;
           f \<leftarrow> initrd_initialize (vread8 (mm (m_kernel s))) (mod_start m) (fs (m_kernel s));
           Some (s\<lparr>m_kernel := (m_kernel s)\<lparr>fs := f\<rparr>\<rparr>)
         }))"

text \<open>False: no frame, the \<open>panic\<close>.\<close>

definition user_stack_page :: "nat \<Rightarrow> mm_state \<Rightarrow> (bool \<times> mm_state) option" where
  "user_stack_page i m =
     (let (frame, m) = mm_alloc m in
      if frame = 0 then Some (False, m)
      else map_option (Pair True) (paging_map (USER_STACK_BASE + of_nat i * 0x1000) frame (PAGE_USER OR PAGE_WRITE) m))"

definition map_user_stack :: "mm_state \<Rightarrow> (bool \<times> mm_state) option" where
  "map_user_stack m = try_each user_stack_page [0 ..< USER_STACK_PAGES] m"

text \<open>
  The entry point, or what to panic with.  The result of \<open>kmalloc\<close> is not checked.  A segment that is loaded
  always leaves \<open>brk\<close> set when the entry point is not 0.
\<close>

definition load_program :: "u8 list \<Rightarrow> machine \<Rightarrow> ((string + u32) \<times> machine) option" where
  "load_program path s =
     (let k = m_kernel s in
      case vfs_finddir (fs k) (fs_root (fs k)) path of
        None \<Rightarrow> Some (Inl ''init program not found in initrd'', s)
      | Some prog \<Rightarrow>
          (let len = node_length (node_of (fs k) prog); (buf, h) = kmalloc len (heap k) in do {
             (_, m) \<leftarrow> vfs_read (\<lambda>dst src n m. vmemcpy m dst src n) (fs k) (Some prog) 0 len buf (mm k);
             ((entry, out), m) \<leftarrow> elf_load buf len m;
             let k = k\<lparr>heap := h, mm := m\<rparr>;
             if entry = 0 then Some (Inl ''failed to load init program'', s\<lparr>m_kernel := k\<rparr>)
             else do {
               let b = (case out of None \<Rightarrow> 0 | Some b \<Rightarrow> b);
               s \<leftarrow> print_m ''%s: entry=0x%x brk=0x%x\<newline>'' [PStr path, PInt entry, PInt b] (s\<lparr>m_kernel := process_set_brk b k\<rparr>);
               Some (Inr entry, s)
             }
           }))"

subsection \<open>The stages\<close>

definition boot_output :: "machine \<Rightarrow> machine" where
  "boot_output s = (let s = set_ports (serial_initialize (ports_of s)) s in s\<lparr>m_tty := terminal_initialize (m_tty s)\<rparr>)"

definition boot_tables :: "boot_image \<Rightarrow> tables \<Rightarrow> tables" where
  "boot_tables img t =
     idt_initialize (idt_addr img) (isr_entry img) (irq_entry img) (gdt_initialize (gdt_addr img) (tss_addr img) t)"

definition boot_memory :: "boot_image \<Rightarrow> boot_env \<Rightarrow> multiboot_info \<Rightarrow> mm_state \<Rightarrow> (kheap_state \<times> mm_state) option" where
  "boot_memory img env mbi m = do {
     p \<leftarrow> pmm_initialize env mbi (pmm m);
     kheap_initialize KERNEL_HEAP_BASE KERNEL_HEAP_SIZE (paging_initialize (page_directory img) (first_table img) (m\<lparr>pmm := p\<rparr>))
   }"

definition boot_devices :: "machine \<Rightarrow> machine option" where
  "boot_devices s = do {
     d \<leftarrow> pic_remap 32 40 (ports_of s);
     s \<leftarrow> timer_initialize 100 (set_ports d s);
     let s = keyboard_initialize s;
     let k = m_kernel s;
     Some (s\<lparr>m_kernel := k\<lparr>sched := tasking_initialize (paging_current_directory (mm k)) (sched k)\<rparr>\<rparr>)
   }"

text \<open>The stack is at the end of the block, whatever \<open>kmalloc_aligned\<close> returned.\<close>

definition boot_process :: "machine \<Rightarrow> tables \<Rightarrow> machine \<times> tables" where
  "boot_process s t =
     (let k = m_kernel s; (block, h) = kmalloc_aligned KSTACK_SIZE (heap k); kstack = block + KSTACK_SIZE in
      (s\<lparr>m_kernel := process_initialize kstack (k\<lparr>heap := h, esp0 := kstack\<rparr>)\<rparr>, tss_set_stack kstack t))"

subsection \<open>The whole sequence\<close>

definition boot_panic :: "boot_image \<Rightarrow> string \<Rightarrow> u32 \<Rightarrow> machine \<times> tables \<Rightarrow> (boot_result \<times> machine \<times> tables) option" where
  "boot_panic img msg ebp st = (let (s, t) = st in do {
     (n, h, y) \<leftarrow> panic (code img) (m_kernel s) (ascii msg) ebp (m_hist s) (m_tty s);
     Some (Boot_Panicked n, s\<lparr>m_hist := h, m_tty := y\<rparr>, t)
   })"

definition kernel_main :: "boot_image \<Rightarrow> boot_env \<Rightarrow> u32 \<Rightarrow> multiboot_info \<Rightarrow> u32 \<Rightarrow> machine \<times> tables \<Rightarrow> (boot_result \<times> machine \<times> tables) option" where
  "kernel_main img env magic mbi ebp st = (let (s, t) = st; s = boot_output s in
     if magic \<noteq> MULTIBOOT_BOOTLOADER_MAGIC then boot_panic img ''not booted by a Multiboot loader'' ebp (s, t)
     else do {
       let t = boot_tables img t;
       (h, m) \<leftarrow> boot_memory img env mbi (mm (m_kernel s));
       s \<leftarrow> init_initrd env mbi (s\<lparr>m_kernel := (m_kernel s)\<lparr>heap := h, mm := m\<rparr>\<rparr>);
       s \<leftarrow> boot_devices s;
       let (s, t) = boot_process s t;
       let p = procs (m_kernel s) ! process_current (m_kernel s);
       s \<leftarrow> print_m ''pid=%d dir=0x%x kstack=0x%x\<newline>'' [PInt (word_of_int (pid p)), PInt (page_dir p), PInt (kernel_stack p)] s;
       (r, s) \<leftarrow> load_program (ascii ''hello.elf'') s;
       case r of
         Inl msg \<Rightarrow> boot_panic img msg ebp (s, t)
       | Inr entry \<Rightarrow> do {
           (ok, m) \<leftarrow> map_user_stack (mm (m_kernel s));
           if \<not> ok then boot_panic img ''out of memory mapping user stack'' ebp (on_mm m s, t)
           else Some (Boot_User entry (USER_STACK_BASE + of_nat USER_STACK_PAGES * 0x1000), on_mm m s, t)
         }
     })"

subsection \<open>Memory after boot\<close>

lemma low_dir_index:
  assumes "unat va < 0x400000"
  shows "dir_index va = 0"
proof -
  have "unat (dir_index va) = unat va div 4194304" by (simp add: dir_index_def drop_bit_eq_div unat_div_distrib)
  then show ?thesis using assms by (simp add: unat_eq_0)
qed

text \<open>A page of the kernel's image is never in the pool.\<close>

lemma image_page_reserved:
  assumes init: "pmm_initialize env mbi s = Some p"
    and walk: "mmap_walk (mmap_at env) (mmap_addr mbi) (mmap_addr mbi + mmap_length mbi) = Some es"
    and al: "\<forall>e \<in> set es. me_type e = 1 \<longrightarrow> aligned_region e" and "last_alloc s = 0"
    and img: "boot_env.kernel_start env \<le> a" "a < boot_env.kernel_end env" "boot_env.kernel_end env \<le> 0x400000"
  shows "a \<notin> avail p"
proof
  assume "a \<in> avail p"
  then obtain f where f: "f \<in> free_set p" "a = f * 4096" by (auto simp: avail_def)
  have inv: "pmm_inv p" by (rule pmm_init_inv [OF init assms(4)])
  then have tot: "total_frames p \<le> 0x100000" by (simp add: pmm_inv_def)
  have "f < 0x100000" using f(1) tot by (auto simp: free_set_def)
  then have "a div 4096 = f" using f(2) frame_addr_div by simp
  then have no: "\<not> (boot_env.kernel_start env \<le> a \<and> a < boot_env.kernel_end env + (total_frames p + 7) div 8)"
    using pmm_initialize_usable [OF init walk al f(1)] unfolding usable_frame_def by blast
  have t: "unat (total_frames p) \<le> 0x100000" using tot by (simp add: word_le_nat_alt)
  then have "unat ((total_frames p + 7) div 8) = (unat (total_frames p) + 7) div 8"
    by (simp add: unat_div_distrib unat_word_ariths)
  moreover have "unat (boot_env.kernel_end env) \<le> 0x400000" using img(3) by (simp add: word_le_nat_alt)
  ultimately have "unat (boot_env.kernel_end env + (total_frames p + 7) div 8) = unat (boot_env.kernel_end env) + (unat (total_frames p) + 7) div 8"
    using t by (simp add: unat_word_ariths)
  then have "a < boot_env.kernel_end env + (total_frames p + 7) div 8" using img(2) by (simp add: word_less_nat_alt)
  then show False using no img(1) by blast
qed

lemma initialize_owns:
  assumes "page_down pd = pd" "page_down ft = ft" "pd \<noteq> ft" "pmm_inv (pmm s)" "pd \<notin> avail (pmm s)" "ft \<notin> avail (pmm s)"
  shows "owns (paging_initialize pd ft s)"
proof -
  note post = initialize_post [OF assms]
  have "xlate (paging_initialize pd ft s) va = None" if "private_page va" for va
  proof -
    have "dir_index va \<noteq> 0" "dir_index va \<noteq> 1023" using that by (auto simp: private_page_def)
    then show ?thesis using post by blast
  qed
  then show ?thesis using post by (simp add: owns_def)
qed


text \<open>QEMU's memory map leaves the frames from \<open>0x200\<close> to \<open>0x3FF\<close> free, among others.\<close>

lemma qemu_walk: "mmap_walk (mmap_at (boot_sample qemu_map)) (mmap_addr mbi_sample) (mmap_addr mbi_sample + mmap_length mbi_sample) = Some qemu_map"
  by (rule boot_sample_walk [OF refl]) (simp_all add: boot_entry_def)

lemma qemu_aligned: "\<forall>e \<in> set qemu_map. me_type e = 1 \<longrightarrow> aligned_region e"
  by (simp add: boot_entry_def aligned_region_def)

lemma qemu_frames:
  assumes "pmm_initialize (boot_sample qemu_map) mbi_sample pmm_reset = Some p"
  shows "512 \<le> card (avail p)"
proof -
  have hi: "find_highest qemu_map div 4096 = 0x400"
    by (simp add: find_highest_def entry_top_def boot_entry_def)
  note bits = pmm_init_bits [OF assms qemu_walk, unfolded hi]
  have free: "of_nat n \<in> free_set p" if n: "n \<in> {512 ..< 1024}" for n
  proof -
    have u: "unat (of_nat n :: u32) = n" using n by (simp add: unat_of_nat)
    have "of_nat n \<in> region_frames (boot_entry 0x100000 0x300000 1)"
      using n by (subst region_frames_word) (simp_all add: boot_entry_def u)
    then show ?thesis
      using n bits(1) bits(3) [of "of_nat n"]
      by (simp add: free_set_def module_frame_def boot_sample_def mbi_sample_def module_at_def boot_entry_def
          word_less_nat_alt word_le_nat_alt u)
  qed
  have inv: "pmm_inv p" by (rule pmm_init_inv [OF assms]) (simp add: pmm_reset_def)
  have "inj_on (\<lambda>n. (of_nat n :: u32)) {512 ..< 1024}" by (auto intro!: inj_onI dest!: arg_cong [where f = unat] simp: unat_of_nat)
  then have "card ((\<lambda>n. (of_nat n :: u32)) ` {512 ..< 1024}) = 512" by (simp add: card_image)
  moreover have "(\<lambda>n. (of_nat n :: u32)) ` {512 ..< 1024} \<subseteq> free_set p" using free by blast
  ultimately have "512 \<le> card (free_set p)" by (metis card_mono finite)
  moreover have "inj_on (\<lambda>f. f * 4096) (free_set p)"
    using free_set_bounds(1) [OF inv] frame_addr_inj by (auto simp: inj_on_def)
  ultimately show ?thesis by (simp add: avail_def card_image)
qed

definition img_sample :: boot_image where
  "img_sample = \<lparr>page_directory = 0x140000, first_table = 0x141000, gdt_addr = 0x142000, idt_addr = 0x143000, tss_addr = 0x144000,
     isr_entry = (\<lambda>i. 0x101000 + of_nat i * 16), irq_entry = (\<lambda>i. 0x103000 + of_nat i * 16),
     code = \<lparr>ksymbols = [], kernel_start = 0x100000, kernel_end = 0x150000\<rparr>\<rparr>"


subsection \<open>Devices and the first process\<close>

lemma set_tasks_running: "running (fold (\<lambda>i. set_task (Proc_Task i) f) is s) = running s"
  by (induction "is" arbitrary: s) simp_all

lemma process_initialize_first:
  "state (procs (process_initialize stk k) ! 0) = PROC_RUN" "kernel_stack (procs (process_initialize stk k) ! 0) = stk"
  "esp0 (process_initialize stk k) = esp0 k" "running (sched (process_initialize stk k)) = running (sched k)"
  by (simp_all add: process_initialize_def initial_tasks set_tasks_running Let_def del: upt_Suc upt_rec_numeral)

lemma main_task_current: "running (sched k) = Main_Task \<Longrightarrow> process_current k = 0"
proof -
  assume r: "running (sched k) = Main_Task"
  have "find (\<lambda>i. state (procs k ! i) \<noteq> PROC_FREE \<and> Proc_Task i = Main_Task) [0 ..< 16] = None"
    by (simp add: find_None_iff del: upt_rec_numeral)
  then show ?thesis using r by (simp add: process_current_def process_of_task_def)
qed

lemma boot_devices_run:
  assumes "ins (ports_of s) = b1 # b2 # bs"
  shows "boot_devices s = Some (s\<lparr>m_kernel := (m_kernel s)\<lparr>sched := tasking_initialize (paging_current_directory (mm (m_kernel s))) (sched (m_kernel s))\<rparr>,
     m_tty := (m_tty s)\<lparr>tty_ports := \<lparr>ins = bs, outs = outs (ports_of s) @
       [(0x20, 0x11), (0x80, 0), (0xA0, 0x11), (0x80, 0), (0x21, 32), (0x80, 0), (0xA1, 40), (0x80, 0), (0x21, 4), (0x80, 0),
        (0xA1, 2), (0x80, 0), (0x21, 1), (0x80, 0), (0xA1, 1), (0x80, 0), (0x21, b1), (0xA1, b2),
        (0x43, 0x36), (0x40, 0x9B), (0x40, 0x2E)]\<rparr>\<rparr>,
     m_handlers := (m_handlers s)[0 := Some Timer_Callback, 1 := Some Keyboard_Callback]\<rparr>)"
proof -
  obtain os where p: "ports_of s = \<lparr>ins = b1 # b2 # bs, outs = os\<rparr>" using assms by (cases "ports_of s") simp
  show ?thesis
    by (simp add: boot_devices_def pic_remap_def p inb_def outb_def io_wait_def timer_initialize_def timer_program_def
        keyboard_initialize_def irq_install_handler_def set_ports_def Let_def)
qed

text \<open>
  C39. The stages between memory and the init program.  When the interrupt controllers answer the two reads of their
  masks, they succeed: exactly the timer and the keyboard have handlers, the timer runs at 100 Hz, the masks are as they were
  found, the kernel's invariant holds with process 0 running on the boot task, and an interrupt from user mode will find
  the end of the same kernel stack in the task state segment that process 0 has.
\<close>

theorem boot_starts_process:
  assumes "ins (ports_of s) = b1 # b2 # bs" and "m_handlers s = replicate 16 None" and "next_pid (m_kernel s) = 1"
  shows "\<exists>s1. boot_devices s = Some s1 \<and> (\<exists>s2 t2. boot_process s1 t = (s2, t2) \<and> timer_live s2 \<and>
     m_handlers s2 = [Some Timer_Callback, Some Keyboard_Callback] @ replicate 14 None \<and>
     ports_of s2 = \<lparr>ins = bs, outs = outs (ports_of s) @
       [(0x20, 0x11), (0x80, 0), (0xA0, 0x11), (0x80, 0), (0x21, 32), (0x80, 0), (0xA1, 40), (0x80, 0), (0x21, 4), (0x80, 0),
        (0xA1, 2), (0x80, 0), (0x21, 1), (0x80, 0), (0xA1, 1), (0x80, 0), (0x21, b1), (0xA1, b2),
        (0x43, 0x36), (0x40, 0x9B), (0x40, 0x2E)]\<rparr> \<and>
     process_current (m_kernel s2) = 0 \<and> state (procs (m_kernel s2) ! 0) = PROC_RUN \<and>
     ts_esp0 (tss t2) = kernel_stack (procs (m_kernel s2) ! 0) \<and> esp0 (m_kernel s2) = ts_esp0 (tss t2))"
proof -
  let ?k = "(m_kernel s)\<lparr>sched := tasking_initialize (paging_current_directory (mm (m_kernel s))) (sched (m_kernel s))\<rparr>"
  obtain block h where al: "kmalloc_aligned KSTACK_SIZE (heap (m_kernel s)) = (block, h)" by (cases "kmalloc_aligned KSTACK_SIZE (heap (m_kernel s))")
  let ?k2 = "process_initialize (block + KSTACK_SIZE) (?k\<lparr>heap := h, esp0 := block + KSTACK_SIZE\<rparr>)"
  have inv: "kinv ?k2" by (rule initial_kinv) (simp_all add: assms(3))
  have "running (sched ?k2) = Main_Task"
    unfolding process_initialize_first(4) by (simp add: tasking_initialize_def Let_def)
  then have cur: "process_current ?k2 = 0" by (rule main_task_current)
  have hs: "(replicate 16 None)[0 := Some Timer_Callback, Suc 0 := Some Keyboard_Callback] = Some Timer_Callback # Some Keyboard_Callback # replicate 14 None"
    by (simp add: numeral_eq_Suc)
  show ?thesis
    using inv cur hs
    by (simp add: boot_devices_run [OF assms(1)] boot_process_def al assms(2) timer_live_def process_initialize_first tss_set_stack_def Let_def)
qed

theorem boot_starts_process_witness:
  "\<forall>t. \<exists>s1 s2 t2. boot_devices (machine_boot\<lparr>m_kernel := kernel_raw\<rparr>) = Some s1 \<and> boot_process s1 t = (s2, t2) \<and> timer_live s2 \<and>
     process_current (m_kernel s2) = 0"
proof -
  let ?s = "machine_boot\<lparr>m_kernel := kernel_raw\<rparr>"
  have "ins (tty_ports tty_quiet) = replicate 300 0x20"
    by (simp add: tty_quiet_def terminal_initialize_def blank_rows_def del: upt_rec_numeral)
  also have "\<dots> = 0x20 # 0x20 # replicate 298 0x20" by (simp flip: replicate_Suc)
  finally have i: "ins (ports_of ?s) = 0x20 # 0x20 # replicate 298 0x20" by (simp add: machine_boot_def)
  have h: "m_handlers ?s = replicate 16 None" by (simp add: machine_boot_def)
  have n: "next_pid (m_kernel ?s) = 1" by (simp add: kernel_raw_def)
  from boot_starts_process [OF i h n] show ?thesis by blast
qed

subsection \<open>The whole of kernel main\<close>

lemma print_m_fields: "print_m f args s = Some s' \<Longrightarrow> m_kernel s' = m_kernel s \<and> m_handlers s' = m_handlers s"
  by (auto simp: print_m_def)

lemma init_initrd_fields: "init_initrd env mbi s = Some s' \<Longrightarrow> next_pid (m_kernel s') = next_pid (m_kernel s) \<and> m_handlers s' = m_handlers s"
  by (auto simp: init_initrd_def Let_def bind_eq_Some_conv dest!: print_m_fields split: if_splits)

lemma boot_devices_fields:
  "boot_devices s = Some s' \<Longrightarrow> m_handlers s' = (m_handlers s)[0 := Some Timer_Callback, 1 := Some Keyboard_Callback] \<and>
     next_pid (m_kernel s') = next_pid (m_kernel s) \<and> sched (m_kernel s') = tasking_initialize (paging_current_directory (mm (m_kernel s))) (sched (m_kernel s))"
  by (auto simp: boot_devices_def timer_initialize_def keyboard_initialize_def irq_install_handler_def Let_def bind_eq_Some_conv)

lemma load_program_kinv:
  assumes "load_program path s = Some (r, s')" "kinv (m_kernel s)"
  shows "kinv (m_kernel s') \<and> m_handlers s' = m_handlers s"
proof -
  have brk: "kinv (process_set_brk b (k\<lparr>heap := h, mm := m\<rparr>))" if "kinv k" for b k h m
    unfolding process_set_brk_def by (rule kinv_proc) (simp_all add: that)
  show ?thesis
    using assms by (auto simp: load_program_def Let_def bind_eq_Some_conv brk dest!: print_m_fields split: option.splits prod.splits if_splits)
qed

text \<open>When the kernel reaches user mode, its invariant holds and the timer is live: the state the properties of theory Interrupts start from.\<close>

lemma kernel_main_enters_user:
  assumes run: "kernel_main img env magic mbi ebp (s, t) = Some (Boot_User entry stack, s', t')"
    and init: "m_handlers s = replicate 16 None" "next_pid (m_kernel s) = 1"
  shows "magic = MULTIBOOT_BOOTLOADER_MAGIC \<and> stack = 0xB0004000 \<and> timer_live s'"
proof -
  have panic: "boot_panic img msg ebp st \<noteq> Some (Boot_User entry stack, x)" for msg st x
    by (cases st) (auto simp: boot_panic_def bind_eq_Some_conv)
  have magic: "magic = MULTIBOOT_BOOTLOADER_MAGIC" using run panic by (auto simp: kernel_main_def Let_def split: if_splits)
  let ?s = "boot_output s"
  have o: "next_pid (m_kernel ?s) = 1" "m_handlers ?s = replicate 16 None"
    using init by (simp_all add: boot_output_def Let_def)
  obtain h m s1 s2 where 1: "init_initrd env mbi (?s\<lparr>m_kernel := (m_kernel ?s)\<lparr>heap := h, mm := m\<rparr>\<rparr>) = Some s1"
      "boot_devices s1 = Some s2"
    and rest: "(let (s, t) = boot_process s2 (boot_tables img t); p = procs (m_kernel s) ! process_current (m_kernel s) in do {
       s \<leftarrow> print_m ''pid=%d dir=0x%x kstack=0x%x\<newline>'' [PInt (word_of_int (pid p)), PInt (page_dir p), PInt (kernel_stack p)] s;
       (r, s) \<leftarrow> load_program (ascii ''hello.elf'') s;
       case r of
         Inl msg \<Rightarrow> boot_panic img msg ebp (s, t)
       | Inr entry \<Rightarrow> do {
           (ok, m) \<leftarrow> map_user_stack (mm (m_kernel s));
           if \<not> ok then boot_panic img ''out of memory mapping user stack'' ebp (on_mm m s, t)
           else Some (Boot_User entry (USER_STACK_BASE + of_nat USER_STACK_PAGES * 0x1000), on_mm m s, t)
         } }) = Some (Boot_User entry stack, s', t')"
    using run magic by (auto simp: kernel_main_def Let_def bind_eq_Some_conv)
  obtain s3 t3 where bp: "boot_process s2 (boot_tables img t) = (s3, t3)" by (cases "boot_process s2 (boot_tables img t)")
  note f1 = init_initrd_fields [OF 1(1)] and f2 = boot_devices_fields [OF 1(2)]
  have hs: "m_handlers s3 ! 0 = Some Timer_Callback"
    using f1 f2 o bp by (auto simp: boot_process_def Let_def split: prod.splits)
  have "kinv (m_kernel s3)"
    using f1 f2 o bp by (auto simp: boot_process_def Let_def intro!: initial_kinv split: prod.splits)
  moreover obtain s4 r s5 where 2: "print_m ''pid=%d dir=0x%x kstack=0x%x\<newline>''
       [PInt (word_of_int (pid (procs (m_kernel s3) ! process_current (m_kernel s3)))),
        PInt (page_dir (procs (m_kernel s3) ! process_current (m_kernel s3))),
        PInt (kernel_stack (procs (m_kernel s3) ! process_current (m_kernel s3)))] s3 = Some s4"
      "load_program (ascii ''hello.elf'') s4 = Some (r, s5)"
    and last: "(case r of
         Inl msg \<Rightarrow> boot_panic img msg ebp (s5, t3)
       | Inr entry \<Rightarrow> do {
           (ok, m) \<leftarrow> map_user_stack (mm (m_kernel s5));
           if \<not> ok then boot_panic img ''out of memory mapping user stack'' ebp (on_mm m s5, t3)
           else Some (Boot_User entry (USER_STACK_BASE + of_nat USER_STACK_PAGES * 0x1000), on_mm m s5, t3)
         }) = Some (Boot_User entry stack, s', t')"
    using rest bp by (auto simp: Let_def bind_eq_Some_conv)
  ultimately have k5: "kinv (m_kernel s5)" "m_handlers s5 ! 0 = Some Timer_Callback"
    using print_m_fields [OF 2(1)] load_program_kinv [OF 2(2)] hs by simp_all
  have "s' = on_mm (mm (m_kernel s')) s5" "stack = 0xB0004000"
    using last panic by (auto simp: bind_eq_Some_conv on_mm_def split: sum.splits if_splits)
  then show ?thesis using magic k5 by (metis (no_types, lifting) kinv_fields(1) on_mm_def timer_live_def machine.select_convs(1,6) machine.surjective machine.update_convs(1))
qed

lemma mstep_kinv: "mstep cm s s' \<Longrightarrow> kinv (m_kernel s) \<Longrightarrow> kinv (m_kernel s')"
proof (drule mstep_kstep)
  show "kstep\<^sup>*\<^sup>* (m_kernel s) (m_kernel s') \<Longrightarrow> kinv (m_kernel s) \<Longrightarrow> kinv (m_kernel s')"
    by (induction rule: rtranclp_induct) (auto intro: kinv_step)
qed

lemma kernel_after_boot:
  assumes "kernel_main img env magic mbi ebp (s, t) = Some (Boot_User entry stack, s1, t1)"
    and "m_handlers s = replicate 16 None" "next_pid (m_kernel s) = 1" and steps: "(mstep cm)\<^sup>*\<^sup>* s1 s2"
  shows "kinv (m_kernel s2)"
  using steps kernel_main_enters_user [OF assms(1-3)]
  by (induction rule: rtranclp_induct) (auto simp: timer_live_def intro: mstep_kinv)

end
