(* ===== verification/Cstring.thy ===== *)
theory Cstring
  imports Malloc "HOL-Library.Sublist"
begin

text \<open>
  The string functions of the C library, \<open>libc/string\<close>, on a program's memory: loops over addresses, byte by byte.  A read
  or write the program has no right to ends it (None), as does a loop that never meets its zero byte.  \<open>memset\<close>
  and \<open>memcpy\<close> are in theory Umem.
\<close>

subsection \<open>The functions\<close>

partial_function (option) strlen_loop :: "u32 \<Rightarrow> u32 \<Rightarrow> umem \<Rightarrow> u32 option" where
  "strlen_loop str len s = do {
     c \<leftarrow> ld8 (str + len) s;
     if c = 0 then Some len else strlen_loop str (len + 1) s
   }"

definition strlen :: "u32 \<Rightarrow> umem \<Rightarrow> u32 option" where
  "strlen str s = strlen_loop str 0 s"

partial_function (option) strcmp :: "u32 \<Rightarrow> u32 \<Rightarrow> umem \<Rightarrow> u32 option" where
  "strcmp a b s = do {
     x \<leftarrow> ld8 a s;
     y \<leftarrow> ld8 b s;
     if x \<noteq> 0 \<and> x = y then strcmp (a + 1) (b + 1) s else Some (ucast x - ucast y)
   }"

fun strncmp :: "u32 \<Rightarrow> u32 \<Rightarrow> nat \<Rightarrow> umem \<Rightarrow> u32 option" where
  "strncmp a b 0 s = Some 0"
| "strncmp a b (Suc n) s = do {
     ca \<leftarrow> ld8 a s;
     cb \<leftarrow> ld8 b s;
     if ca \<noteq> cb then Some (ucast ca - ucast cb)
     else if ca = 0 then Some 0
     else strncmp (a + 1) (b + 1) n s
   }"

fun memcmp :: "u32 \<Rightarrow> u32 \<Rightarrow> nat \<Rightarrow> umem \<Rightarrow> u32 option" where
  "memcmp a b 0 s = Some 0"
| "memcmp a b (Suc n) s = do {
     x \<leftarrow> ld8 a s;
     y \<leftarrow> ld8 b s;
     if x < y then Some (- 1) else if y < x then Some 1 else memcmp (a + 1) (b + 1) n s
   }"

text \<open>The result is an address, 0 for \<open>NULL\<close>.\<close>

partial_function (option) strchr :: "u32 \<Rightarrow> u32 \<Rightarrow> umem \<Rightarrow> u32 option" where
  "strchr str c s = do {
     x \<leftarrow> ld8 str s;
     if x \<noteq> 0 then (if x = ucast c then Some str else strchr (str + 1) c s)
     else Some (if c = 0 then str else 0)
   }"

partial_function (option) strrchr_loop :: "u32 \<Rightarrow> u32 \<Rightarrow> u32 \<Rightarrow> umem \<Rightarrow> u32 option" where
  "strrchr_loop str c found s = do {
     x \<leftarrow> ld8 str s;
     let found = (if x = ucast c then str else found);
     if x = 0 then Some found else strrchr_loop (str + 1) c found s
   }"

definition strrchr :: "u32 \<Rightarrow> u32 \<Rightarrow> umem \<Rightarrow> u32 option" where
  "strrchr str c s = strrchr_loop str c 0 s"

text \<open>The inner loop of \<open>strstr\<close>: did it reach the end of the needle?\<close>

partial_function (option) match_here :: "u32 \<Rightarrow> u32 \<Rightarrow> umem \<Rightarrow> bool option" where
  "match_here h n s = do {
     x \<leftarrow> ld8 h s;
     if x = 0 then map_option (\<lambda>y. y = 0) (ld8 n s)
     else do {
       y \<leftarrow> ld8 n s;
       if y \<noteq> 0 \<and> x = y then match_here (h + 1) (n + 1) s else Some (y = 0)
     }
   }"

partial_function (option) strstr_loop :: "u32 \<Rightarrow> u32 \<Rightarrow> umem \<Rightarrow> u32 option" where
  "strstr_loop haystack needle s = do {
     x \<leftarrow> ld8 haystack s;
     if x = 0 then Some 0
     else do {
       found \<leftarrow> match_here haystack needle s;
       if found then Some haystack else strstr_loop (haystack + 1) needle s
     }
   }"

definition strstr :: "u32 \<Rightarrow> u32 \<Rightarrow> umem \<Rightarrow> u32 option" where
  "strstr haystack needle s = do {
     y \<leftarrow> ld8 needle s;
     if y = 0 then Some haystack else strstr_loop haystack needle s
   }"

text \<open>\<open>memcpy\<close> downwards, the other branch of \<open>memmove\<close>.\<close>

fun copy_down :: "u32 \<Rightarrow> u32 \<Rightarrow> nat \<Rightarrow> umem \<Rightarrow> umem option" where
  "copy_down d a 0 s = Some s"
| "copy_down d a (Suc n) s = do { v \<leftarrow> ld8 (a + of_nat n) s; s \<leftarrow> st8 (d + of_nat n) v s; copy_down d a n s }"

definition memmove :: "u32 \<Rightarrow> u32 \<Rightarrow> u32 \<Rightarrow> umem \<Rightarrow> umem option" where
  "memmove dst src sz s = (if dst < src then umemcpy dst src (unat sz) s else copy_down dst src (unat sz) s)"

partial_function (option) strcpy_loop :: "u32 \<Rightarrow> u32 \<Rightarrow> umem \<Rightarrow> umem option" where
  "strcpy_loop d src s = do {
     v \<leftarrow> ld8 src s;
     s \<leftarrow> st8 d v s;
     if v = 0 then Some s else strcpy_loop (d + 1) (src + 1) s
   }"

definition strcpy :: "u32 \<Rightarrow> u32 \<Rightarrow> umem \<Rightarrow> (u32 \<times> umem) option" where
  "strcpy dest src s = map_option (Pair dest) (strcpy_loop dest src s)"

partial_function (option) find_nul :: "u32 \<Rightarrow> umem \<Rightarrow> u32 option" where
  "find_nul d s = do { c \<leftarrow> ld8 d s; if c = 0 then Some d else find_nul (d + 1) s }"

definition strcat :: "u32 \<Rightarrow> u32 \<Rightarrow> umem \<Rightarrow> (u32 \<times> umem) option" where
  "strcat dest src s = do { d \<leftarrow> find_nul dest s; s \<leftarrow> strcpy_loop d src s; Some (dest, s) }"

definition strdup :: "u32 \<Rightarrow> umem \<Rightarrow> (u32 \<times> umem) option" where
  "strdup str s = do {
     n \<leftarrow> strlen str s;
     let len = n + 1;
     (p, s) \<leftarrow> malloc len s;
     if p \<noteq> 0 then map_option (Pair p) (umemcpy p str (unat len) s) else Some (p, s)
   }"

subsection \<open>Strings in memory\<close>

fun cstr :: "umem \<Rightarrow> u32 \<Rightarrow> u8 list \<Rightarrow> bool" where
  "cstr s a [] \<longleftrightarrow> ld8 a s = Some 0"
| "cstr s a (c # cs) \<longleftrightarrow> c \<noteq> 0 \<and> ld8 a s = Some c \<and> cstr s (a + 1) cs"

lemma strlen_cstr: "cstr s (a + n) xs \<Longrightarrow> strlen_loop a n s = Some (n + of_nat (length xs))"
proof (induction xs arbitrary: n)
  case Nil
  then show ?case by (subst strlen_loop.simps) simp
next
  case (Cons c xs)
  then have "cstr s (a + (n + 1)) xs" by (simp add: add.assoc)
  from Cons.IH [OF this] Cons.prems show ?case by (subst strlen_loop.simps) (simp add: algebra_simps)
qed

lemma find_nul_cstr: "cstr s a xs \<Longrightarrow> find_nul a s = Some (a + of_nat (length xs))"
proof (induction xs arbitrary: a)
  case Nil
  then show ?case by (subst find_nul.simps) simp
next
  case (Cons c xs)
  then show ?case by (subst find_nul.simps) (simp add: algebra_simps)
qed

lemma byte_difference:
  "sint (ucast (x::u8) - ucast (y::u8) :: u32) < 0 \<longleftrightarrow> x < y" "(ucast x - ucast y :: u32) = 0 \<longleftrightarrow> x = y"
proof -
  have u: "unat (ucast b :: u32) = unat b" for b :: u8
    using unsigned_less [of b, where 'a = nat] by (simp add: unsigned_ucast_eq take_bit_eq_mod)
  have b: "unat x < 256" "unat y < 256" using unsigned_less [of x, where 'a = nat] unsigned_less [of y, where 'a = nat] by simp_all
  show "sint (ucast x - ucast y :: u32) < 0 \<longleftrightarrow> x < y"
    unfolding sint_neg_unat using b by (auto simp: unat_sub_if' u word_less_nat_alt word_le_nat_alt)
  have "(ucast x - ucast y :: u32) = 0 \<longleftrightarrow> unat (ucast x :: u32) = unat (ucast y :: u32)"
    by (subst right_minus_eq) (rule word_unat_eq_iff)
  then show "(ucast x - ucast y :: u32) = 0 \<longleftrightarrow> x = y" unfolding u by (simp only: word_unat_eq_iff)
qed

lemma strcmp_cstr:
  assumes "cstr s a xs" "cstr s b ys"
  shows "\<exists>r. strcmp a b s = Some r \<and> (r = 0 \<longleftrightarrow> xs = ys) \<and> (sint r < 0 \<longleftrightarrow> ord.lexordp (<) xs ys)"
  using assms
proof (induction xs arbitrary: a b ys)
  case Nil
  have low: "\<not> c < 0" for c :: u8 by simp
  have "(0 < c) = (c \<noteq> 0)" for c :: u8 by (simp add: word_neq_0_conv)
  with Nil byte_difference [of 0] show ?case by (subst strcmp.simps) (cases ys, auto)
next
  case (Cons c xs)
  show ?case
  proof (cases ys)
    case Nil
    with Cons.prems byte_difference [of c 0] show ?thesis by (subst strcmp.simps) auto
  next
    case (Cons d ys')
    note ys = this
    show ?thesis
    proof (cases "c = d")
      case True
      with Cons.IH [of "a + 1" "b + 1" ys'] Cons.prems ys show ?thesis by (subst strcmp.simps) auto
    next
      case False
      with Cons.prems ys byte_difference [of c d] show ?thesis by (subst strcmp.simps) auto
    qed
  qed
qed

lemma strchr_cstr:
  "cstr s a xs \<Longrightarrow> ucast c \<noteq> (0::u8) \<Longrightarrow> strchr a c s = Some (if ucast c \<in> set xs then a + of_nat (length (takeWhile (\<lambda>x. x \<noteq> ucast c) xs)) else 0)"
proof (induction xs arbitrary: a)
  case Nil
  then show ?case by (subst strchr.simps) auto
next
  case (Cons x xs)
  then show ?case by (subst strchr.simps) (auto simp: algebra_simps)
qed

lemma match_here_prefix: "cstr s h xs \<Longrightarrow> cstr s n ys \<Longrightarrow> match_here h n s = Some (prefix ys xs)"
proof (induction xs arbitrary: h n ys)
  case Nil
  then show ?case by (subst match_here.simps) (cases ys, auto)
next
  case (Cons x xs)
  then show ?case by (subst match_here.simps) (cases ys, auto)
qed

lemma strstr_loop_cstr:
  assumes "cstr s h xs" "cstr s n ys" "ys \<noteq> []"
  shows "if sublist ys xs then \<exists>i. strstr_loop h n s = Some (h + of_nat i) \<and> prefix ys (drop i xs) \<and> (\<forall>j < i. \<not> prefix ys (drop j xs))
    else strstr_loop h n s = Some 0"
  using assms(1)
proof (induction xs arbitrary: h)
  case Nil
  then show ?case using assms(3) by (subst strstr_loop.simps) auto
next
  case (Cons x xs)
  note m = match_here_prefix [OF Cons.prems assms(2)]
  show ?case
  proof (cases "prefix ys (x # xs)")
    case True
    then have "sublist ys (x # xs)" by (rule prefix_imp_sublist)
    moreover have "strstr_loop h n s = Some (h + of_nat 0)" using True m Cons.prems by (subst strstr_loop.simps) simp
    moreover have "prefix ys (drop 0 (x # xs)) \<and> (\<forall>j < 0. \<not> prefix ys (drop j (x # xs)))" using True by simp
    ultimately show ?thesis by (simp only: if_True) blast
  next
    case False
    then have sub: "sublist ys (x # xs) \<longleftrightarrow> sublist ys xs" by (simp add: sublist_Cons_right)
    have step: "strstr_loop h n s = strstr_loop (h + 1) n s" using m False Cons.prems by (subst strstr_loop.simps) simp
    show ?thesis
    proof (cases "sublist ys xs")
      case True
      then obtain i where i: "strstr_loop (h + 1) n s = Some (h + 1 + of_nat i)" "prefix ys (drop i xs)" "\<forall>j < i. \<not> prefix ys (drop j xs)"
        using Cons.IH [of "h + 1"] Cons.prems by auto
      have "\<not> prefix ys (drop j (x # xs))" if "j < Suc i" for j using that i(3) False by (cases j) auto
      moreover have "strstr_loop h n s = Some (h + of_nat (Suc i))" using step i(1) by (simp add: algebra_simps)
      moreover have "prefix ys (drop (Suc i) (x # xs))" using i(2) by simp
      ultimately show ?thesis using True sub by (simp only: if_True) blast
    next
      case False
      then show ?thesis using Cons.IH [of "h + 1"] Cons.prems sub step by simp
    qed
  qed
qed

subsection \<open>Copying\<close>

definition span :: "umem \<Rightarrow> u32 \<Rightarrow> nat \<Rightarrow> bool" where
  "span s a n \<longleftrightarrow> unat a + n \<le> 4294967296 \<and> (\<forall>k < n. accessible s (a + of_nat k))"

lemma accessible_um: "accessible (s\<lparr>um := m\<rparr>) = accessible s"
  by (rule ext) (simp add: accessible_def heap_top_def)

lemma span_um [simp]: "span (s\<lparr>um := m\<rparr>) a n = span s a n"
  by (simp add: span_def accessible_um)

lemma span_tl: "span s a (Suc n) \<Longrightarrow> 0 < n \<Longrightarrow> span s (a + 1) n \<and> unat (a + 1) = unat a + 1"
proof -
  assume s: "span s a (Suc n)" "0 < n"
  then have u: "unat (a + 1) = unat a + 1" by (simp add: span_def unat_word_ariths)
  have "accessible s (a + 1 + of_nat k)" if "k < n" for k
  proof -
    have "accessible s (a + of_nat (Suc k))" using s(1) that unfolding span_def by blast
    then show ?thesis by (simp add: algebra_simps)
  qed
  then show ?thesis using s(1) u by (simp add: span_def)
qed

lemma span_first: "span s a (Suc n) \<Longrightarrow> accessible s a"
proof -
  assume "span s a (Suc n)"
  then have "accessible s (a + of_nat 0)" unfolding span_def by blast
  then show ?thesis by simp
qed

lemma span_butlast: "span s a (Suc n) \<Longrightarrow> span s a n"
  by (simp add: span_def)

lemma span_nth: "span s a n \<Longrightarrow> k < n \<Longrightarrow> unat (a + of_nat k) = unat a + k"
  by (simp add: span_def unat_word_ariths unat_of_nat)

lemma span_inj: "span s a n \<Longrightarrow> j < n \<Longrightarrow> k < n \<Longrightarrow> a + of_nat j = a + of_nat k \<longleftrightarrow> j = k"
  by (metis span_nth add_left_cancel)

definition copied :: "umem \<Rightarrow> u32 \<Rightarrow> u32 \<Rightarrow> nat \<Rightarrow> (u32 \<Rightarrow> u8) \<Rightarrow> bool" where
  "copied s d a n m \<longleftrightarrow> (\<forall>k < n. m (d + of_nat k) = um s (a + of_nat k)) \<and> (\<forall>y. (\<forall>k < n. y \<noteq> d + of_nat k) \<longrightarrow> m y = um s y)"

text \<open>Upwards, what is read must not have been written before.\<close>

lemma copy_forward:
  "span s d n \<Longrightarrow> span s a n \<Longrightarrow> \<forall>k < n. \<forall>j < k. a + of_nat k \<noteq> d + of_nat j \<Longrightarrow> \<exists>m. umemcpy d a n s = Some (s\<lparr>um := m\<rparr>) \<and> copied s d a n m"
proof (induction n arbitrary: s d a)
  case 0
  then show ?case by (intro exI [of _ "um s"]) (simp add: copied_def)
next
  case (Suc n)
  let ?s = "s\<lparr>um := (um s)(d := um s a)\<rparr>"
  have acc: "accessible s d" "accessible s a"
    using span_first [OF Suc.prems(1)] span_first [OF Suc.prems(2)] by simp_all
  show ?case
  proof (cases "n = 0")
    case True
    have "umemcpy d a (Suc 0) s = Some ?s" using acc by (simp add: ld8_def st8_def)
    moreover have "copied s d a (Suc 0) ((um s)(d := um s a))" by (simp add: copied_def)
    ultimately show ?thesis using True by blast
  next
    case False
    note d = span_tl [OF Suc.prems(1)] and a = span_tl [OF Suc.prems(2)]
    have "\<forall>k < n. \<forall>j < k. a + 1 + of_nat k \<noteq> d + 1 + of_nat j"
    proof (intro allI impI)
      fix k j assume "k < n" "j < k"
      then show "a + 1 + of_nat k \<noteq> d + 1 + of_nat j"
        using Suc.prems(3) [rule_format, of "Suc k" "Suc j"] by (simp add: algebra_simps)
    qed
    then obtain m where m: "umemcpy (d + 1) (a + 1) n ?s = Some (?s\<lparr>um := m\<rparr>)" "copied ?s (d + 1) (a + 1) n m"
      using Suc.IH [of ?s "d + 1" "a + 1"] d a False by auto
    have far: "a + of_nat k \<noteq> d" if "k < Suc n" "0 < k" for k
      using Suc.prems(3) [rule_format, of k 0] that by simp
    have "m (d + of_nat k) = um s (a + of_nat k)" if "k < Suc n" for k
    proof (cases k)
      case 0
      have "d \<noteq> d + 1 + of_nat j" if "j < n" for j
        using span_inj [OF Suc.prems(1), of 0 "Suc j"] that by (simp add: algebra_simps)
      then show ?thesis using m(2) 0 by (simp add: copied_def)
    next
      case (Suc j)
      then have "m (d + 1 + of_nat j) = um ?s (a + 1 + of_nat j)" using m(2) that by (simp add: copied_def)
      then show ?thesis using far [OF that] Suc by (simp add: algebra_simps split: if_splits)
    qed
    moreover have "m y = um s y" if y: "\<forall>k < Suc n. y \<noteq> d + of_nat k" for y
    proof -
      have "y \<noteq> d + 1 + of_nat k" if "k < n" for k using y [rule_format, of "Suc k"] that by (simp add: algebra_simps)
      moreover have "y \<noteq> d" using y [rule_format, of 0] by simp
      ultimately show ?thesis using m(2) by (simp add: copied_def)
    qed
    ultimately show ?thesis using m(1) acc by (intro exI [of _ m]) (simp add: ld8_def st8_def copied_def)
  qed
qed

lemma copy_up:
  assumes "span s d n" "span s a n" "d < a"
  shows "\<exists>m. umemcpy d a n s = Some (s\<lparr>um := m\<rparr>) \<and> copied s d a n m"
proof (rule copy_forward [OF assms(1,2)], intro allI impI)
  fix k j assume "k < n" "j < k"
  then show "a + of_nat k \<noteq> d + of_nat j"
    using span_nth [OF assms(1), of j] span_nth [OF assms(2), of k] assms(3) by (auto simp: word_less_nat_alt)
qed

lemma copy_down_copies:
  "span s d n \<Longrightarrow> span s a n \<Longrightarrow> a \<le> d \<Longrightarrow> \<exists>m. copy_down d a n s = Some (s\<lparr>um := m\<rparr>) \<and> copied s d a n m"
proof (induction n arbitrary: s)
  case 0
  then show ?case by (intro exI [of _ "um s"]) (simp add: copied_def)
next
  case (Suc n)
  let ?s = "s\<lparr>um := (um s)(d + of_nat n := um s (a + of_nat n))\<rparr>"
  have acc: "accessible s (d + of_nat n)" "accessible s (a + of_nat n)" using Suc.prems(1,2) by (simp_all add: span_def)
  obtain m where m: "copy_down d a n ?s = Some (?s\<lparr>um := m\<rparr>)" "copied ?s d a n m"
    using Suc.IH [of ?s] span_butlast Suc.prems by auto
  have far: "a + of_nat k \<noteq> d + of_nat n" if "k < n" for k
  proof
    assume "a + of_nat k = d + of_nat n"
    then have "unat a + k = unat d + n"
      using span_nth [OF Suc.prems(2), of k] span_nth [OF Suc.prems(1), of n] that by simp
    then show False using Suc.prems(3) that by (simp add: word_le_nat_alt)
  qed
  have "m (d + of_nat k) = um s (a + of_nat k)" if "k < Suc n" for k
  proof (cases "k = n")
    case True
    have "d + of_nat n \<noteq> d + of_nat j" if "j < n" for j
      using span_inj [OF Suc.prems(1), of n j] that by simp
    then show ?thesis using m(2) True by (simp add: copied_def)
  next
    case False
    then show ?thesis using m(2) far [of k] that by (simp add: copied_def)
  qed
  moreover have "m y = um s y" if y: "\<forall>k < Suc n. y \<noteq> d + of_nat k" for y
    using m(2) y by (simp add: copied_def)
  ultimately show ?case using m(1) acc by (intro exI [of _ m]) (simp add: ld8_def st8_def copied_def)
qed

lemma memmove_copies:
  assumes "span s dst (unat sz)" "span s src (unat sz)"
  shows "\<exists>m. memmove dst src sz s = Some (s\<lparr>um := m\<rparr>) \<and> copied s dst src (unat sz) m"
  using copy_up [OF assms] copy_down_copies [OF assms] by (auto simp: memmove_def not_less)

text \<open>A string behind a copy: \<open>strcpy\<close> writes the characters and the zero byte.\<close>

lemma strcpy_loop_copies:
  assumes "cstr s a xs" "span s d (Suc (length xs))" "span s a (Suc (length xs))"
    and "\<forall>j \<le> length xs. \<forall>k \<le> length xs. d + of_nat j \<noteq> a + of_nat k"
  shows "\<exists>m. strcpy_loop d a s = Some (s\<lparr>um := m\<rparr>) \<and> copied s d a (Suc (length xs)) m"
proof -
  have run: "strcpy_loop d a s = umemcpy d a (Suc (length xs)) s" if "cstr s a xs"
    "\<forall>j \<le> length xs. \<forall>k \<le> length xs. d + of_nat j \<noteq> a + of_nat k" for s d a xs
    using that
  proof (induction xs arbitrary: s d a)
    case Nil
    then show ?case by (subst strcpy_loop.simps) (cases "st8 d 0 s", simp_all)
  next
    case (Cons x xs)
    have sep: "d + 1 + of_nat j \<noteq> a + 1 + of_nat k" "d \<noteq> a + 1 + of_nat k" if "j \<le> length xs" "k \<le> length xs" for j k
      using Cons.prems(2) [rule_format, of "Suc j" "Suc k"] Cons.prems(2) [rule_format, of 0 "Suc k"] that by (simp_all add: algebra_simps)
    have keep: "cstr s' b zs = cstr s b zs" if "s' = s\<lparr>um := (um s)(d := v)\<rparr>" "\<forall>k \<le> length zs. d \<noteq> b + of_nat k" for s' b v zs
      using that
    proof (induction zs arbitrary: b)
      case Nil
      then show ?case by (auto simp: ld8_def accessible_um)
    next
      case (Cons z zs)
      have "d \<noteq> b" using Cons.prems(2) [rule_format, of 0] by simp
      moreover have "\<forall>k \<le> length zs. d \<noteq> b + 1 + of_nat k"
        using Cons.prems(2) by (auto simp: algebra_simps dest: spec [of _ "Suc k" for k])
      ultimately show ?case using Cons.IH [of "b + 1"] Cons.prems(1) by (auto simp: ld8_def accessible_um)
    qed
    show ?case
    proof (cases "st8 d x s")
      case None
      then show ?thesis using Cons.prems(1) by (subst strcpy_loop.simps) simp
    next
      case (Some s')
      then have s': "s' = s\<lparr>um := (um s)(d := x)\<rparr>" by (simp add: st8_def split: if_splits)
      have "cstr s' (a + 1) xs" using keep [OF s', of xs "a + 1"] sep(2) Cons.prems(1) by simp
      then have "strcpy_loop (d + 1) (a + 1) s' = umemcpy (d + 1) (a + 1) (Suc (length xs)) s'" using Cons.IH sep(1) by blast
      then show ?thesis using Cons.prems(1) Some by (subst strcpy_loop.simps) simp
    qed
  qed
  have "\<exists>m. umemcpy d a (Suc (length xs)) s = Some (s\<lparr>um := m\<rparr>) \<and> copied s d a (Suc (length xs)) m"
    proof (rule copy_forward [OF assms(2,3)], intro allI impI)
    fix k j assume "k < Suc (length xs)" "j < k"
    then show "a + of_nat k \<noteq> d + of_nat j" using assms(4) [rule_format, of j k] by auto
  qed
  then show ?thesis using run [OF assms(1,4)] by simp
qed

text \<open>
  C40. The string functions on the strings in a program's memory.  \<open>strlen\<close> is the length; \<open>strcmp\<close> is 0 exactly for equal strings
  and negative exactly when the first comes first in the lexicographic order of unsigned bytes; \<open>strchr\<close> finds the first
  occurrence of a character; \<open>strstr\<close> finds the leftmost occurrence of the other string, if there is one, and else NULL.
  \<open>memmove\<close> copies an area the program may access as it was, also over itself, and changes no byte outside the destination.
\<close>

theorem string_functions_correct:
  assumes "cstr s a xs" and "cstr s b ys" and "ucast c \<noteq> (0 :: u8)"
  shows "strlen a s = Some (of_nat (length xs)) \<and>
    (\<exists>r. strcmp a b s = Some r \<and> (r = 0 \<longleftrightarrow> xs = ys) \<and> (sint r < 0 \<longleftrightarrow> ord.lexordp (<) xs ys)) \<and>
    strchr a c s = Some (if ucast c \<in> set xs then a + of_nat (length (takeWhile (\<lambda>x. x \<noteq> ucast c) xs)) else 0) \<and>
    (if sublist ys xs then \<exists>i. strstr a b s = Some (a + of_nat i) \<and> prefix ys (drop i xs) \<and> (\<forall>j < i. \<not> prefix ys (drop j xs))
     else strstr a b s = Some 0) \<and>
    (\<forall>dst src sz. span s dst (unat sz) \<and> span s src (unat sz) \<longrightarrow>
       (\<exists>m. memmove dst src sz s = Some (s\<lparr>um := m\<rparr>) \<and> (\<forall>k < unat sz. m (dst + of_nat k) = um s (src + of_nat k)) \<and>
          (\<forall>y. (\<forall>k < unat sz. y \<noteq> dst + of_nat k) \<longrightarrow> m y = um s y)))"
proof -
  have len: "strlen a s = Some (of_nat (length xs))" using strlen_cstr [of s a 0 xs] assms(1) by (simp add: strlen_def)
  have str: "if sublist ys xs then \<exists>i. strstr a b s = Some (a + of_nat i) \<and> prefix ys (drop i xs) \<and> (\<forall>j < i. \<not> prefix ys (drop j xs))
     else strstr a b s = Some 0"
  proof (cases ys)
    case Nil
    then have "strstr a b s = Some (a + of_nat 0) \<and> prefix ys (drop 0 xs) \<and> (\<forall>j < 0. \<not> prefix ys (drop j xs))"
      using assms(2) by (simp add: strstr_def)
    then show ?thesis using Nil by (simp only: sublist_Nil_left if_True) blast
  next
    case (Cons y ys')
    then have eq: "strstr a b s = strstr_loop a b s" and ne: "ys \<noteq> []" using assms(2) by (simp_all add: strstr_def)
    show ?thesis unfolding eq by (rule strstr_loop_cstr [OF assms(1,2) ne])
  qed
  show ?thesis
    using len strcmp_cstr [OF assms(1,2)] strchr_cstr [OF assms(1,3)] str memmove_copies [of s] unfolding copied_def
    by (intro conjI) blast+
qed

text \<open>The text \<open>abcbc\<close> at \<open>0x1000\<close> and the text \<open>bc\<close> at its position 3.\<close>

definition umem_text :: umem where
  "umem_text = \<lparr>um = (\<lambda>_. 0)(0x1000 := 0x61, 0x1001 := 0x62, 0x1002 := 0x63, 0x1003 := 0x62, 0x1004 := 0x63),
     useg = (\<lambda>a. 0x1000 \<le> a \<and> a < 0x2000), ubase = 0x3000, ubrk = 0x3000, grants = [], uerrno = 0, uhead = 0\<rparr>"

theorem string_functions_correct_witness:
  "strlen 0x1000 umem_text = Some 5 \<and> strchr 0x1000 0x63 umem_text = Some 0x1002 \<and> strstr 0x1000 0x1003 umem_text = Some 0x1001 \<and>
   (\<exists>m. memmove 0x1001 0x1000 4 umem_text = Some (umem_text\<lparr>um := m\<rparr>) \<and> m 0x1004 = 0x62)"
proof -
  have a: "cstr umem_text 0x1000 [0x61, 0x62, 0x63, 0x62, 0x63]" and b: "cstr umem_text 0x1003 [0x62, 0x63]"
    by (simp_all add: umem_text_def ld8_def accessible_def)
  have c: "ucast (0x63 :: u32) \<noteq> (0 :: u8)" by simp
  note ok = string_functions_correct [OF a b c]
  have len: "strlen 0x1000 umem_text = Some 5" "strchr 0x1000 0x63 umem_text = Some 0x1002" using ok by simp_all
  have sub: "sublist [0x62, 0x63] [0x61, 0x62, 0x63, 0x62, 0x63 :: u8]" by (simp add: sublist_code)
  then obtain i where i: "strstr 0x1000 0x1003 umem_text = Some (0x1000 + of_nat i)"
    "\<forall>j < i. \<not> prefix [0x62, 0x63] (drop j [0x61, 0x62, 0x63, 0x62, 0x63 :: u8])"
    "prefix [0x62, 0x63] (drop i [0x61, 0x62, 0x63, 0x62, 0x63 :: u8])" using ok by auto
  have "\<not> 1 < i" using i(2) by (auto dest: spec [of _ 1])
  moreover have "i \<noteq> 0" using i(3) by (intro notI) simp
  ultimately have "i = 1" by simp
  have four: "(\<forall>k < 4. P k) = (P 0 \<and> P 1 \<and> P 2 \<and> P (3 :: nat))" for P
    by (simp add: numeral_eq_Suc All_less_Suc conj_ac)
  have span: "span umem_text 0x1001 4" "span umem_text 0x1000 4"
    by (simp_all add: span_def four umem_text_def accessible_def)
  then have "span umem_text 0x1001 (unat (4 :: u32)) \<and> span umem_text 0x1000 (unat (4 :: u32))" by simp
  then obtain m where m: "memmove 0x1001 0x1000 4 umem_text = Some (umem_text\<lparr>um := m\<rparr>)"
    "\<forall>k < unat (4 :: u32). m (0x1001 + of_nat k) = um umem_text (0x1000 + of_nat k)"
    using ok [THEN conjunct2, THEN conjunct2, THEN conjunct2, THEN conjunct2] by blast
  have "m 0x1004 = 0x62" using m(2) [rule_format, of 3] by (simp add: umem_text_def)
  then show ?thesis using len i(1) m(1) \<open>i = 1\<close> by auto
qed

end
