(* ===== verification/Unistd.thy ===== *)
theory Unistd
  imports Syscall
begin

text \<open>
  The system call wrappers of the C library, \<open>libc/unistd\<close>, \<open>libc/fcntl/open.c\<close> and \<open>libc/sys/wait\<close>, on the kernel itself: the
  trap of \<open>syscall.S\<close> puts the number in \<open>eax\<close> and the arguments in \<open>ebx\<close>, \<open>ecx\<close> and \<open>edx\<close>, and the answer comes back
  in \<open>eax\<close>.  The state is the kernel and \<open>errno\<close>.  None: the call does not come back to this program now
  (it exited, entered another program, or waits), or the kernel faulted.
\<close>

type_synonym ustate = "kernel \<times> u32"

text \<open>\<open>regs\<close>: the other registers of the program at the trap.\<close>

definition trap :: "int_frame \<Rightarrow> u32 \<Rightarrow> u32 \<Rightarrow> u32 \<Rightarrow> u32 \<Rightarrow> kernel \<Rightarrow> (u32 \<times> kernel) option" where
  "trap regs n a b c k = do {
     (r, k) \<leftarrow> syscall_handler (regs\<lparr>f_eax := n, f_ebx := a, f_ecx := b, f_edx := c\<rparr>) k;
     (case r of Sys_Return v \<Rightarrow> Some (v, k) | _ \<Rightarrow> None)
   }"

text \<open>\<open>if (ret < 0) { errno = -ret; return -1; } return ret;\<close>\<close>

definition with_errno :: "u32 \<times> kernel \<Rightarrow> u32 \<Rightarrow> u32 \<times> ustate" where
  "with_errno r e = (case r of (v, k) \<Rightarrow> if sint v < 0 then (- 1, k, - v) else (v, k, e))"

definition close_u :: "int_frame \<Rightarrow> u32 \<Rightarrow> ustate \<Rightarrow> (u32 \<times> ustate) option" where
  "close_u regs fd s = (let (k, e) = s in
     map_option (\<lambda>(v, k). if sint v < 0 then (- 1, k, - v) else (0, k, e)) (trap regs 4 fd 0 0 k))"

definition open_u :: "int_frame \<Rightarrow> u32 \<Rightarrow> u32 \<Rightarrow> ustate \<Rightarrow> (u32 \<times> ustate) option" where
  "open_u regs path flags s = (let (k, e) = s in map_option (\<lambda>r. with_errno r e) (trap regs 3 path flags 0 k))"

definition read_u :: "int_frame \<Rightarrow> u32 \<Rightarrow> u32 \<Rightarrow> u32 \<Rightarrow> ustate \<Rightarrow> (u32 \<times> ustate) option" where
  "read_u regs fd buf count s = (let (k, e) = s in map_option (\<lambda>r. with_errno r e) (trap regs 2 fd buf count k))"

definition write_u :: "int_frame \<Rightarrow> u32 \<Rightarrow> u32 \<Rightarrow> u32 \<Rightarrow> ustate \<Rightarrow> (u32 \<times> ustate) option" where
  "write_u regs fd buf count s = (let (k, e) = s in map_option (\<lambda>r. with_errno r e) (trap regs 1 fd buf count k))"

definition fork_u :: "int_frame \<Rightarrow> ustate \<Rightarrow> (u32 \<times> ustate) option" where
  "fork_u regs s = (let (k, e) = s in map_option (\<lambda>r. with_errno r e) (trap regs 7 0 0 0 k))"

definition wait_u :: "int_frame \<Rightarrow> u32 \<Rightarrow> ustate \<Rightarrow> (u32 \<times> ustate) option" where
  "wait_u regs status s = (let (k, e) = s in map_option (\<lambda>r. with_errno r e) (trap regs 9 status 0 0 k))"

definition getpid_u :: "int_frame \<Rightarrow> ustate \<Rightarrow> (u32 \<times> ustate) option" where
  "getpid_u regs s = (let (k, e) = s in map_option (\<lambda>(v, k). (v, k, e)) (trap regs 5 0 0 0 k))"

text \<open>\<open>execve\<close> comes back on failure only, and does not look at the sign.\<close>

definition execve_u :: "int_frame \<Rightarrow> u32 \<Rightarrow> ustate \<Rightarrow> (u32 \<times> ustate) option" where
  "execve_u regs path s = (let (k, e) = s in map_option (\<lambda>(v, k). (- 1, k, - v)) (trap regs 8 path 0 0 k))"

definition exit_u :: "int_frame \<Rightarrow> u32 \<Rightarrow> ustate \<Rightarrow> (u32 \<times> ustate) option" where
  "exit_u regs status s = (let (k, e) = s in map_option (\<lambda>(v, k). (v, k, e)) (trap regs 0 status 0 0 k))"

lemma exit_never_returns: "exit_u regs status s = None"
proof -
  have "trap regs 0 status 0 0 k = None" for k
    by (cases "process_exit status k") (auto simp: trap_def syscall_handler_def sys_exit_def Let_def)
  then show ?thesis by (cases s) (simp add: exit_u_def)
qed

text \<open>A descriptor that is not open: \<open>-1\<close>, \<open>errno\<close> says so, and the kernel has not changed.\<close>

lemma bad_descriptor:
  assumes "get_fd fd k = None"
  shows "close_u regs fd (k, e) = Some (- 1, k, EBADF)" "read_u regs fd buf n (k, e) = Some (- 1, k, EBADF)"
  using assms by (simp_all add: close_u_def read_u_def trap_def syscall_handler_def sys_close_def sys_read_def ret_def with_errno_def Let_def)

end
