(* ===== verification/Spec2Isabelle.thy ===== *)
theory Spec2Isabelle
  imports Pmm Machine Paging Space Kheap Task Initrd Elf Process Process_Inv Syscall Kernel_Inv Steps User_Memory Devices Keyboard Tty Umem Malloc Stdlib Printf Console Stdio Descriptors Kdb Interrupts Boot Cstring Unistd
begin

text \<open>
  EclipseOS is a small 32-bit x86 kernel with a C library for the kernel and for user programs.  This development models
  the kernel and the library in HOL, function by function, and proves what makes the parts correct, alone and
  together.

  \<^bold>\<open>The program and its theories.\<close>  Paths are under \<open>src/\<close>; \<open>arch\<close> is \<open>kernel/arch/i386\<close>.

  Memory.  \<open>Pmm\<close>: \<open>arch/pmm.c\<close>, the bitmap of physical frames and how it is built from the boot loader's memory map.
  \<open>Machine\<close>: byte memory, \<open>cr3\<close> and the processor's page walk, which all virtual accesses go through.  \<open>Paging\<close>:
  \<open>arch/paging.c\<close>, page directories and tables through the recursive window.  \<open>Space\<close>: who owns which frame in
  an address space, the invariant of all code that maps pages.  \<open>Kheap\<close>: \<open>arch/kheap.c\<close>.  \<open>Elf\<close>: \<open>arch/elf.c\<close>, loading and
  relocating programs.

  Processes.  \<open>Task\<close>: \<open>arch/task.c\<close> and \<open>task_switch.S\<close>, the ring of tasks and the context switch.  \<open>Initrd\<close>: \<open>arch/vfs.c\<close> and
  \<open>initrd.c\<close>.  \<open>Process\<close>: \<open>arch/process.c\<close>, with the record \<open>kernel\<close> that gathers the static variables of all these files.
  \<open>Syscall\<close>: \<open>arch/syscall.c\<close>.  \<open>Process_Inv\<close> and \<open>Kernel_Inv\<close>: the invariant of processes, descriptors and scheduler, one
  lemma per operation.  \<open>Steps\<close> and \<open>User_Memory\<close>: the kernel as a transition system, and what the calls do.

  Devices and boot.  \<open>Devices\<close>: \<open>kernel/io.h\<close>, \<open>serial.c\<close>, \<open>pic.c\<close> and the timer chip; a device is the list of its coming answers and
  a log of what was written.  \<open>Keyboard\<close>, \<open>Tty\<close>: \<open>keyboard.c\<close>, \<open>tty.c\<close>.  \<open>Console\<close>: the kernel's \<open>printf\<close> on the terminal.
  \<open>Kdb\<close>: the debugger, \<open>kdb.c\<close> and \<open>debug.c\<close>.  \<open>Descriptors\<close>: \<open>gdt.c\<close>, \<open>idt.c\<close>, \<open>tss.c\<close>.  \<open>Interrupts\<close>: \<open>isr.c\<close>, \<open>irq.c\<close>, \<open>timer.c\<close>
  over the record \<open>machine\<close>, which puts kernel, terminal, keyboard and debugger together.  \<open>Boot\<close>: \<open>kernel/kernel/kernel.c\<close>,
  one definition per stage of \<open>kernel_main\<close>.

  The C library (\<open>libc\<close>).  \<open>Umem\<close>: a program's memory and \<open>sbrk\<close>.  \<open>Malloc\<close>: \<open>stdlib/malloc.c\<close> with its headers in that memory.  \<open>Stdlib\<close>:
  \<open>atoi\<close>, \<open>strtol\<close>, \<open>abs\<close>.  \<open>Printf\<close>: the format interpreter of \<open>stdio/printf.c\<close> over any output function.  \<open>Stdio\<close>: \<open>FILE\<close> buffering.
  \<open>Cstring\<close>: \<open>string\<close>.  \<open>Unistd\<close>: the system call wrappers on the kernel's own handler.

  \<open>Prelude\<close> has the machine integers, the collections of rewrite rules, the page loop and the word lemmas.

  \<^bold>\<open>Conventions.\<close>  C structs are records, enumerations datatypes, \<open>uint32_t\<close> and the like are words of that
  width, so that every wrap-around of the source is one of the model.  Static variables are fields of the state that each
  operation takes and returns.  An operation is an option when the C function can fail to come back: a page fault in the kernel (its
  handler aborts), a loop that does not end, a device that never answers; None is that.  Error returns are values, as
  in the code.  Loops over memory are \<open>partial_function\<close> where they need not end and \<open>fun\<close> otherwise.  The one fuel is that of
  \<open>format_loop\<close> in \<open>Printf\<close>: one more than the format is long; every pass shortens the format, so more would change nothing
  (\<open>format_loop_fuel\<close>).

  \<^bold>\<open>Interfaces.\<close>  Locales state what a client relies on and are interpreted on the code's definitions: \<open>bitset\<close> and
  \<open>frame_allocator\<close> (\<open>Pmm\<close>), \<open>word_memory\<close> (page tables in byte memory), \<open>page_mapper\<close> (a loop that maps fresh pages: heap,
  ELF loader), \<open>region_allocator\<close> (\<open>Kheap\<close>), \<open>round_robin\<close> (the ring alone, and \<open>yield\<close> of the kernel), \<open>bounded_queue\<close>
  (keyboard buffer), \<open>char_sink\<close> (console, \<open>stdout\<close>, \<open>stderr\<close>).

  \<^bold>\<open>What is shown.\<close>  Frames are handed out once and counted; after boot the free frames lie in RAM outside the kernel
  and the modules.  Mapping, unmapping and new directories do what they say to the page walk and nothing else; no frame is mapped
  twice.  Boot ends with the heap backed, two interrupt handlers, a task state segment that matches process 0 and the kernel's
  invariant.  That invariant (reference counts, identifiers, parents, the ring) holds in every state that interrupts, exceptions,
  system calls and user computation can reach, from the end of \<open>kernel_main\<close> on (\<open>kernel_after_boot\<close>), and every running process gets the processor within 150 timer
  interrupts.  \<open>fork\<close>, \<open>exit\<close>, \<open>wait\<close>, \<open>open\<close>, \<open>close\<close>, \<open>sbrk\<close> and the ELF loader have their effects stated on every
  branch.  User mode enters the kernel through one gate, and buffers it passes are accepted exactly when it may access them.  The
  keyboard buffer is a queue, the terminal a scrolling screen, \<open>stdout\<close> a stream behind a line buffer; the debugger's editor stays in its
  buffer.  \<open>malloc\<close> keeps live blocks apart; numbers that \<open>printf\<close> prints read back; the string functions compute
  what the standard says.

  \<^bold>\<open>What the code does that it should not\<close> is stated where it was found: a \<open>kmalloc\<close> or \<open>malloc\<close> request near
  \<open>2 ^ 32\<close>, \<open>paging_map\<close> without frames, a memory map beyond 4 GiB, the kernel stack after a switch to process 0, the limits of
  \<open>sbrk\<close>, relocation entries of size 0, the byte \<open>0xFF\<close> in \<open>fputs\<close>.

  \<^bold>\<open>Not modelled.\<close>  The assembly entry points (their effect is written into the C function they serve), the loading of descriptor
  tables, the processor's TLB (the code flushes every changed entry) and the time at which interrupts come: an interrupt
  arrives between two steps, and inside the kernel only where the code yields, since the gates disable interrupts; kernel code runs with
  interrupts enabled only in the idle loops, between the \<open>sti\<close> of \<open>process_exit\<close> and its \<open>yield\<close>, and at the end of
  \<open>kernel_main\<close>, when there is a single task.  Messages that the
  process code and the ELF loader print for diagnosis are left out.  The demonstration programs, the stack protector, headers and
  build files are not modelled; what the build makes (symbol table, addresses) is a parameter.
\<close>

end
